(* ===== verification/Prelude.thy ===== *)
theory Prelude
  imports Main "HOL-Library.Word" "HOL-Library.Monad_Syntax"
begin

text \<open>
  Shared vocabulary of the F7LY kernel development: the machine types, the fault
  convention, bounds-checked arrays, counted loops and the generic lemmas on lists,
  words and binary arithmetic that the component theories use.

  \<^bold>\<open>Faults.\<close> A kernel operation that can panic, dereference a null pointer or index
  an array out of its bounds returns an \<open>option\<close>: \<^const>\<open>None\<close> is the fault (the
  kernel panics or the C++ behaviour is undefined), \<^const>\<open>Some\<close> carries the result.
  An operation that reports an error to its caller returns that error as a value.
\<close>

unbundle bit_operations_syntax

subsection \<open>Machine types\<close>

type_synonym u8 = "8 word"
type_synonym u32 = "32 word"
type_synonym u64 = "64 word"

definition PGSIZE :: nat where
  "PGSIZE = 4096"

definition PGROUNDUP :: "u64 \<Rightarrow> u64" where
  "PGROUNDUP sz = (sz + 4096 - 1) AND NOT (4096 - 1)"

definition PGROUNDDOWN :: "u64 \<Rightarrow> u64" where
  "PGROUNDDOWN address = address AND NOT (4096 - 1)"

subsection \<open>Rule collections\<close>

text \<open>
  \<open>array_simps\<close>: how checked array accesses reduce once the index is in range;
  \<open>inv_intros\<close>: an operation keeps the invariant of its component.
\<close>

named_theorems array_simps
named_theorems inv_intros

subsection \<open>Bounds-checked arrays\<close>

definition arr_get :: "'a list \<Rightarrow> nat \<Rightarrow> 'a option" where
  "arr_get xs i = (if i < length xs then Some (xs ! i) else None)"

definition arr_set :: "'a list \<Rightarrow> nat \<Rightarrow> 'a \<Rightarrow> 'a list option" where
  "arr_set xs i v = (if i < length xs then Some (xs[i := v]) else None)"

lemma arr_get_in [array_simps]: "i < length xs \<Longrightarrow> arr_get xs i = Some (xs ! i)"
  by (simp add: arr_get_def)

lemma arr_set_in [array_simps]: "i < length xs \<Longrightarrow> arr_set xs i v = Some (xs[i := v])"
  by (simp add: arr_set_def)

lemma arr_get_Some: "arr_get xs i = Some v \<longleftrightarrow> i < length xs \<and> v = xs ! i"
  by (auto simp: arr_get_def)

lemma arr_set_Some: "arr_set xs i v = Some ys \<longleftrightarrow> i < length xs \<and> ys = xs[i := v]"
  by (auto simp: arr_set_def)

text \<open>\<open>blit\<close> and \<open>slice\<close>: \<open>memmove\<close> into and out of an array.\<close>

definition blit :: "'a list \<Rightarrow> nat \<Rightarrow> 'a list \<Rightarrow> 'a list option" where
  "blit xs at ys =
     (if at + length ys \<le> length xs then Some (take at xs @ ys @ drop (at + length ys) xs) else None)"

definition slice :: "'a list \<Rightarrow> nat \<Rightarrow> nat \<Rightarrow> 'a list option" where
  "slice xs at n = (if at + n \<le> length xs then Some (take n (drop at xs)) else None)"

lemma blit_Some:
  "blit xs at ys = Some zs \<longleftrightarrow> at + length ys \<le> length xs \<and> zs = take at xs @ ys @ drop (at + length ys) xs"
  by (auto simp: blit_def)

lemma blit_in [array_simps]:
  "at + length ys \<le> length xs \<Longrightarrow> blit xs at ys = Some (take at xs @ ys @ drop (at + length ys) xs)"
  by (simp add: blit_def)

lemma slice_in [array_simps]: "at + n \<le> length xs \<Longrightarrow> slice xs at n = Some (take n (drop at xs))"
  by (simp add: slice_def)

subsection \<open>Counted loops\<close>

text \<open>
  \<open>for_each f xs s\<close> is the loop \<open>for x in xs\<close> whose body is \<open>f\<close>: it stops at the
  first fault.
\<close>

primrec for_each :: "('a \<Rightarrow> 's \<Rightarrow> 's option) \<Rightarrow> 'a list \<Rightarrow> 's \<Rightarrow> 's option" where
  "for_each f [] s = Some s"
| "for_each f (x # xs) s = do { s' \<leftarrow> f x s; for_each f xs s' }"

lemma for_each_append: "for_each f (xs @ ys) s = do { s' \<leftarrow> for_each f xs s; for_each f ys s' }"
  by (induction xs arbitrary: s) (auto split: bind_splits)

text \<open>A loop whose body never faults under an invariant ends with the invariant.\<close>

lemma for_each_inv:
  assumes "P s"
    and "\<And>x s. x \<in> set xs \<Longrightarrow> P s \<Longrightarrow> \<exists>s'. f x s = Some s' \<and> P s'"
  shows "\<exists>s'. for_each f xs s = Some s' \<and> P s'"
  using assms
proof (induction xs arbitrary: s)
  case Nil
  then show ?case by simp
next
  case (Cons x xs)
  obtain s1 where s1: "f x s = Some s1" "P s1"
    using Cons.prems(2)[of x s] Cons.prems(1) by auto
  have "\<exists>s'. for_each f xs s1 = Some s' \<and> P s'"
    by (rule Cons.IH [OF s1(2)]) (use Cons.prems(2) in auto)
  with s1(1) show ?case by simp
qed

text \<open>A loop whose body keeps a property whenever it returns.\<close>

lemma for_each_keeps:
  assumes "P s" "for_each f xs s = Some t" and "\<And>x s s'. x \<in> set xs \<Longrightarrow> P s \<Longrightarrow> f x s = Some s' \<Longrightarrow> P s'"
  shows "P t"
  using assms
proof (induction xs arbitrary: s)
  case (Cons x xs)
  then obtain s1 where s1: "f x s = Some s1" "for_each f xs s1 = Some t" by (auto split: bind_splits)
  have "P s1" using Cons.prems(1,3) s1(1) by (meson list.set_intros(1))
  then show ?case using Cons.IH [OF _ s1(2)] Cons.prems(3) by (meson list.set_intros(2))
qed simp

text \<open>A loop over the indices of an array is a loop over its elements.\<close>

lemma for_each_elements:
  assumes "n \<le> length xs"
  shows "for_each (\<lambda>i s. do { x \<leftarrow> arr_get xs i; f x s }) [0..<n] s = for_each f (take n xs) s"
  using assms by (induction n) (simp_all add: for_each_append take_Suc_conv_app_nth arr_get_def)

text \<open>A loop over \<open>0..<n\<close> whose state after \<open>k\<close> rounds is known.\<close>

lemma for_each_upt:
  assumes "\<And>k. k < n \<Longrightarrow> f k (S k) = Some (S (Suc k))"
  shows "for_each f [0..<n] (S 0) = Some (S n)"
  using assms by (induction n) (simp_all add: for_each_append)

text \<open>A recursion may go through the body of a counted loop.\<close>

lemma for_each_mono [partial_function_mono]:
  assumes "\<And>x s. mono_option (\<lambda>f. B f x s)"
  shows "mono_option (\<lambda>f. for_each (B f) xs s)"
proof (induction xs arbitrary: s)
  case Nil
  show ?case by (simp add: option.const_mono)
next
  case (Cons x xs)
  show ?case by (simp add: bind_mono assms Cons.IH)
qed

text \<open>Writing each index of a list of in-range indices is a pointwise update.\<close>

lemma for_each_set:
  assumes "\<forall>i\<in>set is. g i < length xs" and "inj_on g (set is)" and "distinct is"
  shows "\<exists>ys. for_each (\<lambda>i t. arr_set t (g i) (v i)) is xs = Some ys \<and> length ys = length xs
     \<and> (\<forall>i\<in>set is. ys ! g i = v i) \<and> (\<forall>j. j \<notin> g ` set is \<longrightarrow> ys ! j = xs ! j)"
  using assms
proof (induction "is" arbitrary: xs)
  case Nil
  then show ?case by simp
next
  case (Cons i "is")
  have "\<exists>ys. for_each (\<lambda>i t. arr_set t (g i) (v i)) is (xs[g i := v i]) = Some ys
     \<and> length ys = length (xs[g i := v i])
     \<and> (\<forall>i\<in>set is. ys ! g i = v i) \<and> (\<forall>j. j \<notin> g ` set is \<longrightarrow> ys ! j = (xs[g i := v i]) ! j)"
    by (rule Cons.IH) (use Cons.prems in auto)
  then obtain ys where ys: "for_each (\<lambda>i t. arr_set t (g i) (v i)) is (xs[g i := v i]) = Some ys"
     "length ys = length xs" "\<forall>i\<in>set is. ys ! g i = v i"
     "\<forall>j. j \<notin> g ` set is \<longrightarrow> ys ! j = (xs[g i := v i]) ! j"
    by auto
  have "g i \<notin> g ` set is"
    using Cons.prems(2,3) by (auto simp: inj_on_def)
  then have "ys ! g i = v i"
    using ys(4) Cons.prems(1) by simp
  with ys Cons.prems(1) show ?case
    by (auto simp: arr_set_def nth_list_update)
qed

subsection \<open>Powers of two and binary shifts\<close>

lemma div_pow2_Suc: "(n::nat) div 2 ^ Suc d = n div 2 ^ d div 2"
  by (metis div_mult2_eq power_Suc2)

lemma diff_double_less: "(0::nat) < p \<Longrightarrow> p < c \<Longrightarrow> c - 2 * p < c - p"
  by arith

lemma div_pow2_add: "(n::nat) div 2 ^ (d + e) = n div 2 ^ d div 2 ^ e"
  by (metis div_mult2_eq power_add)

lemma pow2_div: "e \<le> d \<Longrightarrow> (2::nat) ^ d div 2 ^ e = 2 ^ (d - e)"
  by (simp add: power_diff)

subsection \<open>Fixed-width arithmetic on numbers\<close>

text \<open>
  \<open>uint32\<close> and \<open>uint64\<close> quantities that are only added, multiplied and divided are natural numbers below
  \<open>2 ^ 32\<close> or \<open>2 ^ 64\<close>; the operations wrap around. \<open>int64\<close> and \<open>long\<close> quantities are integers:
  a conversion from \<open>uint64\<close> wraps, an addition out of range is undefined behaviour.
\<close>

definition u32_sub :: "nat \<Rightarrow> nat \<Rightarrow> nat" where
  "u32_sub a b = (if b \<le> a then a - b else a + 2 ^ 32 - b)"

definition u32_add :: "nat \<Rightarrow> nat \<Rightarrow> nat" where
  "u32_add a b = (a + b) mod 2 ^ 32"

definition u64_add :: "nat \<Rightarrow> nat \<Rightarrow> nat" where
  "u64_add a b = (a + b) mod 2 ^ 64"

definition u64_mul :: "nat \<Rightarrow> nat \<Rightarrow> nat" where
  "u64_mul a b = (a * b) mod 2 ^ 64"

definition u64_sub :: "nat \<Rightarrow> nat \<Rightarrow> nat" where
  "u64_sub a b = (if b \<le> a then a - b else a + 2 ^ 64 - b)"

definition to_s64 :: "nat \<Rightarrow> int" where
  "to_s64 a = (if a < 2 ^ 63 then int a else int a - 2 ^ 64)"

definition in_s64 :: "int \<Rightarrow> bool" where
  "in_s64 a \<longleftrightarrow> - (2 ^ 63) \<le> a \<and> a < 2 ^ 63"

definition s64_add :: "int \<Rightarrow> int \<Rightarrow> int option" where
  "s64_add a b = (if in_s64 (a + b) then Some (a + b) else None)"

definition to_u64 :: "int \<Rightarrow> nat" where
  "to_u64 a = nat (a mod 2 ^ 64)"

text \<open>A conversion to \<open>int\<close>, and the rounding to page boundaries in \<open>uint64\<close>.\<close>

definition to_s32 :: "int \<Rightarrow> int" where
  "to_s32 a = (let b = a mod 2 ^ 32 in if b < 2 ^ 31 then b else b - 2 ^ 32)"

definition pg_down :: "nat \<Rightarrow> nat" where
  "pg_down a = a div PGSIZE * PGSIZE"

definition pg_up :: "nat \<Rightarrow> nat" where
  "pg_up a = u64_add a (PGSIZE - 1) div PGSIZE * PGSIZE"

named_theorems fixed_width

lemma u64_add_small [fixed_width]: "a + b < 2 ^ 64 \<Longrightarrow> u64_add a b = a + b"
  by (simp add: u64_add_def)

lemma u64_mul_small [fixed_width]: "a * b < 2 ^ 64 \<Longrightarrow> u64_mul a b = a * b"
  by (simp add: u64_mul_def)

lemma u64_sub_small [fixed_width]: "b \<le> a \<Longrightarrow> u64_sub a b = a - b"
  by (simp add: u64_sub_def)

lemma to_s64_small [fixed_width]: "a < 2 ^ 63 \<Longrightarrow> to_s64 a = int a"
  by (simp add: to_s64_def)

lemma s64_add_small [fixed_width]: "in_s64 (a + b) \<Longrightarrow> s64_add a b = Some (a + b)"
  by (simp add: s64_add_def)

lemma to_u64_small [fixed_width]: "0 \<le> a \<Longrightarrow> a < 2 ^ 64 \<Longrightarrow> to_u64 a = nat a"
  by (simp add: to_u64_def)

text \<open>Division and remainder of C++, which round towards zero.\<close>

definition cdiv :: "int \<Rightarrow> int \<Rightarrow> int" where
  "cdiv a b = sgn a * sgn b * (\<bar>a\<bar> div \<bar>b\<bar>)"

definition cmod :: "int \<Rightarrow> int \<Rightarrow> int" where
  "cmod a b = a - cdiv a b * b"

lemma cdiv_cmod: "cdiv a b * b + cmod a b = a"
  by (simp add: cmod_def)

lemma cmod_nonneg: "0 \<le> a \<Longrightarrow> 0 < b \<Longrightarrow> cdiv a b = a div b \<and> cmod a b = a mod b"
  by (cases "a = 0") (simp_all add: cdiv_def cmod_def minus_div_mult_eq_mod)

lemma cmod_neg:
  assumes "a < 0" "0 < b"
  shows "cdiv a b = - ((- a) div b) \<and> cmod a b = - ((- a) mod b)"
proof -
  have "cdiv a b = - ((- a) div b)" using assms by (simp add: cdiv_def)
  then show ?thesis
    using minus_div_mult_eq_mod [of "- a" b] by (simp add: cmod_def)
qed

text \<open>Scaling by a quotient in two steps is exact.\<close>

lemma scale_split: "0 < f \<Longrightarrow> (c div f) * u + (c mod f) * u div f = c * u div (f::nat)"
proof -
  assume f: "0 < f"
  have "c * u = (c mod f) * u + ((c div f) * u) * f"
    by (metis add.commute distrib_right div_mult_mod_eq mult.assoc mult.commute)
  then have "c * u div f = ((c mod f) * u + ((c div f) * u) * f) div f" by simp
  also have "\<dots> = (c div f) * u + (c mod f) * u div f" using f by simp
  finally show ?thesis by simp
qed

end
