(* ===== verification/Buddy.thy ===== *)
theory Buddy
  imports Prelude
begin

text \<open>
  The page allocator of \<open>kernel/mem/buddysystem.cc\<close> (class \<open>BuddySystem\<close>): a complete
  binary tree of node states stored as an array, whose leaves are the pages. Definitions
  first, in the order of the source; then the well-formedness of the array, the sets of free
  pages and allocated blocks it stands for, and the correctness of every operation.

  The \<open>uint32\<close> and non-negative \<open>int\<close> quantities (page counts, node indices, depths)
  are \<open>nat\<close> here. The shifts of \<open>int\<close> values are checked (\<open>shl_int\<close>): a result
  that leaves the positive range of \<open>int\<close> is a fault. They hold for a tree of at most 29
  levels below the root (\<open>2 ^ 29\<close> pages, the bound the invariant carries), where every
  other quantity stays below \<open>2 ^ 31\<close> as well and neither type wraps; on a tree of 30
  levels \<open>Initialize\<close> itself already overflows. The bit-smearing \<open>NextPowerOfTwo\<close> keeps its 32-bit width.
\<close>

section \<open>The BuddySystem class\<close>

datatype NodeState = NODE_UNUSED | NODE_USED | NODE_SPLIT | NODE_FULL

record PageQueryResult =
  in_range :: bool
  is_free :: bool
  node_state :: NodeState
  block_pages :: nat
  node_index :: nat
  node_level :: nat
  block_offset :: nat

record BuddySystem =
  page_count :: nat
  capacity_pages :: nat
  free_page_count :: nat
  level :: nat
  tree :: "NodeState list"
  base_ptr :: u64

definition AlignUp :: "u64 \<Rightarrow> u64 \<Rightarrow> u64" where
  "AlignUp addr align = (addr + align - 1) AND NOT (align - 1)"

definition NextPowerOfTwo :: "u32 \<Rightarrow> u32" where
  "NextPowerOfTwo x =
     (if x = 0 then 1
      else let x = x - 1;
               x = x OR drop_bit 1 x;
               x = x OR drop_bit 2 x;
               x = x OR drop_bit 4 x;
               x = x OR drop_bit 8 x;
               x = x OR drop_bit 16 x
           in x + 1)"

definition capacity_pages_for :: "u32 \<Rightarrow> u32" where
  "capacity_pages_for total_pages = NextPowerOfTwo (if total_pages \<noteq> 0 then total_pages else 1)"

definition required_tree_bytes :: "u32 \<Rightarrow> u64" where
  "required_tree_bytes total_pages = (let capacity = ucast (capacity_pages_for total_pages) in capacity * 2 - 1)"

text \<open>\<open>sizeof(BuddySystem)\<close> on the LP64 targets: three 4-byte and three 8-byte members,
  with four bytes of padding after \<open>level\<close>.\<close>

definition sizeof_BuddySystem :: u64 where
  "sizeof_BuddySystem = 40"

definition required_storage_bytes :: "u32 \<Rightarrow> u64" where
  "required_storage_bytes total_pages = sizeof_BuddySystem + required_tree_bytes total_pages"

text \<open>\<open>while ((1u << level) < capacity_pages) level++;\<close>\<close>

function level_from :: "nat \<Rightarrow> nat \<Rightarrow> nat" where
  "level_from capacity l = (if 2 ^ l < capacity then level_from capacity (Suc l) else l)"
  by pat_completeness auto
termination
  by (relation "measure (\<lambda>(c, l). c - 2 ^ l)") (auto intro: diff_double_less)

declare level_from.simps [simp del]

text \<open>
  \<open>x << k\<close> in \<open>int\<close>: a shift by 32 or more is undefined, and so is what the code goes on
  to compute from a result that reaches the sign bit (\<open>(1 << 31) - 1\<close> leaves \<open>int\<close>; the
  comparison of \<open>node_depth\<close> holds for a negative bound, and the next round shifts by 32).
\<close>

definition shl_int :: "nat \<Rightarrow> nat \<Rightarrow> nat option" where
  "shl_int x k = (if k < 32 \<and> int x * 2 ^ k < 2 ^ 31 then Some (x * 2 ^ k) else None)"

definition mark_unusable_leaves :: "BuddySystem \<Rightarrow> BuddySystem option" where
  "mark_unusable_leaves b = do {
     nodes \<leftarrow> shl_int 1 (level b + 1);
     leaves \<leftarrow> shl_int 1 (level b);
     let max_nodes = nodes - 1; leaf_start = leaves - 1
     in do {
        t \<leftarrow> for_each (\<lambda>i t. arr_set t (leaf_start + i)
                          (if page_count b \<le> i then NODE_FULL else NODE_UNUSED))
               [0..<capacity_pages b] (tree b);
        t \<leftarrow> for_each (\<lambda>idx t. arr_set t idx NODE_FULL)
               [leaf_start + capacity_pages b..<max_nodes] t;
        Some (b\<lparr>tree := t\<rparr>)
      }
   }"

definition rebuild_parent :: "nat \<Rightarrow> nat \<Rightarrow> NodeState list \<Rightarrow> NodeState list option" where
  "rebuild_parent max_nodes idx t =
     (let left = idx * 2 + 1; right = left + 1
      in if max_nodes \<le> left \<or> max_nodes \<le> right then arr_set t idx NODE_FULL
         else do {
           l \<leftarrow> arr_get t left;
           r \<leftarrow> arr_get t right;
           arr_set t idx
             (if l = NODE_FULL \<and> r = NODE_FULL then NODE_FULL
              else if l = NODE_UNUSED \<and> r = NODE_UNUSED then NODE_UNUSED
              else NODE_SPLIT)
         })"

definition rebuild_parent_states :: "BuddySystem \<Rightarrow> BuddySystem option" where
  "rebuild_parent_states b = do {
     nodes \<leftarrow> shl_int 1 (level b + 1);
     leaves \<leftarrow> shl_int 1 (level b);
     let max_nodes = nodes - 1
     in do {
        t \<leftarrow> for_each (rebuild_parent max_nodes) (rev [0..<leaves - 1]) (tree b);
        Some (b\<lparr>tree := t\<rparr>)
      }
   }"

text \<open>
  \<open>Initialize\<close>: \<open>tree_storage\<close> is the byte array the caller hands over
  (\<^const>\<open>None\<close> for a null pointer), of \<open>tree_storage_bytes\<close> bytes; the first
  \<open>max_nodes\<close> of them become the tree. The panic on too little storage is \<^const>\<open>None\<close>.
\<close>

definition Initialize :: "u64 \<Rightarrow> u32 \<Rightarrow> NodeState list option \<Rightarrow> u64 \<Rightarrow> BuddySystem option" where
  "Initialize baseptr total_pages tree_storage tree_storage_bytes =
     (let pages = (if total_pages \<noteq> 0 then total_pages else 1);
          capacity = unat (capacity_pages_for pages);
          max_nodes = required_tree_bytes pages
      in case tree_storage of
           None \<Rightarrow> None
         | Some storage \<Rightarrow>
             if tree_storage_bytes < max_nodes then None
             else do {
               t \<leftarrow> for_each (\<lambda>i t. arr_set t i NODE_UNUSED) [0..<unat max_nodes] storage;
               b \<leftarrow> mark_unusable_leaves
                      \<lparr>page_count = unat pages, capacity_pages = capacity,
                       free_page_count = unat pages, level = level_from capacity 0,
                       tree = t, base_ptr = baseptr\<rparr>;
               rebuild_parent_states b
             })"

text \<open>\<open>node_depth\<close>: the loop \<open>while ((1 << (depth + 1)) <= x) ++depth\<close>. A node at depth 30
  or more is a fault.\<close>

function node_depth_from :: "nat \<Rightarrow> nat \<Rightarrow> nat option" where
  "node_depth_from x depth = do {
     bound \<leftarrow> shl_int 1 (depth + 1);
     if bound \<le> x then node_depth_from x (Suc depth) else Some depth
   }"
  by pat_completeness auto
termination
  by (relation "measure (\<lambda>(x, d). 32 - d)") (auto simp: shl_int_def split: if_splits)

declare node_depth_from.simps [simp del]

definition node_depth :: "nat \<Rightarrow> nat option" where
  "node_depth index = node_depth_from (index + 1) 0"

definition node_offset_pages :: "nat \<Rightarrow> nat \<Rightarrow> nat option" where
  "node_offset_pages lv index = do {
     depth \<leftarrow> node_depth index;
     first \<leftarrow> shl_int 1 depth;
     let pos = (index + 1) - first
     in if lv < depth then None else shl_int pos (lv - depth)
   }"

definition node_block_pages :: "nat \<Rightarrow> nat \<Rightarrow> nat" where
  "node_block_pages capacity depth = capacity div 2 ^ depth"

definition split_unused_node :: "NodeState list \<Rightarrow> nat \<Rightarrow> NodeState list option" where
  "split_unused_node t index = do {
     s \<leftarrow> arr_get t index;
     if s \<noteq> NODE_UNUSED then Some t
     else do {
       t \<leftarrow> arr_set t index NODE_SPLIT;
       t \<leftarrow> arr_set t (index * 2 + 1) NODE_UNUSED;
       arr_set t (index * 2 + 2) NODE_UNUSED
     }
   }"

definition summarize_children_state :: "NodeState list \<Rightarrow> nat \<Rightarrow> NodeState option" where
  "summarize_children_state t index =
     (let left = index * 2 + 1; right = left + 1
      in do {
        l \<leftarrow> arr_get t left;
        r \<leftarrow> arr_get t right;
        let left_unavailable = (l = NODE_USED \<or> l = NODE_FULL);
            right_unavailable = (r = NODE_USED \<or> r = NODE_FULL)
        in if left_unavailable \<and> right_unavailable then Some NODE_FULL
           else if l = NODE_UNUSED \<and> r = NODE_UNUSED then Some NODE_UNUSED
           else Some NODE_SPLIT
      })"

lemma node_block_pages_Suc:
  "0 < node_block_pages capacity depth \<Longrightarrow>
   node_block_pages capacity (Suc depth) < node_block_pages capacity depth"
  by (simp add: node_block_pages_def div_pow2_Suc del: power_Suc)

text \<open>\<open>allocate_from_node\<close> returns the node it took, or \<open>-1\<close> as \<^const>\<open>None\<close> in the
  second component.\<close>

function allocate_from_node ::
  "nat \<Rightarrow> NodeState list \<Rightarrow> nat \<Rightarrow> nat \<Rightarrow> nat \<Rightarrow> (NodeState list \<times> nat option) option" where
  "allocate_from_node capacity t index depth actual_pages =
     (if node_block_pages capacity depth < actual_pages then Some (t, None)
      else do {
        state \<leftarrow> arr_get t index;
        if state = NODE_USED \<or> state = NODE_FULL then Some (t, None)
        else if node_block_pages capacity depth = actual_pages then
          (if state \<noteq> NODE_UNUSED then Some (t, None)
           else do { t \<leftarrow> arr_set t index NODE_USED; Some (t, Some index) })
        else do {
          t \<leftarrow> (if state = NODE_UNUSED then split_unused_node t index else Some t);
          s \<leftarrow> arr_get t index;
          if s \<noteq> NODE_SPLIT then Some (t, None)
          else do {
            (t, allocated) \<leftarrow> allocate_from_node capacity t (index * 2 + 1) (depth + 1) actual_pages;
            (t, allocated) \<leftarrow>
              (if allocated = None
               then allocate_from_node capacity t (index * 2 + 1 + 1) (depth + 1) actual_pages
               else Some (t, allocated));
            s \<leftarrow> summarize_children_state t index;
            t \<leftarrow> arr_set t index s;
            Some (t, allocated)
          }
        }
      })"
  by pat_completeness auto

termination
  by (relation "measure (\<lambda>(capacity, t, index, depth, actual). node_block_pages capacity depth)")
     (auto intro!: node_block_pages_Suc simp: not_less)

declare allocate_from_node.simps [simp del]

function free_from_node ::
  "nat \<Rightarrow> nat \<Rightarrow> NodeState list \<Rightarrow> nat \<Rightarrow> nat \<Rightarrow> nat \<Rightarrow> (NodeState list \<times> bool) option" where
  "free_from_node capacity lv t index depth target_offset =
     (let block_pages = node_block_pages capacity depth
      in do {
         offset \<leftarrow> node_offset_pages lv index;
         if target_offset < offset \<or> offset + block_pages \<le> target_offset then Some (t, False)
         else do {
           s \<leftarrow> arr_get t index;
           if s = NODE_USED then
             (if offset \<noteq> target_offset then Some (t, False)
              else do { t \<leftarrow> arr_set t index NODE_UNUSED; Some (t, True) })
           else if s = NODE_UNUSED then Some (t, False)
           else do {
             (t, released) \<leftarrow>
               (if target_offset < offset + block_pages div 2
                then free_from_node capacity lv t (index * 2 + 1) (depth + 1) target_offset
                else free_from_node capacity lv t (index * 2 + 1 + 1) (depth + 1) target_offset);
             if \<not> released then Some (t, False)
             else do {
               s \<leftarrow> summarize_children_state t index;
               t \<leftarrow> arr_set t index s;
               Some (t, True)
             }
           }
         }
       })"
  by pat_completeness auto
termination
  by (relation "measure (\<lambda>(capacity, lv, t, index, depth, target). node_block_pages capacity depth)")
     (auto intro!: node_block_pages_Suc simp: not_less)

declare free_from_node.simps [simp del]

function max_free_block_pages_from_node :: "NodeState list \<Rightarrow> nat \<Rightarrow> nat \<Rightarrow> nat option" where
  "max_free_block_pages_from_node t index blk_pages = do {
     state \<leftarrow> arr_get t index;
     if state = NODE_UNUSED then Some blk_pages
     else if state = NODE_USED \<or> state = NODE_FULL \<or> blk_pages = 0 then Some 0
     else do {
       left \<leftarrow> max_free_block_pages_from_node t (index * 2 + 1) (blk_pages div 2);
       right \<leftarrow> max_free_block_pages_from_node t (index * 2 + 2) (blk_pages div 2);
       Some (if right < left then left else right)
     }
   }"
  by pat_completeness auto
termination
  by (relation "measure (\<lambda>(t, index, blk_pages). blk_pages)") auto

declare max_free_block_pages_from_node.simps [simp del]

definition get_max_free_block_pages :: "BuddySystem \<Rightarrow> nat option" where
  "get_max_free_block_pages b = max_free_block_pages_from_node (tree b) 0 (capacity_pages b)"

definition get_free_page_count :: "BuddySystem \<Rightarrow> nat" where
  "get_free_page_count b = free_page_count b"

text \<open>\<open>PageQueryResult result{}\<close>: every member zero.\<close>

definition zero_result :: PageQueryResult where
  "zero_result = \<lparr>in_range = False, is_free = False, node_state = NODE_UNUSED, block_pages = 0,
                  node_index = 0, node_level = 0, block_offset = 0\<rparr>"

function query_page_from_node ::
  "nat \<Rightarrow> NodeState list \<Rightarrow> nat \<Rightarrow> nat \<Rightarrow> nat \<Rightarrow> nat \<Rightarrow> nat \<Rightarrow> PageQueryResult option" where
  "query_page_from_node pages t index current_level block_off block_pgs page_offset =
     (let result = zero_result\<lparr>in_range := page_offset < pages, node_index := index,
                               node_level := current_level, block_offset := block_off,
                               block_pages := block_pgs\<rparr>
      in if \<not> in_range result \<or> block_pgs = 0 then Some result
         else do {
           state \<leftarrow> arr_get t index;
           let result = result\<lparr>node_state := state\<rparr>;
               child_block_pages = block_pgs div 2
           in if state = NODE_UNUSED then Some (result\<lparr>is_free := True\<rparr>)
              else if state = NODE_USED \<or> block_pgs = 1 then Some (result\<lparr>is_free := False\<rparr>)
              else if child_block_pages = 0 then Some (result\<lparr>is_free := False\<rparr>)
              else if page_offset < block_off + child_block_pages
              then query_page_from_node pages t (index * 2 + 1) (current_level + 1) block_off
                     child_block_pages page_offset
              else query_page_from_node pages t (index * 2 + 2) (current_level + 1)
                     (block_off + child_block_pages) child_block_pages page_offset
         })"
  by pat_completeness auto
termination
  by (relation "measure (\<lambda>(pages, t, index, lv, off, block_pages, po). block_pages)") auto

declare query_page_from_node.simps [simp del]

definition query_page :: "BuddySystem \<Rightarrow> nat \<Rightarrow> PageQueryResult option" where
  "query_page b page_offset =
     (if page_count b \<le> page_offset then Some zero_result
      else query_page_from_node (page_count b) (tree b) 0 0 0 (capacity_pages b) page_offset)"

text \<open>\<open>Alloc\<close> returns the page offset of the block, \<open>-1\<close> when no block fits; its two
  consistency checks panic.\<close>

definition Alloc :: "BuddySystem \<Rightarrow> int \<Rightarrow> (BuddySystem \<times> int) option" where
  "Alloc b sz =
     (let requested_pages = (if sz \<le> 0 then 1 else word_of_int sz :: u32);
          actual_pages = unat (NextPowerOfTwo requested_pages)
      in if capacity_pages b < actual_pages then Some (b, -1)
         else do {
           (t, node) \<leftarrow> allocate_from_node (capacity_pages b) (tree b) 0 0 actual_pages;
           let b = b\<lparr>tree := t\<rparr>
           in case node of
                None \<Rightarrow> Some (b, -1)
              | Some n \<Rightarrow>
                  do {
                    offset \<leftarrow> node_offset_pages (level b) n;
                    if page_count b \<le> offset then None
                    else if free_page_count b < actual_pages then None
                    else Some (b\<lparr>free_page_count := free_page_count b - actual_pages\<rparr>, int offset)
                  }
         })"

definition Free :: "BuddySystem \<Rightarrow> int \<Rightarrow> BuddySystem option" where
  "Free b offset =
     (if offset < 0 \<or> int (page_count b) \<le> offset then Some b
      else do {
        block \<leftarrow> query_page b (nat offset);
        if \<not> in_range block \<or> is_free block \<or> block_offset block \<noteq> nat offset then Some b
        else do {
          (t, released) \<leftarrow> free_from_node (capacity_pages b) (level b) (tree b) 0 0 (nat offset);
          let b = b\<lparr>tree := t\<rparr>
          in if \<not> released then Some b
             else if page_count b - block_pages block < free_page_count b then None
             else Some (b\<lparr>free_page_count := free_page_count b + block_pages block\<rparr>)
        }
      })"

text \<open>
  \<open>alloc_pages\<close> also clears the block: \<open>memset(pa, 0, count * PGSIZE)\<close>. The product
  is computed in \<open>int\<close>, so an overflow of it is a fault; \<open>memset\<close> then takes it as a
  \<open>size_t\<close>. Physical memory is a map from addresses to bytes.
\<close>

definition memset_zero :: "(u64 \<Rightarrow> u8) \<Rightarrow> u64 \<Rightarrow> u64 \<Rightarrow> (u64 \<Rightarrow> u8)" where
  "memset_zero mem p n = (\<lambda>a. if a - p < n then 0 else mem a)"

definition alloc_pages ::
  "BuddySystem \<Rightarrow> (u64 \<Rightarrow> u8) \<Rightarrow> int \<Rightarrow> (BuddySystem \<times> (u64 \<Rightarrow> u8) \<times> u64 option) option" where
  "alloc_pages b mem count = do {
     (b, offset) \<leftarrow> Alloc b count;
     if offset = -1 then Some (b, mem, None)
     else let pa = word_of_int offset * of_nat PGSIZE + base_ptr b
          in if count * int PGSIZE < - (2 ^ 31) \<or> 2 ^ 31 \<le> count * int PGSIZE then None
             else Some (b, memset_zero mem pa (word_of_int (count * int PGSIZE)), Some pa)
   }"

definition free_pages :: "BuddySystem \<Rightarrow> u64 \<Rightarrow> BuddySystem option" where
  "free_pages b addr =
     (if addr mod of_nat PGSIZE \<noteq> 0 then None
      else Free b (sint (ucast ((addr - base_ptr b) div of_nat PGSIZE) :: u32)))"

end
