(* ===== verification/Buddy_Correct.thy ===== *)
theory Buddy_Correct
  imports Buddy
begin

text \<open>
  Correctness of the page allocator: what the node array stands for (\<open>free_pgs\<close>, the free
  pages, and \<open>blocks\<close>, the allocated blocks, below a node), when it is well formed
  (\<open>node_wf\<close>), and what each operation of \<open>BuddySystem\<close> does to them.
\<close>

section \<open>Indices of the implicit tree\<close>

text \<open>\<open>in_sub i k j\<close>: node \<open>j\<close> lies in the subtree of height \<open>k\<close> below node \<open>i\<close>.\<close>

definition in_sub :: "nat \<Rightarrow> nat \<Rightarrow> nat \<Rightarrow> bool" where
  "in_sub i k j \<longleftrightarrow> (\<exists>d\<le>k. (j + 1) div 2 ^ d = i + 1)"

definition at_depth :: "nat \<Rightarrow> nat \<Rightarrow> bool" where
  "at_depth i d \<longleftrightarrow> 2 ^ d \<le> i + 1 \<and> i + 1 < 2 ^ (d + 1)"

lemma in_sub_self [simp, intro]: "in_sub i k i"
  by (auto simp: in_sub_def intro!: exI [of _ 0])

definition lc :: "nat \<Rightarrow> nat" where
  "lc i = i * 2 + 1"

definition rc :: "nat \<Rightarrow> nat" where
  "rc i = i * 2 + 2"

lemmas child_defs = lc_def rc_def

lemma child_fold: "i * 2 + 1 = lc i" "i * 2 + 2 = rc i" "Suc (i * 2) = lc i" "Suc (Suc (i * 2)) = rc i"
  "Suc (lc i) = rc i"
  by (simp_all add: lc_def rc_def)

lemma child_neq [simp]: "lc i \<noteq> i" "rc i \<noteq> i" "i \<noteq> lc i" "i \<noteq> rc i" "lc i \<noteq> rc i" "rc i \<noteq> lc i"
  by (simp_all add: lc_def rc_def)

lemma lc_less_rc: "lc i < rc i" "i < rc i" "i < lc i"
  by (simp_all add: lc_def rc_def)

lemma in_sub_left: "in_sub (lc i) k j \<Longrightarrow> in_sub i (Suc k) j"
  unfolding in_sub_def child_defs
proof (elim exE conjE)
  fix d assume "d \<le> k" "(j + 1) div 2 ^ d = i * 2 + 1 + 1"
  then have "Suc d \<le> Suc k \<and> (j + 1) div 2 ^ Suc d = i + 1"
    by (simp add: div_pow2_Suc del: power_Suc)
  then show "\<exists>d\<le>Suc k. (j + 1) div 2 ^ d = i + 1" by blast
qed

lemma in_sub_right: "in_sub (rc i) k j \<Longrightarrow> in_sub i (Suc k) j"
  unfolding in_sub_def child_defs
proof (elim exE conjE)
  fix d assume "d \<le> k" "(j + 1) div 2 ^ d = i * 2 + 2 + 1"
  then have "Suc d \<le> Suc k \<and> (j + 1) div 2 ^ Suc d = i + 1"
    by (simp add: div_pow2_Suc del: power_Suc)
  then show "\<exists>d\<le>Suc k. (j + 1) div 2 ^ d = i + 1" by blast
qed

lemma div_pow2_lt: "x div 2 ^ d = y \<Longrightarrow> x div 2 ^ e = z \<Longrightarrow> d < e \<Longrightarrow> z \<le> y div (2::nat)"
proof -
  assume a: "x div 2 ^ d = y" "x div 2 ^ e = z" "d < e"
  then obtain f where "e = d + Suc f"
    using less_imp_Suc_add by force
  then have "z = y div 2 ^ Suc f"
    using a div_pow2_add [of x d "Suc f"] by simp
  then show "z \<le> y div 2"
    by (simp add: div_mult2_eq)
qed

lemma in_sub_disjoint: "in_sub (lc i) k j \<Longrightarrow> in_sub (rc i) k' j \<Longrightarrow> False"
  unfolding in_sub_def child_defs
proof (elim exE conjE)
  fix d e
  assume d: "(j + 1) div 2 ^ d = i * 2 + 1 + 1" and e: "(j + 1) div 2 ^ e = i * 2 + 2 + 1"
  consider "d < e" | "e < d" | "d = e" by linarith
  then show False
  proof cases
    case 1
    from div_pow2_lt [OF d e 1] show False by linarith
  next
    case 2
    from div_pow2_lt [OF e d 2] show False by linarith
  next
    case 3
    with d e show False by simp
  qed
qed

lemma not_in_sub_children:
  "\<not> in_sub (lc i) k i" "\<not> in_sub (rc i) k i"
proof -
  have *: "(i + 1) div 2 ^ d \<noteq> i * 2 + 1 + 1" "(i + 1) div 2 ^ d \<noteq> i * 2 + 2 + 1" for d :: nat
    using div_le_dividend [of "i + 1" "2 ^ d"] by linarith+
  show "\<not> in_sub (lc i) k i" "\<not> in_sub (rc i) k i"
    unfolding in_sub_def child_defs using * by blast+
qed

lemma in_sub_bound:
  assumes "in_sub i k j" and "at_depth i d"
  shows "j + 1 < 2 ^ (d + k + 1)"
proof -
  from assms(1) obtain e where e: "e \<le> k" "(j + 1) div 2 ^ e = i + 1"
    by (auto simp: in_sub_def)
  have "(j + 1) div 2 ^ e < 2 ^ (d + 1)"
    using e(2) assms(2) by (simp add: at_depth_def)
  then have "j + 1 < 2 ^ (d + 1) * 2 ^ e"
    by (simp add: div_less_iff_less_mult)
  also have "\<dots> \<le> 2 ^ (d + 1) * 2 ^ k"
    using e(1) by simp
  finally show ?thesis by (simp add: power_add ac_simps)
qed

lemma at_depth_children:
  "at_depth i d \<Longrightarrow> at_depth (lc i) (Suc d)" "at_depth i d \<Longrightarrow> at_depth (rc i) (Suc d)"
  by (auto simp: at_depth_def child_defs)

lemma at_depth_root: "at_depth 0 0"
  by (simp add: at_depth_def)

lemma shl_int_one [simp]: "shl_int 1 k = (if k < 31 then Some (2 ^ k) else None)"
proof -
  have "(2::int) ^ k < 2 ^ 31 \<longleftrightarrow> k < 31" by (rule power_strict_increasing_iff) simp
  then show ?thesis unfolding shl_int_def by auto
qed

lemma shl_int_Suc_0 [simp]: "shl_int (Suc 0) k = (if k < 31 then Some (2 ^ k) else None)"
  using shl_int_one by simp

lemma node_depth_from_eq:
  assumes "2 ^ d \<le> x" "x < 2 ^ (d + 1)" "e \<le> d" "d \<le> 29"
  shows "node_depth_from x e = Some d"
  using assms
proof (induction x e rule: node_depth_from.induct)
  case (1 x e)
  have b: "shl_int 1 (e + 1) = Some (2 ^ (e + 1))" using "1.prems"(3,4) by simp
  show ?case
  proof (cases "2 ^ (e + 1) \<le> x")
    case True
    then have "e < d"
      using "1.prems" by (metis le_neq_implies_less not_less)
    with True "1.IH" [OF b True] "1.prems" b show ?thesis
      by (subst node_depth_from.simps) simp
  next
    case False
    have "e = d"
    proof (rule ccontr)
      assume "e \<noteq> d"
      with "1.prems"(3) have "e + 1 \<le> d" by simp
      then have "(2::nat) ^ (e + 1) \<le> 2 ^ d" by (rule power_increasing) simp
      with False "1.prems"(1) show False by simp
    qed
    with False b show ?thesis by (subst node_depth_from.simps) simp
  qed
qed

lemma node_depth_eq: "at_depth i d \<Longrightarrow> d \<le> 29 \<Longrightarrow> node_depth i = Some d"
  by (auto simp: node_depth_def at_depth_def intro: node_depth_from_eq)

text \<open>The first page below a node, and that \<open>node_offset_pages\<close> computes it for every node of a
  tree of at most 29 levels.\<close>

definition depth_of :: "nat \<Rightarrow> nat" where
  "depth_of i = (LEAST d. i + 1 < 2 ^ (d + 1))"

definition node_off :: "nat \<Rightarrow> nat \<Rightarrow> nat" where
  "node_off lv i = (i + 1 - 2 ^ depth_of i) * 2 ^ (lv - depth_of i)"

lemma pow2_less_Suc: "(2::nat) ^ d < 2 ^ (e + 1) \<Longrightarrow> d \<le> e"
  using power_less_imp_less_exp [of "2::nat" d "e + 1"] by linarith

lemma depth_of_eq: "at_depth i d \<Longrightarrow> depth_of i = d"
  unfolding depth_of_def at_depth_def
proof (rule Least_equality)
  fix e assume d: "2 ^ d \<le> i + 1 \<and> i + 1 < 2 ^ (d + 1)" and e: "i + 1 < 2 ^ (e + 1)"
  then have "(2::nat) ^ d < 2 ^ (e + 1)" by linarith
  then show "d \<le> e" by (rule pow2_less_Suc)
qed simp

lemma at_depth_of: "at_depth i (depth_of i)"
proof -
  have "i + 1 < 2 ^ (i + 1)" by (rule less_exp)
  then have "i + 1 < 2 ^ (i + 1 + 1)" by simp
  then have l: "i + 1 < 2 ^ (depth_of i + 1)" unfolding depth_of_def by (rule LeastI)
  have "2 ^ depth_of i \<le> i + 1"
  proof (cases "depth_of i")
    case (Suc e)
    then have "\<not> i + 1 < 2 ^ (e + 1)" unfolding depth_of_def by (metis lessI not_less_Least)
    with Suc show ?thesis by simp
  qed simp
  with l show ?thesis by (simp add: at_depth_def)
qed

lemma at_depth_less: "at_depth i d \<Longrightarrow> d \<le> lv \<Longrightarrow> i + 1 < 2 ^ (lv + 1)"
  unfolding at_depth_def by (rule less_le_trans [where y = "2 ^ (d + 1)"]) (auto intro!: power_increasing)

lemma node_offset_pages_eq:
  assumes "lv \<le> 29" "i + 1 < 2 ^ (lv + 1)"
  shows "node_offset_pages lv i = Some (node_off lv i)"
proof -
  let ?d = "depth_of i"
  have d: "2 ^ ?d \<le> i + 1" "i + 1 < 2 ^ (?d + 1)" using at_depth_of [of i] by (auto simp: at_depth_def)
  then have "(2::nat) ^ ?d < 2 ^ (lv + 1)" using assms(2) by linarith
  then have le: "?d \<le> lv" by (rule pow2_less_Suc)
  have "node_off lv i < 2 ^ ?d * 2 ^ (lv - ?d)" unfolding node_off_def using d by simp
  also have "\<dots> = 2 ^ lv" using le by (simp add: power_add [symmetric])
  also have "(2::nat) ^ lv \<le> 2 ^ 29" using assms(1) by (intro power_increasing) auto
  finally have "node_off lv i < 2 ^ 29" .
  then have "int (node_off lv i) < 2 ^ 29" by (metis of_nat_less_iff of_nat_numeral of_nat_power)
  then have "shl_int (i + 1 - 2 ^ ?d) (lv - ?d) = Some (node_off lv i)"
    using assms(1) by (simp add: shl_int_def node_off_def)
  then show ?thesis
    using node_depth_eq [OF at_depth_of, of i] le assms(1) by (simp add: node_offset_pages_def)
qed

lemma node_offset_root [simp]: "node_off lv 0 = 0"
  by (simp add: node_off_def depth_of_eq [OF at_depth_root])

lemma node_offset_left:
  assumes "at_depth i d" "d < lv"
  shows "node_off lv (lc i) = node_off lv i"
proof -
  obtain e where e: "lv = d + Suc e" using less_imp_Suc_add [OF assms(2)] by auto
  have "i * 2 + 1 + 1 - 2 ^ Suc d = 2 * (i + 1 - 2 ^ d)"
    using assms(1) by (simp add: at_depth_def)
  then show ?thesis
    using depth_of_eq [OF assms(1)] depth_of_eq [OF at_depth_children(1) [OF assms(1)]] e
    by (simp add: node_off_def child_defs del: power_Suc) simp
qed

lemma node_offset_right:
  assumes "at_depth i d" "d < lv"
  shows "node_off lv (rc i) = node_off lv i + 2 ^ (lv - Suc d)"
proof -
  obtain e where e: "lv = d + Suc e" using less_imp_Suc_add [OF assms(2)] by auto
  have "i * 2 + 2 + 1 - 2 ^ Suc d = 2 * (i + 1 - 2 ^ d) + 1"
    using assms(1) unfolding at_depth_def power_Suc by arith
  then show ?thesis
    using depth_of_eq [OF assms(1)] depth_of_eq [OF at_depth_children(2) [OF assms(1)]] e
    by (simp add: node_off_def child_defs del: power_Suc) simp
qed

section \<open>What the node array stands for\<close>

definition summary :: "NodeState \<Rightarrow> NodeState \<Rightarrow> NodeState" where
  "summary l r =
     (if l \<in> {NODE_USED, NODE_FULL} \<and> r \<in> {NODE_USED, NODE_FULL} then NODE_FULL
      else if l = NODE_UNUSED \<and> r = NODE_UNUSED then NODE_UNUSED
      else NODE_SPLIT)"

text \<open>
  Below a node that is free or allocated as a whole the array holds stale states; below any
  other node each state summarises its two children, and two free buddies are always merged.
\<close>

fun node_wf :: "NodeState list \<Rightarrow> nat \<Rightarrow> nat \<Rightarrow> bool" where
  "node_wf t i 0 \<longleftrightarrow> t ! i \<noteq> NODE_SPLIT"
| "node_wf t i (Suc k) \<longleftrightarrow>
     t ! i = NODE_UNUSED \<or> t ! i = NODE_USED \<or>
     (node_wf t (lc i) k \<and> node_wf t (rc i) k \<and> t ! i \<noteq> NODE_UNUSED \<and>
      t ! i = summary (t ! (lc i)) (t ! (rc i)))"

fun free_pgs :: "NodeState list \<Rightarrow> nat \<Rightarrow> nat \<Rightarrow> nat \<Rightarrow> nat set" where
  "free_pgs t i 0 off = (if t ! i = NODE_UNUSED then {off} else {})"
| "free_pgs t i (Suc k) off =
     (if t ! i = NODE_UNUSED then {off..<off + 2 ^ Suc k}
      else if t ! i = NODE_USED then {}
      else free_pgs t (lc i) k off \<union> free_pgs t (rc i) k (off + 2 ^ k))"

fun blocks :: "NodeState list \<Rightarrow> nat \<Rightarrow> nat \<Rightarrow> nat \<Rightarrow> (nat \<times> nat) set" where
  "blocks t i 0 off = (if t ! i = NODE_USED then {(off, 1)} else {})"
| "blocks t i (Suc k) off =
     (if t ! i = NODE_UNUSED then {}
      else if t ! i = NODE_USED then {(off, 2 ^ Suc k)}
      else blocks t (lc i) k off \<union> blocks t (rc i) k (off + 2 ^ k))"

fun max_free :: "NodeState list \<Rightarrow> nat \<Rightarrow> nat \<Rightarrow> nat" where
  "max_free t i 0 = (if t ! i = NODE_UNUSED then 1 else 0)"
| "max_free t i (Suc k) =
     (if t ! i = NODE_UNUSED then 2 ^ Suc k
      else if t ! i = NODE_USED \<or> t ! i = NODE_FULL then 0
      else max (max_free t (lc i) k) (max_free t (rc i) k))"

abbreviation same_on :: "nat \<Rightarrow> nat \<Rightarrow> NodeState list \<Rightarrow> NodeState list \<Rightarrow> bool" where
  "same_on i k t t' \<equiv> \<forall>j. in_sub i k j \<longrightarrow> t' ! j = t ! j"

lemma same_on_children:
  assumes "same_on i (Suc k) t t'"
  shows "same_on (lc i) k t t'" "same_on (rc i) k t t'" "t' ! i = t ! i"
    "t' ! (lc i) = t ! (lc i)" "t' ! (rc i) = t ! (rc i)"
proof -
  show "same_on (lc i) k t t'" using assms in_sub_left by blast
  show "same_on (rc i) k t t'" using assms in_sub_right by blast
  show "t' ! i = t ! i" using assms by blast
  show "t' ! (lc i) = t ! (lc i)" using assms in_sub_left [OF in_sub_self] by blast
  show "t' ! (rc i) = t ! (rc i)" using assms in_sub_right [OF in_sub_self] by blast
qed

text \<open>All four depend on the states inside the subtree only.\<close>

lemma subtree_frame:
  assumes "same_on i k t t'"
  shows "node_wf t' i k = node_wf t i k" "free_pgs t' i k off = free_pgs t i k off"
    "blocks t' i k off = blocks t i k off" "max_free t' i k = max_free t i k"
  using assms
proof (induction k arbitrary: i off)
  case 0
  { case 1 then have "t' ! i = t ! i" by auto then show ?case by simp }
  { case 2 then have "t' ! i = t ! i" by auto then show ?case by simp }
  { case 3 then have "t' ! i = t ! i" by auto then show ?case by simp }
  { case 4 then have "t' ! i = t ! i" by auto then show ?case by simp }
next
  case (Suc k)
  { case 1 note * = same_on_children [OF 1] show ?case
      using Suc(1)[OF *(1)] Suc(1)[OF *(2)] *(3-5) by simp }
  { case 2 note * = same_on_children [OF 2] show ?case
      using Suc(2)[OF *(1)] Suc(2)[OF *(2)] *(3-5) by simp }
  { case 3 note * = same_on_children [OF 3] show ?case
      using Suc(3)[OF *(1)] Suc(3)[OF *(2)] *(3-5) by simp }
  { case 4 note * = same_on_children [OF 4] show ?case
      using Suc(4)[OF *(1)] Suc(4)[OF *(2)] *(3-5) by simp }
qed

lemma free_pgs_unused: "t ! i = NODE_UNUSED \<Longrightarrow> free_pgs t i k off = {off..<off + 2 ^ k}"
  by (cases k) auto

lemma blocks_unused: "t ! i = NODE_UNUSED \<Longrightarrow> blocks t i k off = {}"
  by (cases k) auto

lemma node_wf_unused: "t ! i = NODE_UNUSED \<Longrightarrow> node_wf t i k"
  by (cases k) auto

lemma max_free_unused: "t ! i = NODE_UNUSED \<Longrightarrow> max_free t i k = 2 ^ k"
  by (cases k) auto

lemma used_node:
  "t ! i = NODE_USED \<Longrightarrow> free_pgs t i k off = {}"
  "t ! i = NODE_USED \<Longrightarrow> blocks t i k off = {(off, 2 ^ k)}"
  "t ! i = NODE_USED \<Longrightarrow> node_wf t i k"
  "t ! i = NODE_USED \<Longrightarrow> max_free t i k = 0"
  by (cases k; simp)+

lemma free_pgs_bounds: "free_pgs t i k off \<subseteq> {off..<off + 2 ^ k}"
proof (induction k arbitrary: i off)
  case 0
  then show ?case by simp
next
  case (Suc k)
  have "x \<in> {off..<off + 2 ^ Suc k}" if "x \<in> free_pgs t i (Suc k) off" for x
    using that Suc [of "lc i" off, THEN subsetD, of x]
      Suc [of "rc i" "off + 2 ^ k", THEN subsetD, of x] by (auto split: if_splits)
  then show ?case by blast
qed

lemma blocks_bounds: "(o1, n) \<in> blocks t i k off \<Longrightarrow> off \<le> o1 \<and> o1 + n \<le> off + 2 ^ k \<and> 0 < n"
proof (induction k arbitrary: i off)
  case 0
  then show ?case by (auto split: if_splits)
next
  case (Suc k)
  show ?case
  proof (cases "t ! i = NODE_UNUSED \<or> t ! i = NODE_USED")
    case True
    with Suc.prems show ?thesis by auto
  next
    case False
    with Suc.prems consider "(o1, n) \<in> blocks t (lc i) k off"
      | "(o1, n) \<in> blocks t (rc i) k (off + 2 ^ k)" by auto
    then show ?thesis using Suc.IH by cases fastforce+
  qed
qed

lemma full_no_free: "node_wf t i k \<Longrightarrow> t ! i \<in> {NODE_USED, NODE_FULL} \<Longrightarrow> free_pgs t i k off = {}"
proof (induction k arbitrary: i off)
  case 0
  then show ?case by auto
next
  case (Suc k)
  then show ?case
    by (auto simp: summary_def split: if_splits)
qed

lemma max_free_le: "max_free t i k \<le> 2 ^ k"
proof (induction k arbitrary: i)
  case 0
  then show ?case by simp
next
  case (Suc k)
  show ?case
    using Suc [of "lc i"] Suc [of "rc i"] by auto
qed

lemma max_free_split: "t ! i = NODE_SPLIT \<Longrightarrow> max_free t i k < 2 ^ k"
  using max_free_le [of t "lc i" "k - 1"] max_free_le [of t "rc i" "k - 1"]
  by (cases k) (auto simp: max_def not_le intro: le_less_trans)

text \<open>A node whose state is neither free nor allocated joins its two halves.\<close>

lemma inner_node:
  assumes "t ! i \<noteq> NODE_UNUSED" "t ! i \<noteq> NODE_USED"
  shows "free_pgs t i (Suc k) off = free_pgs t (lc i) k off \<union> free_pgs t (rc i) k (off + 2 ^ k)"
    "blocks t i (Suc k) off = blocks t (lc i) k off \<union> blocks t (rc i) k (off + 2 ^ k)"
  using assms by auto

lemma summary_simps [simp]:
  "summary l r \<noteq> NODE_USED"
  "summary l r = NODE_UNUSED \<longleftrightarrow> l = NODE_UNUSED \<and> r = NODE_UNUSED"
  by (auto simp: summary_def)

lemma summarize_children_state_eq:
  "rc i < length t \<Longrightarrow>
   summarize_children_state t i = Some (summary (t ! (lc i)) (t ! (rc i)))"
  using lc_less_rc(1) [of i] by (simp add: summarize_children_state_def summary_def array_simps child_fold)

text \<open>\<open>takes t t' i k off o n\<close>: below node \<open>i\<close>, \<open>t'\<close> is \<open>t\<close> with the free run of \<open>n\<close>
  pages at \<open>o\<close> turned into an allocated block.\<close>

definition takes :: "NodeState list \<Rightarrow> NodeState list \<Rightarrow> nat \<Rightarrow> nat \<Rightarrow> nat \<Rightarrow> nat \<Rightarrow> nat \<Rightarrow> bool" where
  "takes t t' i k off p n \<longleftrightarrow>
     {p..<p + n} \<subseteq> free_pgs t i k off \<and> free_pgs t' i k off = free_pgs t i k off - {p..<p + n} \<and>
     blocks t' i k off = insert (p, n) (blocks t i k off)"

lemma takes_left:
  assumes "takes t t' (lc i) k off p n" "0 < n"
    and "t ! i \<notin> {NODE_UNUSED, NODE_USED}" "t' ! i \<notin> {NODE_UNUSED, NODE_USED}"
    and "same_on (rc i) k t t'"
  shows "takes t t' i (Suc k) off p n"
proof -
  note f = subtree_frame [OF assms(5)]
  have "{p..<p + n} \<subseteq> {off..<off + 2 ^ k}"
    using assms(1) free_pgs_bounds [of t "lc i" k off] unfolding takes_def by blast
  then have "free_pgs t (rc i) k (off + 2 ^ k) \<inter> {p..<p + n} = {}"
    using free_pgs_bounds [of t "rc i" k "off + 2 ^ k"] by fastforce
  then show ?thesis
    using assms(1,3,4) unfolding takes_def by (auto simp: f inner_node simp del: free_pgs.simps blocks.simps)
qed

lemma takes_right:
  assumes "takes t t' (rc i) k (off + 2 ^ k) p n" "0 < n"
    and "t ! i \<notin> {NODE_UNUSED, NODE_USED}" "t' ! i \<notin> {NODE_UNUSED, NODE_USED}"
    and "same_on (lc i) k t t'"
  shows "takes t t' i (Suc k) off p n"
proof -
  note f = subtree_frame [OF assms(5)]
  have "{p..<p + n} \<subseteq> {off + 2 ^ k..<off + 2 ^ k + 2 ^ k}"
    using assms(1) free_pgs_bounds [of t "rc i" k "off + 2 ^ k"] unfolding takes_def by blast
  then have "free_pgs t (lc i) k off \<inter> {p..<p + n} = {}"
    using free_pgs_bounds [of t "lc i" k off] by fastforce
  then show ?thesis
    using assms(1,3,4) unfolding takes_def by (auto simp: f inner_node simp del: free_pgs.simps blocks.simps)
qed

lemma takes_not_unused: "takes t t' i k off p n \<Longrightarrow> t' ! i \<noteq> NODE_UNUSED"
  using blocks_unused [of t' i k off] by (auto simp: takes_def)

lemma node_in_range:
  assumes "at_depth i d" "d + k = lv" "2 ^ (lv + 1) - 1 \<le> length t"
  shows "i < length t" "k = Suc k' \<Longrightarrow> rc i < length t"
proof -
  have "i + 1 < 2 ^ (lv + 1)"
    using in_sub_bound [OF in_sub_self [of i k] assms(1)] assms(2) by simp
  then show "i < length t" using assms(3) by linarith
  assume "k = Suc k'"
  then have "in_sub i k (rc i)" using in_sub_right [OF in_sub_self] by simp
  then have "rc i + 1 < 2 ^ (lv + 1)"
    using in_sub_bound [OF _ assms(1), of k "rc i"] assms(2) by simp
  then show "rc i < length t" using assms(3) by linarith
qed

lemma split_unused_node_eq:
  assumes "rc i < length t" "t ! i = NODE_UNUSED"
  shows "split_unused_node t i =
     Some (t[i := NODE_SPLIT, lc i := NODE_UNUSED, rc i := NODE_UNUSED])"
  using assms lc_less_rc [of i] by (simp add: split_unused_node_def array_simps child_fold)

lemma node_block_pages_pow2: "d + k = lv \<Longrightarrow> node_block_pages (2 ^ lv) d = 2 ^ k"
  by (auto simp: node_block_pages_def power_add)

section \<open>Allocation\<close>

text \<open>The outcome of \<open>allocate_from_node\<close> at node \<open>i\<close> of height \<open>k\<close>, asked for \<open>2 ^ a\<close> pages.\<close>

definition alloc_outcome ::
  "nat \<Rightarrow> NodeState list \<Rightarrow> nat \<Rightarrow> nat \<Rightarrow> nat \<Rightarrow> NodeState list \<times> nat option \<Rightarrow> bool" where
  "alloc_outcome lv t i k a out \<longleftrightarrow>
     (case out of
        (t', None) \<Rightarrow> t' = t \<and> max_free t i k < 2 ^ a
      | (t', Some n) \<Rightarrow>
          length t' = length t \<and> (\<forall>j. \<not> in_sub i k j \<longrightarrow> t' ! j = t ! j) \<and> node_wf t' i k \<and>
          2 ^ a \<le> max_free t i k \<and> 2 ^ a dvd node_off lv n \<and> n + 1 < 2 ^ (lv + 1) \<and>
          takes t t' i k (node_off lv i) (node_off lv n) (2 ^ a))"

lemma node_offset_dvd: "at_depth i d \<Longrightarrow> d + k = lv \<Longrightarrow> 2 ^ k dvd node_off lv i"
  by (auto simp: node_off_def depth_of_eq)

text \<open>Allocation below a split node: the left half first, then the right one.\<close>

lemma alloc_finish_left:
  assumes out: "alloc_outcome lv t (lc i) k a (t', Some n)"
    and d: "at_depth i d" "d + Suc k = lv"
    and t: "t ! i = NODE_SPLIT" "node_wf t (rc i) k" "rc i < length t"
  shows "alloc_outcome lv t i (Suc k) a
     (t'[i := summary (t' ! (lc i)) (t' ! (rc i))], Some n)"
proof -
  let ?s = "summary (t' ! (lc i)) (t' ! (rc i))" and ?t = "t'[i := summary (t' ! (lc i)) (t' ! (rc i))]"
  have off: "node_off lv (lc i) = node_off lv i"
    by (rule node_offset_left [OF d(1)]) (use d in simp)
  have frame: "\<And>j. \<not> in_sub (lc i) k j \<Longrightarrow> t' ! j = t ! j" and len: "length t' = length t"
    and wf: "node_wf t' (lc i) k" and fit: "2 ^ a \<le> max_free t (lc i) k"
    and tk: "takes t t' (lc i) k (node_off lv i) (node_off lv n) (2 ^ a)"
    and dv: "2 ^ a dvd node_off lv n" "n + 1 < 2 ^ (lv + 1)"
    using out off by (auto simp: alloc_outcome_def)
  have l: "same_on (lc i) k t' ?t" and r: "same_on (rc i) k t ?t"
    using frame not_in_sub_children in_sub_disjoint by (metis nth_list_update_neq)+
  have s: "?s \<noteq> NODE_UNUSED" using takes_not_unused [OF tk] by simp
  have i: "?t ! i = ?s" using t(3) len lc_less_rc(2) [of i] by simp
  have "takes t ?t (lc i) k (node_off lv i) (node_off lv n) (2 ^ a)"
    using tk subtree_frame [OF l] by (simp add: takes_def)
  then have "takes t ?t i (Suc k) (node_off lv i) (node_off lv n) (2 ^ a)"
    by (rule takes_left) (use t(1) s i r in auto)
  moreover have "node_wf ?t i (Suc k)"
    using i s wf t(2) subtree_frame(1) [OF l] subtree_frame(1) [OF r] 
    by simp
  moreover have "\<forall>j. \<not> in_sub i (Suc k) j \<longrightarrow> ?t ! j = t ! j"
    using frame in_sub_left in_sub_self by (metis nth_list_update_neq)
  ultimately show ?thesis
    using fit t(1) dv len by (simp add: alloc_outcome_def)
qed

lemma alloc_finish_right:
  assumes out: "alloc_outcome lv t (rc i) k a (t', Some n)"
    and d: "at_depth i d" "d + Suc k = lv"
    and t: "t ! i = NODE_SPLIT" "node_wf t (lc i) k" "rc i < length t"
  shows "alloc_outcome lv t i (Suc k) a
     (t'[i := summary (t' ! (lc i)) (t' ! (rc i))], Some n)"
proof -
  let ?s = "summary (t' ! (lc i)) (t' ! (rc i))" and ?t = "t'[i := summary (t' ! (lc i)) (t' ! (rc i))]"
  have off: "node_off lv (rc i) = node_off lv i + 2 ^ k"
    using node_offset_right [OF d(1), of lv] d(2) by auto
  have frame: "\<And>j. \<not> in_sub (rc i) k j \<Longrightarrow> t' ! j = t ! j" and len: "length t' = length t"
    and wf: "node_wf t' (rc i) k" and fit: "2 ^ a \<le> max_free t (rc i) k"
    and tk: "takes t t' (rc i) k (node_off lv i + 2 ^ k) (node_off lv n) (2 ^ a)"
    and dv: "2 ^ a dvd node_off lv n" "n + 1 < 2 ^ (lv + 1)"
    using out off by (auto simp: alloc_outcome_def)
  have l: "same_on (rc i) k t' ?t" and r: "same_on (lc i) k t ?t"
    using frame not_in_sub_children in_sub_disjoint by (metis nth_list_update_neq)+
  have s: "?s \<noteq> NODE_UNUSED" using takes_not_unused [OF tk] by simp
  have i: "?t ! i = ?s" using t(3) len lc_less_rc(2) [of i] by simp
  have "takes t ?t (rc i) k (node_off lv i + 2 ^ k) (node_off lv n) (2 ^ a)"
    using tk subtree_frame [OF l] by (simp add: takes_def)
  then have "takes t ?t i (Suc k) (node_off lv i) (node_off lv n) (2 ^ a)"
    by (rule takes_right) (use t(1) s i r in auto)
  moreover have "node_wf ?t i (Suc k)"
    using i s wf t(2) subtree_frame(1) [OF l] subtree_frame(1) [OF r] 
    by simp
  moreover have "\<forall>j. \<not> in_sub i (Suc k) j \<longrightarrow> ?t ! j = t ! j"
    using frame in_sub_right in_sub_self by (metis nth_list_update_neq)
  ultimately show ?thesis
    using fit t(1) dv len by (simp add: alloc_outcome_def)
qed

text \<open>The branches of \<open>allocate_from_node\<close> at a node of \<open>2 ^ k\<close> pages.\<close>

lemma allocate_from_node_branches:
  assumes "node_block_pages c d = 2 ^ k" "i < length t"
  shows "k < a \<Longrightarrow> allocate_from_node c t i d (2 ^ a) = Some (t, None)"
    "a \<le> k \<Longrightarrow> t ! i \<in> {NODE_USED, NODE_FULL} \<Longrightarrow> allocate_from_node c t i d (2 ^ a) = Some (t, None)"
    "t ! i = NODE_SPLIT \<Longrightarrow> allocate_from_node c t i d (2 ^ k) = Some (t, None)"
    "t ! i = NODE_UNUSED \<Longrightarrow> allocate_from_node c t i d (2 ^ k) = Some (t[i := NODE_USED], Some i)"
  by (subst allocate_from_node.simps; use assms in \<open>auto simp: array_simps not_less\<close>)+

lemma allocate_from_node_descend:
  assumes "node_block_pages c d = 2 ^ k" "a < k" "rc i < length t" "t ! i \<in> {NODE_UNUSED, NODE_SPLIT}"
  defines "t1 \<equiv> (if t ! i = NODE_UNUSED then t[i := NODE_SPLIT, lc i := NODE_UNUSED, rc i := NODE_UNUSED] else t)"
  shows "allocate_from_node c t i d (2 ^ a) = do {
      (t, allocated) \<leftarrow> allocate_from_node c t1 (lc i) (Suc d) (2 ^ a);
      (t, allocated) \<leftarrow> (if allocated = None then allocate_from_node c t (rc i) (Suc d) (2 ^ a)
                         else Some (t, allocated));
      s \<leftarrow> summarize_children_state t i;
      t \<leftarrow> arr_set t i s;
      Some (t, allocated)
    }"
proof -
  have i: "i < length t" using assms(3) lc_less_rc(2) [of i] by simp
  have "t1 ! i = NODE_SPLIT" "i < length t1"
    using assms(4) i by (auto simp: t1_def)
  moreover have "(if t ! i = NODE_UNUSED then split_unused_node t i else Some t) = Some t1"
    using split_unused_node_eq [OF assms(3)] by (simp add: t1_def)
  ultimately show ?thesis
    using assms(1,2,4) i
    by (subst allocate_from_node.simps) (auto simp: array_simps child_fold cong: if_cong)
qed

lemma alloc_outcome_here:
  assumes "at_depth i d" "d + k = lv" "i < length t" "t ! i = NODE_UNUSED"
  shows "alloc_outcome lv t i k k (t[i := NODE_USED], Some i)"
  using assms node_offset_dvd [OF assms(1,2)] at_depth_less [OF assms(1), of lv]
  by (auto simp: alloc_outcome_def takes_def used_node free_pgs_unused blocks_unused max_free_unused
        nth_list_update)

text \<open>Splitting a free node changes neither its free pages nor its blocks.\<close>

lemma alloc_outcome_split:
  assumes "alloc_outcome lv (t[i := NODE_SPLIT, lc i := NODE_UNUSED, rc i := NODE_UNUSED]) i (Suc k) a out"
    and "rc i < length t" "t ! i = NODE_UNUSED" "a \<le> k"
  shows "alloc_outcome lv t i (Suc k) a out"
proof -
  let ?t = "t[i := NODE_SPLIT, lc i := NODE_UNUSED, rc i := NODE_UNUSED]"
  have s: "?t ! i = NODE_SPLIT" "?t ! lc i = NODE_UNUSED" "?t ! rc i = NODE_UNUSED"
    using assms(2) lc_less_rc [of i] by (auto simp: nth_list_update)
  have f: "free_pgs ?t i (Suc k) off = free_pgs t i (Suc k) off" "blocks ?t i (Suc k) off = blocks t i (Suc k) off" for off
    using s assms(3) by (auto simp: free_pgs_unused blocks_unused)
  have m: "max_free ?t i (Suc k) = 2 ^ k" "max_free t i (Suc k) = 2 ^ Suc k"
    using s assms(3) by (auto simp: max_free_unused)
  have "\<not> 2 ^ k < (2::nat) ^ a" "(2::nat) ^ a \<le> 2 ^ Suc k"
    using assms(4) power_increasing [of a "Suc k" "2::nat"] by (auto simp: not_less simp del: power_Suc)
  moreover have "t ! j = ?t ! j" if "\<not> in_sub i (Suc k) j" for j
    using that in_sub_left in_sub_right in_sub_self by (metis nth_list_update_neq)
  ultimately show ?thesis
    using assms(1) m unfolding alloc_outcome_def takes_def
    by (auto simp: f split: option.splits prod.splits simp del: free_pgs.simps blocks.simps max_free.simps)
qed

lemma alloc_outcome_fail:
  assumes "t ! i = NODE_SPLIT" "node_wf t i (Suc k)"
    and "max_free t (lc i) k < 2 ^ a" "max_free t (rc i) k < 2 ^ a"
  shows "alloc_outcome lv t i (Suc k) a (t[i := summary (t ! lc i) (t ! rc i)], None)"
  using assms by (auto simp: alloc_outcome_def) (metis list_update_id)

lemma alloc_descend_outcome:
  fixes lv t i d a k
  defines "t1 \<equiv> (if t ! i = NODE_UNUSED then t[i := NODE_SPLIT, lc i := NODE_UNUSED, rc i := NODE_UNUSED] else t)"
  assumes d: "at_depth i d" "d + Suc k = lv" and rcl: "rc i < length t"
    and a: "a \<le> k" "t ! i \<in> {NODE_UNUSED, NODE_SPLIT}" and wf: "node_wf t i (Suc k)"
    and L: "\<exists>out. allocate_from_node (2 ^ lv) t1 (lc i) (Suc d) (2 ^ a) = Some out \<and> alloc_outcome lv t1 (lc i) k a out"
    and R: "\<exists>out. allocate_from_node (2 ^ lv) t1 (rc i) (Suc d) (2 ^ a) = Some out \<and> alloc_outcome lv t1 (rc i) k a out"
  shows "\<exists>out. allocate_from_node (2 ^ lv) t i d (2 ^ a) = Some out \<and> alloc_outcome lv t1 i (Suc k) a out"
proof -
  have t1: "t1 ! i = NODE_SPLIT" "length t1 = length t" "node_wf t1 (lc i) k" "node_wf t1 (rc i) k"
    using a(2) wf rcl lc_less_rc [of i] by (auto simp: t1_def node_wf_unused nth_list_update)
  have i: "i < length t" using rcl lc_less_rc(2) [of i] by simp
  have desc: "allocate_from_node (2 ^ lv) t i d (2 ^ a) = do {
      (t, allocated) \<leftarrow> allocate_from_node (2 ^ lv) t1 (lc i) (Suc d) (2 ^ a);
      (t, allocated) \<leftarrow> (if allocated = None then allocate_from_node (2 ^ lv) t (rc i) (Suc d) (2 ^ a)
                         else Some (t, allocated));
      s \<leftarrow> summarize_children_state t i;
      t \<leftarrow> arr_set t i s;
      Some (t, allocated)
    }"
    unfolding t1_def by (rule allocate_from_node_descend [OF node_block_pages_pow2 [OF d(2)] _ rcl a(2)]) (use a(1) in simp)
  obtain t2 r1 where L': "allocate_from_node (2 ^ lv) t1 (lc i) (Suc d) (2 ^ a) = Some (t2, r1)"
    "alloc_outcome lv t1 (lc i) k a (t2, r1)" using L by auto
  obtain t3 r2 where R': "allocate_from_node (2 ^ lv) t1 (rc i) (Suc d) (2 ^ a) = Some (t3, r2)"
    "alloc_outcome lv t1 (rc i) k a (t3, r2)" using R by auto
  have len: "length t2 = length t" "length t3 = length t"
    using L'(2) R'(2) t1(2) by (auto simp: alloc_outcome_def split: option.splits)
  note fin = summarize_children_state_eq array_simps
  consider n where "r1 = Some n" | n where "r1 = None" "r2 = Some n" | "r1 = None" "r2 = None"
    by (cases r1; cases r2) auto
  then show ?thesis
  proof cases
    case (1 n)
    with alloc_finish_left [OF _ d t1(1,4), of a t2 n] L' desc len rcl i t1(2) show ?thesis
      by (auto simp: fin)
  next
    case (2 n)
    then have "t2 = t1" using L'(2) by (simp add: alloc_outcome_def)
    with 2 alloc_finish_right [OF _ d t1(1,3), of a t3 n] L' R' desc len rcl i t1(2) show ?thesis
      by (auto simp: fin)
  next
    case 3
    then have eq: "t2 = t1" "t3 = t1" and fail: "max_free t1 (lc i) k < 2 ^ a" "max_free t1 (rc i) k < 2 ^ a"
      using L'(2) R'(2) by (auto simp: alloc_outcome_def)
    have "t ! i \<noteq> NODE_UNUSED"
    proof
      assume "t ! i = NODE_UNUSED"
      then have "t1 ! lc i = NODE_UNUSED" using rcl lc_less_rc [of i] by (simp add: t1_def nth_list_update)
      with fail(1) have "(2::nat) ^ k < 2 ^ a" by (simp add: max_free_unused)
      with a(1) show False by simp
    qed
    then have "t1 = t" by (simp add: t1_def)
    with 3 eq alloc_outcome_fail [OF t1(1) _ fail, of lv] wf L' R' desc len rcl i show ?thesis
      by (auto simp: fin)
  qed
qed

theorem allocate_from_node_outcome:
  assumes "at_depth i d" "d + k = lv" "2 ^ (lv + 1) - 1 \<le> length t" "node_wf t i k"
  shows "\<exists>out. allocate_from_node (2 ^ lv) t i d (2 ^ a) = Some out \<and> alloc_outcome lv t i k a out"
  using assms
proof (induction k arbitrary: i d t)
  case 0
  have i: "i < length t" using node_in_range(1) [OF "0.prems"(1-3)] .
  note br = allocate_from_node_branches [OF node_block_pages_pow2 [OF "0.prems"(2)] i]
  show ?case
  proof (cases "a = 0")
    case True
    with br(2-4) alloc_outcome_here [OF "0.prems"(1,2) i] "0.prems"(4) show ?thesis
      by (cases "t ! i") (auto simp: alloc_outcome_def)
  next
    case False
    then have "1 < (2::nat) ^ a" using one_less_power [of "2::nat" a] by simp
    with False br(1) show ?thesis
      by (auto simp: alloc_outcome_def)
  qed
next
  case (Suc k)
  have i: "i < length t" and rcl: "rc i < length t"
    using node_in_range [OF Suc.prems(1-3)] by auto
  have b: "node_block_pages (2 ^ lv) d = 2 ^ Suc k"
    by (rule node_block_pages_pow2) (use Suc.prems(2) in simp)
  note br = allocate_from_node_branches [OF b i]
  consider "k + 1 < a" | "a \<le> k + 1" "t ! i \<in> {NODE_USED, NODE_FULL}"
    | "a = k + 1" "t ! i = NODE_UNUSED" | "a = k + 1" "t ! i = NODE_SPLIT"
    | "a \<le> k" "t ! i \<in> {NODE_UNUSED, NODE_SPLIT}"
    by (cases "a \<le> k"; cases "a = k + 1"; cases "t ! i") auto
  then show ?case
  proof cases
    case 1
    then have "(2::nat) ^ Suc k < 2 ^ a" by (simp add: power_strict_increasing del: power_Suc)
    then have "max_free t i (Suc k) < 2 ^ a" by (rule le_less_trans [OF max_free_le])
    with 1 br(1) show ?thesis
      by (auto simp: alloc_outcome_def simp del: power_Suc max_free.simps)
  next
    case 2
    then show ?thesis using br(2) by (auto simp: alloc_outcome_def)
  next
    case 3
    then show ?thesis using br(4) alloc_outcome_here [OF Suc.prems(1,2) i] by auto
  next
    case 4
    then show ?thesis using br(3) max_free_split [of t i "Suc k"]
      by (auto simp: alloc_outcome_def simp del: max_free.simps)
  next
    case 5
    let ?t = "if t ! i = NODE_UNUSED then t[i := NODE_SPLIT, lc i := NODE_UNUSED, rc i := NODE_UNUSED] else t"
    have t1: "?t ! i = NODE_SPLIT" "length ?t = length t" "node_wf ?t (lc i) k" "node_wf ?t (rc i) k"
      using 5(2) Suc.prems(4) rcl lc_less_rc [of i] by (auto simp: node_wf_unused nth_list_update)
    have sd: "Suc d + k = lv" and len: "2 ^ (lv + 1) - 1 \<le> length ?t"
      using Suc.prems(2,3) t1(2) by auto
    have "\<exists>out. allocate_from_node (2 ^ lv) t i d (2 ^ a) = Some out \<and> alloc_outcome lv ?t i (Suc k) a out"
      by (rule alloc_descend_outcome [OF Suc.prems(1,2) rcl 5 Suc.prems(4)
            Suc.IH [OF at_depth_children(1) [OF Suc.prems(1)] sd len t1(3)]
            Suc.IH [OF at_depth_children(2) [OF Suc.prems(1)] sd len t1(4)]])
    then show ?thesis
      using alloc_outcome_split [OF _ rcl _ 5(1)] by (auto split: if_splits)
  qed
qed

section \<open>Release\<close>

text \<open>\<open>gives t t' i k off p n\<close>: the block of \<open>n\<close> pages at \<open>p\<close> becomes free.\<close>

definition gives :: "NodeState list \<Rightarrow> NodeState list \<Rightarrow> nat \<Rightarrow> nat \<Rightarrow> nat \<Rightarrow> nat \<Rightarrow> nat \<Rightarrow> bool" where
  "gives t t' i k off p n \<longleftrightarrow>
     (p, n) \<in> blocks t i k off \<and> free_pgs t' i k off = free_pgs t i k off \<union> {p..<p + n} \<and>
     blocks t' i k off = blocks t i k off - {(p, n)}"

lemma blocks_halves_disjoint:
  "(p, n) \<in> blocks t (lc i) k off \<Longrightarrow> (p, m) \<notin> blocks t' (rc i) k' (off + 2 ^ k)"
  using blocks_bounds [of p n t "lc i" k off] blocks_bounds [of p m t' "rc i" k' "off + 2 ^ k"] by auto

text \<open>When both halves become free the parent is merged; otherwise it keeps its two halves.
  Either way its free pages and blocks are those of the halves.\<close>

lemma merge_node:
  assumes "node_wf t (lc i) k" "node_wf t (rc i) k" "t ! i = summary (t ! lc i) (t ! rc i)"
  shows "node_wf t i (Suc k)"
    "free_pgs t i (Suc k) off = free_pgs t (lc i) k off \<union> free_pgs t (rc i) k (off + 2 ^ k)"
    "blocks t i (Suc k) off = blocks t (lc i) k off \<union> blocks t (rc i) k (off + 2 ^ k)"
  using assms by (auto simp: free_pgs_unused blocks_unused)

lemma gives_left:
  assumes "gives t t' (lc i) k off p n" "t ! i \<notin> {NODE_UNUSED, NODE_USED}" "same_on (rc i) k t t'"
    and "node_wf t' (lc i) k" "node_wf t' (rc i) k" "t' ! i = summary (t' ! lc i) (t' ! rc i)"
  shows "gives t t' i (Suc k) off p n"
  using assms(1,2) blocks_halves_disjoint [of p n t i k off n t k] subtree_frame [OF assms(3)]
    merge_node [OF assms(4-6)]
  unfolding gives_def by (auto simp: inner_node simp del: free_pgs.simps blocks.simps)

lemma gives_right:
  assumes "gives t t' (rc i) k (off + 2 ^ k) p n" "t ! i \<notin> {NODE_UNUSED, NODE_USED}" "same_on (lc i) k t t'"
    and "node_wf t' (lc i) k" "node_wf t' (rc i) k" "t' ! i = summary (t' ! lc i) (t' ! rc i)"
  shows "gives t t' i (Suc k) off p n"
  using assms(1,2) blocks_halves_disjoint [of p n t i k off n t k] subtree_frame [OF assms(3)]
    merge_node [OF assms(4-6)]
  unfolding gives_def by (auto simp: inner_node simp del: free_pgs.simps blocks.simps)

definition free_outcome :: "nat \<Rightarrow> NodeState list \<Rightarrow> nat \<Rightarrow> nat \<Rightarrow> nat \<Rightarrow> nat \<Rightarrow> NodeState list \<Rightarrow> bool" where
  "free_outcome lv t i k p n t' \<longleftrightarrow>
     length t' = length t \<and> (\<forall>j. \<not> in_sub i k j \<longrightarrow> t' ! j = t ! j) \<and> node_wf t' i k \<and>
     gives t t' i k (node_off lv i) p n"

lemma free_from_node_here:
  assumes "node_block_pages c d = 2 ^ k" "i < length t" "node_offset_pages lv i = Some (node_off lv i)"
    and "t ! i = NODE_USED"
  shows "free_from_node c lv t i d (node_off lv i) = Some (t[i := NODE_UNUSED], True)"
    "free_outcome lv t i k (node_off lv i) (2 ^ k) (t[i := NODE_UNUSED])"
proof -
  show "free_from_node c lv t i d (node_off lv i) = Some (t[i := NODE_UNUSED], True)"
    using assms by (subst free_from_node.simps) (simp add: Let_def array_simps)
  show "free_outcome lv t i k (node_off lv i) (2 ^ k) (t[i := NODE_UNUSED])"
    using assms(2,4)
    by (auto simp: free_outcome_def gives_def used_node free_pgs_unused blocks_unused node_wf_unused nth_list_update)
qed

lemma free_from_node_descend:
  assumes "node_block_pages c d = 2 ^ Suc k" "i < length t" "node_offset_pages lv i = Some (node_off lv i)"
    and "t ! i \<notin> {NODE_UNUSED, NODE_USED}" "node_off lv i \<le> p" "p < node_off lv i + 2 ^ Suc k"
  shows "free_from_node c lv t i d p = do {
      (t, released) \<leftarrow>
        free_from_node c lv t (if p < node_off lv i + 2 ^ k then lc i else rc i) (Suc d) p;
      if \<not> released then Some (t, False)
      else do { s \<leftarrow> summarize_children_state t i; t \<leftarrow> arr_set t i s; Some (t, True) }
    }"
  using assms by (subst free_from_node.simps) (simp add: Let_def array_simps child_fold cong: if_cong)

lemma free_finish:
  assumes t: "t ! i = summary (t ! lc i) (t ! rc i)" "t ! i \<noteq> NODE_UNUSED" "t ! i \<noteq> NODE_USED" "rc i < length t"
    and wf: "node_wf t (lc i) k" "node_wf t (rc i) k" and d: "at_depth i d" "d + Suc k = lv"
    and c: "c = lc i \<or> c = rc i" and out: "free_outcome lv t c k p n t'"
  shows "free_outcome lv t i (Suc k) p n (t'[i := summary (t' ! lc i) (t' ! rc i)])"
proof -
  let ?t = "t'[i := summary (t' ! lc i) (t' ! rc i)]"
  have frame: "\<And>j. \<not> in_sub c k j \<Longrightarrow> t' ! j = t ! j" and len: "length t' = length t"
    using out by (auto simp: free_outcome_def)
  have ti: "?t ! i = summary (?t ! lc i) (?t ! rc i)"
    using t(4) len lc_less_rc [of i] by simp
  have same: "same_on (lc i) k t' ?t" "same_on (rc i) k t' ?t"
    using not_in_sub_children by (metis nth_list_update_neq)+
  have oth: "c = lc i \<Longrightarrow> same_on (rc i) k t ?t" "c = rc i \<Longrightarrow> same_on (lc i) k t ?t"
    using frame in_sub_disjoint not_in_sub_children by (metis nth_list_update_neq)+
  have wf': "node_wf ?t (lc i) k" "node_wf ?t (rc i) k"
    using c out wf subtree_frame(1) [OF same(1)] subtree_frame(1) [OF same(2)]
      subtree_frame(1) [OF oth(1)] subtree_frame(1) [OF oth(2)] by (auto simp: free_outcome_def)
  have off: "node_off lv (lc i) = node_off lv i"
    "node_off lv (rc i) = node_off lv i + 2 ^ k"
    using node_offset_left [OF d(1), of lv] node_offset_right [OF d(1), of lv] d(2) by auto
  have "gives t ?t c k (node_off lv c) p n"
    using out c subtree_frame [OF same(1)] subtree_frame [OF same(2)] by (auto simp: free_outcome_def gives_def)
  then have "gives t ?t i (Suc k) (node_off lv i) p n"
    using c gives_left [OF _ _ oth(1) wf' ti] gives_right [OF _ _ oth(2) wf' ti] t(2,3) off by auto
  moreover have "\<forall>j. \<not> in_sub i (Suc k) j \<longrightarrow> ?t ! j = t ! j"
    using c frame in_sub_left in_sub_right in_sub_self by (metis nth_list_update_neq)
  ultimately show ?thesis
    using merge_node(1) [OF wf' ti] len by (simp add: free_outcome_def)
qed

theorem free_from_node_outcome:
  assumes lv: "lv \<le> 29"
    and "at_depth i d" "d + k = lv" "2 ^ (lv + 1) - 1 \<le> length t" "node_wf t i k"
    and "(p, n) \<in> blocks t i k (node_off lv i)"
  shows "\<exists>t'. free_from_node (2 ^ lv) lv t i d p = Some (t', True) \<and> free_outcome lv t i k p n t'"
  using assms(2-)
proof (induction k arbitrary: i d t)
  case 0
  have i: "i < length t" using node_in_range(1) [OF "0.prems"(1-3)] .
  have o: "node_offset_pages lv i = Some (node_off lv i)"
    by (rule node_offset_pages_eq [OF lv at_depth_less [OF "0.prems"(1)]]) (use "0.prems"(2) in simp)
  with i "0.prems" free_from_node_here [OF node_block_pages_pow2 [OF "0.prems"(2)] i o] show ?case
    by (auto split: if_splits)
next
  case (Suc k)
  have i: "i < length t" and rcl: "rc i < length t"
    using node_in_range [OF Suc.prems(1-3)] by auto
  note b = node_block_pages_pow2 [OF Suc.prems(2)]
  have o: "node_offset_pages lv i = Some (node_off lv i)"
    by (rule node_offset_pages_eq [OF lv at_depth_less [OF Suc.prems(1)]]) (use Suc.prems(2) in simp)
  show ?case
  proof (cases "t ! i = NODE_USED")
    case True
    with Suc.prems(5) free_from_node_here [OF b i o True] show ?thesis by auto
  next
    case False
    then have u: "t ! i \<noteq> NODE_UNUSED" using Suc.prems(5) by (auto simp: blocks_unused)
    define c where "c = (if p < node_off lv i + 2 ^ k then lc i else rc i)"
    have off: "node_off lv (lc i) = node_off lv i"
      "node_off lv (rc i) = node_off lv i + 2 ^ k"
      using node_offset_left [OF Suc.prems(1), of lv] node_offset_right [OF Suc.prems(1), of lv] Suc.prems(2) by auto
    have rng: "node_off lv i \<le> p" "p < node_off lv i + 2 ^ Suc k"
      using blocks_bounds [OF Suc.prems(5)] by auto
    have blk: "(p, n) \<in> blocks t c k (node_off lv c)"
      using Suc.prems(5) False u blocks_bounds [of p n t "lc i" k] blocks_bounds [of p n t "rc i" k]
      by (fastforce simp: c_def off)
    have wf: "node_wf t (lc i) k" "node_wf t (rc i) k" "t ! i = summary (t ! lc i) (t ! rc i)"
      using Suc.prems(4) False u by auto
    have "at_depth c (Suc d)" "node_wf t c k" "Suc d + k = lv"
      using at_depth_children [OF Suc.prems(1)] wf Suc.prems(2) by (simp_all add: c_def)
    then obtain t' where t': "free_from_node (2 ^ lv) lv t c (Suc d) p = Some (t', True)" "free_outcome lv t c k p n t'"
      using Suc.IH [OF _ _ Suc.prems(3) _ blk] by blast
    then show ?thesis
      using free_from_node_descend [OF b i o _ rng] False u rcl i
        free_finish [OF wf(3) u False rcl wf(1,2) Suc.prems(1,2) _ t'(2)]
      by (auto simp: c_def [symmetric] summarize_children_state_eq array_simps free_outcome_def)
         (auto simp: c_def)
  qed
qed

end
