(* ===== verification/Buddy_Spec.thy ===== *)
theory Buddy_Spec
  imports Buddy_Correct
begin

text \<open>
  The \<open>BuddySystem\<close> object as a whole: its invariant, what \<open>query_page\<close>,
  \<open>Alloc\<close>, \<open>Free\<close>, \<open>get_max_free_block_pages\<close> and \<open>Initialize\<close> promise, and
  the page-allocator interface they implement.
\<close>

section \<open>Ownership of pages\<close>

definition owned :: "NodeState list \<Rightarrow> nat \<Rightarrow> nat \<Rightarrow> nat \<Rightarrow> nat set" where
  "owned t i k off = (\<Union>(p, n)\<in>blocks t i k off. {p..<p + n})"

lemma owned_bounds: "owned t i k off \<subseteq> {off..<off + 2 ^ k}"
  using blocks_bounds [of _ _ t i k off] by (fastforce simp: owned_def)

lemma owned_inner:
  assumes "t ! i \<noteq> NODE_UNUSED" "t ! i \<noteq> NODE_USED"
  shows "owned t i (Suc k) off = owned t (lc i) k off \<union> owned t (rc i) k (off + 2 ^ k)"
  using assms by (simp add: owned_def)

lemma blocks_disjoint:
  "(p, n) \<in> blocks t i k off \<Longrightarrow> (q, m) \<in> blocks t i k off \<Longrightarrow> x \<in> {p..<p + n} \<Longrightarrow> x \<in> {q..<q + m} \<Longrightarrow>
   (p, n) = (q, m)"
proof (induction k arbitrary: i off)
  case 0
  then show ?case by (auto split: if_splits)
next
  case (Suc k)
  show ?case
  proof (cases "t ! i = NODE_UNUSED \<or> t ! i = NODE_USED")
    case True
    with Suc.prems show ?thesis by auto
  next
    case False
    have sep: "\<not> ((a, b) \<in> blocks t (lc i) k off \<and> (c, e) \<in> blocks t (rc i) k (off + 2 ^ k) \<and>
        x \<in> {a..<a + b} \<and> x \<in> {c..<c + e})" for a b c e
      using blocks_bounds [of a b t "lc i" k off] blocks_bounds [of c e t "rc i" k "off + 2 ^ k"] by auto
    from False Suc.prems Suc.IH [of "lc i" off] Suc.IH [of "rc i" "off + 2 ^ k"] sep [of p n q m] sep [of q m p n]
    show ?thesis by (auto simp: inner_node simp del: blocks.simps)
  qed
qed

lemma free_owned_disjoint: "free_pgs t i k off \<inter> owned t i k off = {}"
proof (induction k arbitrary: i off)
  case 0
  then show ?case by (auto simp: owned_def)
next
  case (Suc k)
  show ?case
  proof (cases "t ! i = NODE_UNUSED \<or> t ! i = NODE_USED")
    case True
    then show ?thesis by (auto simp: owned_def)
  next
    case False
    have "free_pgs t (lc i) k off \<inter> owned t (rc i) k (off + 2 ^ k) = {}"
      "free_pgs t (rc i) k (off + 2 ^ k) \<inter> owned t (lc i) k off = {}"
      using free_pgs_bounds [of t "lc i" k off] owned_bounds [of t "rc i" k "off + 2 ^ k"]
        free_pgs_bounds [of t "rc i" k "off + 2 ^ k"] owned_bounds [of t "lc i" k off] by fastforce+
    with False Suc.IH [of "lc i" off] Suc.IH [of "rc i" "off + 2 ^ k"] show ?thesis
      by (auto simp: inner_node owned_inner simp del: free_pgs.simps)
  qed
qed

section \<open>Queries\<close>

lemma query_page_from_node_step:
  assumes "i < length t" "p < pages"
  shows "query_page_from_node pages t i lv off (2 ^ k) p =
    (let r = \<lparr>in_range = True, is_free = False, node_state = t ! i, block_pages = 2 ^ k,
             node_index = i, node_level = lv, block_offset = off\<rparr>
     in if t ! i = NODE_UNUSED then Some (r\<lparr>is_free := True\<rparr>)
        else if t ! i = NODE_USED \<or> k = 0 then Some r
        else if p < off + 2 ^ (k - 1)
        then query_page_from_node pages t (lc i) (lv + 1) off (2 ^ (k - 1)) p
        else query_page_from_node pages t (rc i) (lv + 1) (off + 2 ^ (k - 1)) (2 ^ (k - 1)) p)"
  using assms
  by (subst query_page_from_node.simps, cases k)
     (simp_all add: zero_result_def Let_def array_simps child_fold)

lemma query_page_from_node_free:
  assumes "at_depth i d" "d + k = lv" "2 ^ (lv + 1) - 1 \<le> length t" "p < pages"
    and "p \<in> free_pgs t i k off"
  shows "\<exists>r. query_page_from_node pages t i cl off (2 ^ k) p = Some r \<and> in_range r \<and> is_free r"
  using assms
proof (induction k arbitrary: i d off cl)
  case 0
  with node_in_range(1) [OF "0.prems"(1-3)] show ?case
    by (subst query_page_from_node_step) (auto split: if_splits)
next
  case (Suc k)
  have i: "i < length t" using node_in_range(1) [OF Suc.prems(1-3)] .
  have sd: "Suc d + k = lv" using Suc.prems(2) by simp
  show ?case
  proof (cases "t ! i = NODE_UNUSED")
    case True
    with i Suc.prems(4) show ?thesis
      by (subst query_page_from_node_step) (auto simp: Let_def)
  next
    case False
    with Suc.prems(5) have u: "t ! i \<noteq> NODE_USED" by auto
    have side: "p < off + 2 ^ k \<and> p \<in> free_pgs t (lc i) k off \<or>
        \<not> p < off + 2 ^ k \<and> p \<in> free_pgs t (rc i) k (off + 2 ^ k)"
      using Suc.prems(5) False u free_pgs_bounds [of t "lc i" k off] free_pgs_bounds [of t "rc i" k "off + 2 ^ k"]
      by fastforce
    with False u i Suc.prems(3,4)
      Suc.IH [OF at_depth_children(1) [OF Suc.prems(1)] sd, of off "Suc cl"]
      Suc.IH [OF at_depth_children(2) [OF Suc.prems(1)] sd, of "off + 2 ^ k" "Suc cl"]
    show ?thesis
      by (subst query_page_from_node_step) auto
  qed
qed

lemma query_page_from_node_owned:
  assumes "at_depth i d" "d + k = lv" "2 ^ (lv + 1) - 1 \<le> length t" "p < pages"
    and "(q, n) \<in> blocks t i k off" "q \<le> p" "p < q + n"
  shows "\<exists>r. query_page_from_node pages t i cl off (2 ^ k) p = Some r \<and> in_range r \<and> \<not> is_free r \<and>
    block_offset r = q \<and> block_pages r = n"
  using assms
proof (induction k arbitrary: i d off cl)
  case 0
  with node_in_range(1) [OF "0.prems"(1-3)] show ?case
    by (subst query_page_from_node_step) (auto split: if_splits)
next
  case (Suc k)
  have i: "i < length t" using node_in_range(1) [OF Suc.prems(1-3)] .
  have sd: "Suc d + k = lv" using Suc.prems(2) by simp
  have u: "t ! i \<noteq> NODE_UNUSED" using Suc.prems(5) by auto
  show ?case
  proof (cases "t ! i = NODE_USED")
    case True
    with i Suc.prems(4,5) show ?thesis
      by (subst query_page_from_node_step) (auto simp: Let_def)
  next
    case False
    have side: "p < off + 2 ^ k \<and> (q, n) \<in> blocks t (lc i) k off \<or>
        \<not> p < off + 2 ^ k \<and> (q, n) \<in> blocks t (rc i) k (off + 2 ^ k)"
      using Suc.prems(5-7) False u blocks_bounds [of q n t "lc i" k off] blocks_bounds [of q n t "rc i" k "off + 2 ^ k"]
      by fastforce
    with False u i Suc.prems(3,4,6,7)
      Suc.IH [OF at_depth_children(1) [OF Suc.prems(1)] sd, of off "Suc cl"]
      Suc.IH [OF at_depth_children(2) [OF Suc.prems(1)] sd, of "off + 2 ^ k" "Suc cl"]
    show ?thesis
      by (subst query_page_from_node_step) auto
  qed
qed

section \<open>The largest free block\<close>

lemma max_free_block_pages_eq:
  assumes "at_depth i d" "d + k = lv" "2 ^ (lv + 1) - 1 \<le> length t" "node_wf t i k"
  shows "max_free_block_pages_from_node t i (2 ^ k) = Some (max_free t i k)"
  using assms
proof (induction k arbitrary: i d)
  case 0
  with node_in_range(1) [OF "0.prems"(1-3)] show ?case
    by (subst max_free_block_pages_from_node.simps) (cases "t ! i"; auto simp: array_simps)
next
  case (Suc k)
  have i: "i < length t" using node_in_range(1) [OF Suc.prems(1-3)] .
  have sd: "Suc d + k = lv" using Suc.prems(2) by simp
  show ?case
    using i Suc.prems(3,4)
      Suc.IH [OF at_depth_children(1) [OF Suc.prems(1)] sd]
      Suc.IH [OF at_depth_children(2) [OF Suc.prems(1)] sd]
    by (subst max_free_block_pages_from_node.simps) (cases "t ! i"; auto simp: array_simps child_fold max_def)
qed

text \<open>A free run of the size of a node, at the node's offset, means the node itself is free.\<close>

lemma all_free_unused: "node_wf t i k \<Longrightarrow> {off..<off + 2 ^ k} \<subseteq> free_pgs t i k off \<Longrightarrow> t ! i = NODE_UNUSED"
proof (induction k arbitrary: i off)
  case 0
  then show ?case by (auto split: if_splits)
next
  case (Suc k)
  show ?case
  proof (rule ccontr)
    assume u: "t ! i \<noteq> NODE_UNUSED"
    with Suc.prems(2) have us: "t ! i \<noteq> NODE_USED"
      by auto
    have sub: "{off..<off + 2 ^ Suc k} \<subseteq> free_pgs t (lc i) k off \<union> free_pgs t (rc i) k (off + 2 ^ k)"
      using Suc.prems(2) u us by simp
    have "{off..<off + 2 ^ k} \<subseteq> free_pgs t (lc i) k off"
      using sub free_pgs_bounds [of t "rc i" k "off + 2 ^ k"] by fastforce
    moreover have "x \<in> free_pgs t (rc i) k (off + 2 ^ k)" if "x \<in> {off + 2 ^ k..<off + 2 ^ k + 2 ^ k}" for x
      using that subsetD [OF sub, of x] subsetD [OF free_pgs_bounds [of t "lc i" k off], of x] by auto
    ultimately show False
      using Suc.IH [of "lc i" off] Suc.IH [of "rc i" "off + 2 ^ k"] Suc.prems(1) u us by (auto simp: subset_eq)
  qed
qed

lemma dvd_step: "(m::nat) dvd p \<Longrightarrow> m dvd q \<Longrightarrow> p < q \<Longrightarrow> p + m \<le> q"
  by (metis dvd_diff_nat dvd_imp_le le_diff_conv2 less_imp_le zero_less_diff add.commute)

lemma fit_half:
  assumes "2 ^ a dvd p" "2 ^ k dvd off" "a \<le> k" "{p..<p + 2 ^ a} \<subseteq> free_pgs t i (Suc k) off"
    and "t ! i \<noteq> NODE_UNUSED" "t ! i \<noteq> NODE_USED"
  shows "{p..<p + 2 ^ a} \<subseteq> free_pgs t (lc i) k off \<or> {p..<p + 2 ^ a} \<subseteq> free_pgs t (rc i) k (off + 2 ^ k)"
proof -
  have sub: "{p..<p + 2 ^ a} \<subseteq> free_pgs t (lc i) k off \<union> free_pgs t (rc i) k (off + 2 ^ k)"
    using assms(4-6) by (simp add: inner_node del: free_pgs.simps)
  have "2 ^ a dvd off + 2 ^ k"
    using assms(2,3) by (meson dvd_add dvd_trans le_imp_power_dvd)
  then have "p + 2 ^ a \<le> off + 2 ^ k \<or> off + 2 ^ k \<le> p"
    using dvd_step [OF assms(1)] by fastforce
  then show ?thesis
    using sub free_pgs_bounds [of t "lc i" k off] free_pgs_bounds [of t "rc i" k "off + 2 ^ k"]
    by (elim disjE) fastforce+
qed

text \<open>The recorded maximum is exact: a block of \<open>2 ^ a\<close> pages can be carved out below a node if
  and only if an aligned free run of that length exists there.\<close>

theorem max_free_fit:
  assumes "node_wf t i k" "2 ^ k dvd off"
  shows "2 ^ a \<le> max_free t i k \<longleftrightarrow> (\<exists>p. 2 ^ a dvd p \<and> {p..<p + 2 ^ a} \<subseteq> free_pgs t i k off)"
  using assms
proof (induction k arbitrary: i off)
  case 0
  have one: "(2::nat) ^ a \<le> 1 \<longleftrightarrow> a = 0" using less_exp [of a] by (cases "a = 0") (auto simp del: less_exp)
  have "a = 0" if "{p..<p + 2 ^ a} \<subseteq> {off}" for p
    using card_mono [OF _ that] one by simp
  moreover have "2 ^ a dvd off \<and> {off..<off + 2 ^ a} \<subseteq> {off}" if "a = 0" using that by simp
  ultimately have "(\<exists>p. 2 ^ a dvd p \<and> {p..<p + 2 ^ a} \<subseteq> {off}) \<longleftrightarrow> a = 0" by blast
  then show ?case using one by simp
next
  case (Suc k)
  have dv: "2 ^ k dvd off" "2 ^ k dvd off + 2 ^ k"
    using Suc.prems(2) by (auto dest: dvd_mult_right)
  have le: "a \<le> Suc k" if "{p..<p + 2 ^ a} \<subseteq> free_pgs t i (Suc k) off" for p
  proof -
    have "{p..<p + 2 ^ a} \<subseteq> {off..<off + 2 ^ Suc k}"
      using that free_pgs_bounds by (rule subset_trans)
    then have "(2::nat) ^ a \<le> 2 ^ Suc k" using card_mono [of "{off..<off + 2 ^ Suc k}"] by fastforce
    then show ?thesis by (rule power_le_imp_le_exp [rotated]) simp
  qed
  show ?case
  proof (cases "t ! i = NODE_UNUSED")
    case True
    have "2 ^ a dvd off" if "a \<le> Suc k" using that Suc.prems(2) by (meson dvd_trans le_imp_power_dvd)
    moreover have "(2::nat) ^ a \<le> 2 ^ Suc k \<longleftrightarrow> a \<le> Suc k"
      using power_increasing_iff [of "2::nat" a "Suc k"] by simp
    ultimately show ?thesis
      using True le by (auto simp: max_free_unused free_pgs_unused simp del: power_Suc free_pgs.simps max_free.simps)
  next
    case u: False
    show ?thesis
    proof (cases "t ! i \<in> {NODE_USED, NODE_FULL}")
      case True
      then show ?thesis using full_no_free [OF Suc.prems(1) True] by auto
    next
      case False
      then have sp: "t ! i = NODE_SPLIT" using u by (cases "t ! i") auto
      have wf: "node_wf t (lc i) k" "node_wf t (rc i) k" using Suc.prems(1) sp by auto
      have "a \<le> k" if p: "2 ^ a dvd p" "{p..<p + 2 ^ a} \<subseteq> free_pgs t i (Suc k) off" for p
      proof (rule ccontr)
        assume "\<not> a \<le> k"
        with le [OF p(2)] have a: "a = Suc k" by simp
        have "{p..<p + 2 ^ Suc k} \<subseteq> {off..<off + 2 ^ Suc k}"
          using p(2) a free_pgs_bounds subset_trans by blast
        then have "p = off" by (simp add: atLeastLessThan_subset_iff)
        then show False
          using all_free_unused [OF Suc.prems(1), of off] p(2) u unfolding a by blast
      qed
      then have "2 ^ a dvd p \<and> {p..<p + 2 ^ a} \<subseteq> free_pgs t i (Suc k) off \<longleftrightarrow>
          2 ^ a dvd p \<and> {p..<p + 2 ^ a} \<subseteq> free_pgs t (lc i) k off \<or>
          2 ^ a dvd p \<and> {p..<p + 2 ^ a} \<subseteq> free_pgs t (rc i) k (off + 2 ^ k)" for p
        using fit_half [OF _ dv(1), of a p t i] inner_node(1) [of t i k off] u False
        by (metis insertI1 insertI2 le_supI1 le_supI2)
      then show ?thesis
        using Suc.IH [OF wf(1) dv(1)] Suc.IH [OF wf(2) dv(2)] sp by (simp add: le_max_iff_disj ex_disj_distrib)
    qed
  qed
qed

section \<open>Rounding up to a power of two\<close>

text \<open>\<open>reaches w v r\<close>: bit \<open>i\<close> of \<open>v\<close> is set when one of the \<open>r\<close> bits of \<open>w\<close> from \<open>i\<close> on is.\<close>

definition reaches :: "u32 \<Rightarrow> u32 \<Rightarrow> nat \<Rightarrow> bool" where
  "reaches w v r \<longleftrightarrow> (\<forall>i. bit v i \<longleftrightarrow> (\<exists>m. i \<le> m \<and> m < i + r \<and> bit w m))"

lemma reaches_refl: "reaches w w 1"
  by (auto simp: reaches_def le_less_Suc_eq)

lemma reaches_double: "reaches w v r \<Longrightarrow> reaches w (v OR drop_bit r v) (r + r)"
proof -
  assume a: "reaches w v r"
  have "(\<exists>m. i \<le> m \<and> m < i + r \<and> bit w m) \<or> (\<exists>m. r + i \<le> m \<and> m < r + i + r \<and> bit w m) \<longleftrightarrow>
      (\<exists>m. i \<le> m \<and> m < i + (r + r) \<and> bit w m)" (is "?A \<or> ?B \<longleftrightarrow> ?C") for i
  proof (intro iffI; elim disjE exE conjE)
    fix m assume "i \<le> m" "m < i + (r + r)" "bit w m"
    then have "i \<le> m \<and> m < i + r \<and> bit w m \<or> r + i \<le> m \<and> m < r + i + r \<and> bit w m" by linarith
    then show "?A \<or> ?B" by blast
  next
    fix m assume "i \<le> m" "m < i + r" "bit w m"
    then show ?C by (intro exI [of _ m]) simp
  next
    fix m assume "r + i \<le> m" "m < r + i + r" "bit w m"
    then show ?C by (intro exI [of _ m]) simp
  qed
  with a show ?thesis
    by (simp add: reaches_def bit_or_iff bit_drop_bit_eq)
qed

lemma reaches_doubleI: "reaches w v r \<Longrightarrow> s = r + r \<Longrightarrow> reaches w (v OR drop_bit r v) s"
  using reaches_double by simp

lemma smear_mask:
  fixes w :: u32
  assumes "unat w < 2 ^ L" "L = 0 \<or> 2 ^ (L - 1) \<le> unat w" "L \<le> 32" "reaches w v 32"
  shows "v = mask L"
proof (rule bit_word_eqI)
  fix n assume n: "n < LENGTH(32)"
  have b: "bit w m \<longleftrightarrow> odd (unat w div 2 ^ m)" for m
  proof -
    have "bit w m \<longleftrightarrow> bit (unat w) m" by (simp add: bit_unsigned_iff)
    then show ?thesis by (simp add: bit_iff_odd)
  qed
  have hi: "m < L" if "bit w m" for m
  proof (rule ccontr)
    assume "\<not> m < L"
    then have "(2::nat) ^ L \<le> 2 ^ m" by simp
    with assms(1) have "unat w < 2 ^ m" by (rule less_le_trans)
    then have "unat w div 2 ^ m = 0" by simp
    with that b show False by simp
  qed
  have top: "bit w (L - 1)" if "L \<noteq> 0"
  proof -
    have "unat w div 2 ^ (L - 1) = 1"
      using assms(1,2) that by (intro div_nat_eqI) (auto simp: power_eq_if)
    with b show ?thesis by simp
  qed
  have "bit v n \<longleftrightarrow> n < L"
  proof
    assume "bit v n"
    then obtain m where "n \<le> m" "bit w m" using assms(4) by (auto simp: reaches_def)
    with hi [of m] show "n < L" by simp
  next
    assume "n < L" then have "n \<le> L - 1" "L - 1 < n + 32" "bit w (L - 1)" using top assms(3) by auto
    then show "bit v n" using assms(4) by (auto simp: reaches_def)
  qed
  then show "bit v n = bit (mask L :: u32) n" using n by (simp add: bit_mask_iff)
qed

lemma bit_length_exists: "\<exists>L. (n::nat) < 2 ^ L \<and> (L = 0 \<or> 2 ^ (L - 1) \<le> n)"
proof -
  define L where "L = (LEAST L. n < 2 ^ L)"
  have "n < 2 ^ n" by (rule less_exp)
  then have L: "n < 2 ^ L" unfolding L_def by (rule LeastI)
  moreover have "2 ^ (L - 1) \<le> n" if "L \<noteq> 0"
  proof (rule ccontr)
    assume "\<not> 2 ^ (L - 1) \<le> n"
    then have "L \<le> L - 1" unfolding L_def by (intro Least_le) simp
    with that show False by simp
  qed
  ultimately show ?thesis by (intro exI [of _ L]) blast
qed

theorem NextPowerOfTwo_least:
  assumes "x \<noteq> 0" "unat x \<le> 2 ^ 31"
  shows "\<exists>k\<le>31. unat (NextPowerOfTwo x) = 2 ^ k \<and> unat x \<le> 2 ^ k \<and> (k = 0 \<or> 2 ^ (k - 1) < unat x)"
proof -
  have w: "unat (x - 1) = unat x - 1" "unat x \<noteq> 0"
    using assms(1) by (simp_all add: unat_minus_one unat_eq_zero)
  obtain L where L: "unat (x - 1) < 2 ^ L" "L = 0 \<or> 2 ^ (L - 1) \<le> unat (x - 1)"
    using bit_length_exists by blast
  have L31: "L \<le> 31"
  proof (rule ccontr)
    assume "\<not> L \<le> 31"
    then have "2 ^ 31 \<le> (2::nat) ^ (L - 1)" by (intro power_increasing) auto
    with L(2) \<open>\<not> L \<le> 31\<close> w assms(2) show False by auto
  qed
  let ?a = "(x - 1) OR drop_bit 1 (x - 1)"
  let ?b = "?a OR drop_bit 2 ?a"
  let ?c = "?b OR drop_bit 4 ?b"
  let ?d = "?c OR drop_bit 8 ?c"
  let ?e = "?d OR drop_bit 16 ?d"
  have "reaches (x - 1) ?a 2" by (rule reaches_doubleI [OF reaches_refl]) simp
  then have "reaches (x - 1) ?b 4" by (rule reaches_doubleI) simp
  then have "reaches (x - 1) ?c 8" by (rule reaches_doubleI) simp
  then have "reaches (x - 1) ?d 16" by (rule reaches_doubleI) simp
  then have "reaches (x - 1) ?e 32" by (rule reaches_doubleI) simp
  then have "?e = mask L" using smear_mask [OF L] L31 by simp
  then have "NextPowerOfTwo x = mask L + 1"
    using assms(1) by (simp add: NextPowerOfTwo_def Let_def)
  also have "mask L + 1 = (2 ^ L :: u32)" by (simp add: mask_eq_exp_minus_1)
  finally have "NextPowerOfTwo x = of_nat (2 ^ L)" by simp
  moreover have "(2::nat) ^ L < 2 ^ 32" using L31 by (intro power_strict_increasing) auto
  ultimately have "unat (NextPowerOfTwo x) = 2 ^ L"
    by (simp add: unat_of_nat del: of_nat_power)
  moreover have "unat x \<le> 2 ^ L" "L = 0 \<or> 2 ^ (L - 1) < unat x"
    using L w by auto
  ultimately show ?thesis using L31 by blast
qed

lemma NextPowerOfTwo_pos: "unat x \<le> 2 ^ 31 \<Longrightarrow> \<exists>k\<le>31. unat (NextPowerOfTwo x) = 2 ^ k"
  using NextPowerOfTwo_least [of x] by (cases "x = 0") (auto simp: NextPowerOfTwo_def intro: exI [of _ 0])

section \<open>The allocator object\<close>

abbreviation free_of :: "BuddySystem \<Rightarrow> nat set" where
  "free_of b \<equiv> free_pgs (tree b) 0 (level b) 0"

abbreviation blocks_of :: "BuddySystem \<Rightarrow> (nat \<times> nat) set" where
  "blocks_of b \<equiv> blocks (tree b) 0 (level b) 0"

abbreviation owned_of :: "BuddySystem \<Rightarrow> nat set" where
  "owned_of b \<equiv> owned (tree b) 0 (level b) 0"

text \<open>Every managed page is free or belongs to an allocated block, and the counter the readers
  use is the number of free pages.\<close>

definition buddy_inv :: "BuddySystem \<Rightarrow> bool" where
  "buddy_inv b \<longleftrightarrow>
     capacity_pages b = 2 ^ level b \<and> level b \<le> 29 \<and> 2 ^ (level b + 1) - 1 \<le> length (tree b) \<and>
     page_count b \<le> capacity_pages b \<and> 0 < page_count b \<and>
     node_wf (tree b) 0 (level b) \<and> free_of b \<union> owned_of b = {0..<page_count b} \<and>
     free_page_count b = card (free_of b)"

definition request_pages :: "int \<Rightarrow> nat" where
  "request_pages sz = unat (NextPowerOfTwo (if sz \<le> 0 then 1 else word_of_int sz))"

lemma request_pages_pow2:
  assumes "sz < 2 ^ 31"
  obtains a where "a \<le> 31" "request_pages sz = 2 ^ a"
proof -
  let ?w = "if sz \<le> 0 then 1 else word_of_int sz :: u32"
  have "unat ?w \<le> 2 ^ 31"
  proof (cases "sz \<le> 0")
    case False
    then have "uint (word_of_int sz :: u32) = sz" using assms by (simp add: uint_word_of_int)
    then show ?thesis using False assms by (simp add: unat_eq_nat_uint nat_le_iff)
  qed simp
  then show ?thesis using NextPowerOfTwo_pos that unfolding request_pages_def by blast
qed

lemma owned_takes:
  "takes t t' i k off p n \<Longrightarrow> owned t' i k off = owned t i k off \<union> {p..<p + n}"
  by (auto simp: takes_def owned_def)

lemma owned_gives:
  assumes "gives t t' i k off p n"
  shows "owned t' i k off = owned t i k off - {p..<p + n}"
proof -
  have pn: "(p, n) \<in> blocks t i k off" and b: "blocks t' i k off = blocks t i k off - {(p, n)}"
    using assms by (auto simp: gives_def)
  have "x \<notin> {p..<p + n}" if "(q, m) \<in> blocks t i k off - {(p, n)}" "x \<in> {q..<q + m}" for q m x
    using blocks_disjoint [OF pn, of q m x] that by blast
  then show ?thesis unfolding owned_def b by fastforce
qed

lemma Alloc_request:
  "Alloc b sz =
     (if capacity_pages b < request_pages sz then Some (b, -1)
      else do {
        (t, node) \<leftarrow> allocate_from_node (capacity_pages b) (tree b) 0 0 (request_pages sz);
        let b = b\<lparr>tree := t\<rparr>
        in case node of
             None \<Rightarrow> Some (b, -1)
           | Some n \<Rightarrow>
               do {
                 offset \<leftarrow> node_offset_pages (level b) n;
                 if page_count b \<le> offset then None
                 else if free_page_count b < request_pages sz then None
                 else Some (b\<lparr>free_page_count := free_page_count b - request_pages sz\<rparr>, int offset)
               }
      })"
  by (simp only: Alloc_def request_pages_def Let_def)

text \<open>\<open>Alloc\<close> in one equation: the request rounded up, the outcome of the tree walk.\<close>

lemma Alloc_outcome:
  assumes inv: "buddy_inv b" and sz: "sz < 2 ^ 31"
  shows "(\<exists>b' p. Alloc b sz = Some (b', int p) \<and> buddy_inv b' \<and> request_pages sz dvd p \<and>
       {p..<p + request_pages sz} \<subseteq> free_of b \<and> free_of b' = free_of b - {p..<p + request_pages sz} \<and>
       blocks_of b' = insert (p, request_pages sz) (blocks_of b) \<and>
       page_count b' = page_count b \<and> base_ptr b' = base_ptr b) \<or>
     (Alloc b sz = Some (b, -1) \<and>
       \<not> (\<exists>p. request_pages sz dvd p \<and> {p..<p + request_pages sz} \<subseteq> free_of b))"
proof -
  obtain a where a: "request_pages sz = 2 ^ a" using request_pages_pow2 [OF sz] by blast
  have cap: "capacity_pages b = 2 ^ level b" and len: "2 ^ (level b + 1) - 1 \<le> length (tree b)"
    and wf: "node_wf (tree b) 0 (level b)" and cov: "free_of b \<union> owned_of b = {0..<page_count b}"
    and cnt: "free_page_count b = card (free_of b)" and lv: "level b \<le> 29"
    using inv by (auto simp: buddy_inv_def)
  have fin: "finite (free_of b)" using cov by (metis finite_Un finite_atLeastLessThan)
  have fit: "2 ^ a \<le> max_free (tree b) 0 (level b) \<longleftrightarrow> (\<exists>p. 2 ^ a dvd p \<and> {p..<p + 2 ^ a} \<subseteq> free_of b)"
    by (rule max_free_fit [OF wf]) simp
  show ?thesis
  proof (cases "capacity_pages b < 2 ^ a")
    case True
    then have "\<not> 2 ^ a \<le> max_free (tree b) 0 (level b)"
      using max_free_le [of "tree b" 0 "level b"] cap by linarith
    with True fit a show ?thesis by (simp add: Alloc_request)
  next
    case False
    obtain t' r where out: "allocate_from_node (2 ^ level b) (tree b) 0 0 (2 ^ a) = Some (t', r)"
      "alloc_outcome (level b) (tree b) 0 (level b) a (t', r)"
      using allocate_from_node_outcome [OF at_depth_root _ len wf, of a] by auto
    have al: "Alloc b sz = (case r of None \<Rightarrow> Some (b\<lparr>tree := t'\<rparr>, -1)
       | Some n \<Rightarrow> if page_count b \<le> node_off (level b) n then None
           else if free_page_count b < 2 ^ a then None
           else Some (b\<lparr>tree := t', free_page_count := free_page_count b - 2 ^ a\<rparr>,
                      int (node_off (level b) n)))"
      using False a out cap node_offset_pages_eq [OF lv]
      by (cases r) (simp_all add: Alloc_request Let_def alloc_outcome_def)
    show ?thesis
    proof (cases r)
      case None
      then show ?thesis using al out(2) fit a by (auto simp: alloc_outcome_def)
    next
      case (Some n)
      let ?p = "node_off (level b) n"
      have tk: "takes (tree b) t' 0 (level b) 0 ?p (2 ^ a)" and dv: "2 ^ a dvd ?p"
        and wf': "node_wf t' 0 (level b)" and l': "length t' = length (tree b)"
        using out(2) Some by (auto simp: alloc_outcome_def)
      have sub: "{?p..<?p + 2 ^ a} \<subseteq> free_of b" using tk by (simp add: takes_def)
      have "?p \<in> free_of b" using sub by auto
      then have p: "?p < page_count b" using cov by auto
      have c: "2 ^ a \<le> free_page_count b" using card_mono [OF fin sub] cnt by simp
      have "buddy_inv (b\<lparr>tree := t', free_page_count := free_page_count b - 2 ^ a\<rparr>)"
        using inv tk wf' l' owned_takes [OF tk] sub fin cnt
        by (auto simp: buddy_inv_def takes_def card_Diff_subset)
      then show ?thesis using al Some p c tk dv a by (auto simp: takes_def)
    qed
  qed
qed

lemma query_page_free:
  assumes "buddy_inv b" "p \<in> free_of b"
  shows "\<exists>r. query_page b p = Some r \<and> in_range r \<and> is_free r"
proof -
  have "p < page_count b" using assms by (auto simp: buddy_inv_def)
  then show ?thesis
    using assms query_page_from_node_free [OF at_depth_root, of "level b" "level b" "tree b" p "page_count b" 0 0]
    by (simp add: buddy_inv_def query_page_def)
qed

lemma query_page_owned:
  assumes "buddy_inv b" "(q, n) \<in> blocks_of b" "q \<le> p" "p < q + n"
  shows "\<exists>r. query_page b p = Some r \<and> in_range r \<and> \<not> is_free r \<and> block_offset r = q \<and> block_pages r = n"
proof -
  have "p \<in> owned_of b" using assms(2-4) by (fastforce simp: owned_def)
  then have "p < page_count b" using assms(1) by (auto simp: buddy_inv_def)
  then show ?thesis
    using assms query_page_from_node_owned [OF at_depth_root, of "level b" "level b" "tree b" p "page_count b" q n 0 0]
    by (simp add: buddy_inv_def query_page_def)
qed

text \<open>A page that is not the start of an allocated block: the query of \<open>Free\<close> rejects it.\<close>

lemma query_page_other:
  assumes "buddy_inv b" "p < page_count b" "\<nexists>n. (p, n) \<in> blocks_of b"
  shows "\<exists>r. query_page b p = Some r \<and> (is_free r \<or> block_offset r \<noteq> p)"
proof -
  have "free_of b \<union> owned_of b = {0..<page_count b}" using assms(1) by (simp only: buddy_inv_def)
  then have "p \<in> free_of b \<or> p \<in> owned_of b" using assms(2) by (metis Un_iff atLeastLessThan_iff le0)
  then show ?thesis
  proof
    assume "p \<in> free_of b"
    then show ?thesis using query_page_free [OF assms(1)] by blast
  next
    assume "p \<in> owned_of b"
    then obtain q n where "(q, n) \<in> blocks_of b" "q \<le> p" "p < q + n" by (auto simp: owned_def)
    then show ?thesis using query_page_owned [OF assms(1)] assms(3) by metis
  qed
qed

lemma Free_block:
  assumes inv: "buddy_inv b" and blk: "(p, n) \<in> blocks_of b"
  shows "\<exists>b'. Free b (int p) = Some b' \<and> buddy_inv b' \<and> free_of b' = free_of b \<union> {p..<p + n} \<and>
     blocks_of b' = blocks_of b - {(p, n)} \<and> page_count b' = page_count b \<and> base_ptr b' = base_ptr b"
proof -
  have cap: "capacity_pages b = 2 ^ level b" and len: "2 ^ (level b + 1) - 1 \<le> length (tree b)"
    and wf: "node_wf (tree b) 0 (level b)" and cov: "free_of b \<union> owned_of b = {0..<page_count b}"
    and cnt: "free_page_count b = card (free_of b)" and lv: "level b \<le> 29"
    using inv by (auto simp: buddy_inv_def)
  have n: "0 < n" using blocks_bounds [OF blk] by simp
  have own: "{p..<p + n} \<subseteq> owned_of b" using blk by (auto simp: owned_def)
  with n have p: "p < page_count b" using cov by (auto simp: subset_eq)
  have dis: "free_of b \<inter> {p..<p + n} = {}" using own free_owned_disjoint by blast
  have fin: "finite (free_of b)" using cov by (metis finite_Un finite_atLeastLessThan)
  obtain r where r: "query_page b p = Some r" "in_range r" "\<not> is_free r" "block_offset r = p" "block_pages r = n"
    using query_page_owned [OF inv blk, of p] n by auto
  obtain t' where t': "free_from_node (2 ^ level b) (level b) (tree b) 0 0 p = Some (t', True)"
    "free_outcome (level b) (tree b) 0 (level b) p n t'"
    using free_from_node_outcome [OF lv at_depth_root _ len wf, of p n] blk by auto
  have g: "gives (tree b) t' 0 (level b) 0 p n" and wf': "node_wf t' 0 (level b)" "length t' = length (tree b)"
    using t'(2) by (auto simp: free_outcome_def)
  have card: "card (free_of b \<union> {p..<p + n}) = free_page_count b + n"
    using card_Un_disjoint [OF fin _ dis] cnt by simp
  have "free_of b \<union> {p..<p + n} \<subseteq> {0..<page_count b}" using cov own by blast
  then have "card (free_of b \<union> {p..<p + n}) \<le> page_count b"
    by (metis card_atLeastLessThan card_mono diff_zero finite_atLeastLessThan)
  then have room: "\<not> page_count b - n < free_page_count b" using card by simp
  let ?b = "b\<lparr>tree := t', free_page_count := free_page_count b + n\<rparr>"
  have "Free b (int p) = Some ?b"
    using p r t'(1) cap room by (simp add: Free_def)
  moreover have "buddy_inv ?b"
    using inv g wf' owned_gives [OF g] card cov own by (auto simp: buddy_inv_def gives_def)
  ultimately show ?thesis using g by (auto simp: gives_def)
qed

lemma Free_other:
  assumes "buddy_inv b" "\<nexists>p n. off = int p \<and> (p, n) \<in> blocks_of b"
  shows "Free b off = Some b"
proof (cases "off < 0 \<or> int (page_count b) \<le> off")
  case True
  then show ?thesis by (simp add: Free_def)
next
  case False
  then obtain p where p: "off = int p" "p < page_count b" by (metis nonneg_int_cases not_less of_nat_less_iff)
  with query_page_other [OF assms(1) p(2)] assms(2) show ?thesis
    by (auto simp: Free_def)
qed

lemma get_max_free_block_pages_eq:
  "buddy_inv b \<Longrightarrow> get_max_free_block_pages b = Some (max_free (tree b) 0 (level b))"
  using max_free_block_pages_eq [OF at_depth_root, of "level b" "level b" "tree b"]
  by (simp add: buddy_inv_def get_max_free_block_pages_def)

section \<open>Initialisation\<close>

lemma level_from_pow2: "l \<le> k \<Longrightarrow> level_from (2 ^ k) l = k"
proof (induction "k - l" arbitrary: l)
  case 0
  then show ?case by (subst level_from.simps) simp
next
  case (Suc d)
  then have "l < k" by simp
  then have "(2::nat) ^ l < 2 ^ k" by simp
  with Suc \<open>l < k\<close> show ?case by (subst level_from.simps) (simp add: Suc_leI)
qed

text \<open>After the bottom-up pass every inner node summarises its children.\<close>

definition rebuilt :: "NodeState \<Rightarrow> NodeState \<Rightarrow> NodeState" where
  "rebuilt l r = (if l = NODE_FULL \<and> r = NODE_FULL then NODE_FULL
     else if l = NODE_UNUSED \<and> r = NODE_UNUSED then NODE_UNUSED else NODE_SPLIT)"

lemma rebuild_parent_eq:
  assumes "n < m" "2 * m + 1 \<le> length t"
  shows "rebuild_parent (2 * m + 1) n t = Some (t[n := rebuilt (t ! lc n) (t ! rc n)])"
proof -
  have b: "lc n < 2 * m + 1" "rc n < 2 * m + 1" "lc n < length t" "rc n < length t" "n < length t"
    using assms by (auto simp: child_defs)
  have e: "n * 2 + 1 = lc n" "lc n + 1 = rc n" by (auto simp: child_defs)
  show ?thesis
    unfolding rebuild_parent_def Let_def e rebuilt_def using b by (simp add: not_le arr_get_in arr_set_in)
qed

lemma rebuild_parent_states_tree:
  assumes "2 * m + 1 \<le> length t" "n \<le> m"
  shows "\<exists>t'. for_each (rebuild_parent (2 * m + 1)) (rev [n..<m]) t = Some t' \<and> length t' = length t \<and>
     (\<forall>j\<ge>m. t' ! j = t ! j) \<and> (\<forall>i. n \<le> i \<and> i < m \<longrightarrow> t' ! i = rebuilt (t' ! lc i) (t' ! rc i))"
  using assms(2)
proof (induction rule: inc_induct)
  case base
  then show ?case by auto
next
  case (step n)
  then obtain t' where t': "for_each (rebuild_parent (2 * m + 1)) (rev [Suc n..<m]) t = Some t'"
    "length t' = length t" "\<forall>j\<ge>m. t' ! j = t ! j"
    "\<forall>i. Suc n \<le> i \<and> i < m \<longrightarrow> t' ! i = rebuilt (t' ! lc i) (t' ! rc i)"
    by blast
  let ?t = "t'[n := rebuilt (t' ! lc n) (t' ! rc n)]"
  have "rebuild_parent (2 * m + 1) n t' = Some ?t"
    by (rule rebuild_parent_eq) (use step assms t'(2) in auto)
  then have "for_each (rebuild_parent (2 * m + 1)) (rev [n..<m]) t = Some ?t"
    using t'(1) step(2) by (simp add: upt_conv_Cons for_each_append del: upt_Suc)
  moreover have "?t ! i = rebuilt (?t ! lc i) (?t ! rc i)" if "n \<le> i \<and> i < m" for i
  proof -
    have "lc i \<noteq> n" "rc i \<noteq> n" "n < length t'" using that t'(2) assms by (auto simp: child_defs)
    then show ?thesis using t'(4) that by (cases "i = n") simp_all
  qed
  ultimately show ?case using t'(2,3) step(2) by auto
qed

text \<open>A tree whose leaves are free up to \<open>pages\<close> and unusable beyond, with summarising parents.\<close>

lemma fresh_tree:
  assumes "at_depth i d" "d + k = lv"
    and leaf: "\<forall>j<2 ^ lv. t ! (2 ^ lv - 1 + j) = (if pages \<le> j then NODE_FULL else NODE_UNUSED)"
    and par: "\<forall>i<2 ^ lv - 1. t ! i = rebuilt (t ! lc i) (t ! rc i)"
  shows "node_wf t i k \<and> t ! i \<noteq> NODE_USED \<and> blocks t i k (node_off lv i) = {} \<and>
     free_pgs t i k (node_off lv i) =
       {node_off lv i..<node_off lv i + 2 ^ k} \<inter> {0..<pages}"
  using assms(1,2)
proof (induction k arbitrary: i d)
  case 0
  then have lvd: "lv = d" and r: "2 ^ lv \<le> i + 1" "i + 1 < 2 ^ (lv + 1)" by (auto simp: at_depth_def)
  have off: "node_off lv i = i + 1 - 2 ^ lv"
    using depth_of_eq [OF "0.prems"(1)] lvd by (simp add: node_off_def)
  have "i = 2 ^ lv - 1 + (i + 1 - 2 ^ lv)" "i + 1 - 2 ^ lv < 2 ^ lv" using r by auto
  then have "t ! i = (if pages \<le> i + 1 - 2 ^ lv then NODE_FULL else NODE_UNUSED)"
    using leaf by metis
  then show ?case using off by auto
next
  case (Suc k)
  have sd: "Suc d + k = lv" and dl: "d < lv" using Suc.prems(2) by auto
  have "(2::nat) ^ (d + 1) \<le> 2 ^ lv" using dl by (intro power_increasing) auto
  then have "i < 2 ^ lv - 1" using Suc.prems(1) unfolding at_depth_def by linarith
  note p = par [rule_format, OF this]
  note l = Suc.IH [OF at_depth_children(1) [OF Suc.prems(1)] sd]
    and r = Suc.IH [OF at_depth_children(2) [OF Suc.prems(1)] sd]
  have off: "node_off lv (lc i) = node_off lv i"
    "node_off lv (rc i) = node_off lv i + 2 ^ k"
    using node_offset_left [OF Suc.prems(1) dl] node_offset_right [OF Suc.prems(1) dl] sd by auto
  have s: "t ! i = summary (t ! lc i) (t ! rc i)"
    using p l r by (simp add: summary_def rebuilt_def)
  note m = merge_node [OF _ _ s]
  show ?case
    using m l r s off by (auto simp del: free_pgs.simps blocks.simps node_wf.simps)
qed

lemma mark_unusable_leaves_tree:
  assumes "2 ^ (level b + 1) - 1 \<le> length (tree b)" "capacity_pages b = 2 ^ level b" "level b \<le> 29"
  shows "\<exists>t. mark_unusable_leaves b = Some (b\<lparr>tree := t\<rparr>) \<and> length t = length (tree b) \<and>
     (\<forall>j<2 ^ level b. t ! (2 ^ level b - 1 + j) = (if page_count b \<le> j then NODE_FULL else NODE_UNUSED))"
proof -
  have nil: "[2 ^ level b - 1 + capacity_pages b..<2 ^ (level b + 1) - 1] = []"
    using assms(2) by simp
  have "\<exists>ys. for_each (\<lambda>i t. arr_set t (2 ^ level b - 1 + i) (if page_count b \<le> i then NODE_FULL else NODE_UNUSED))
       [0..<capacity_pages b] (tree b) = Some ys \<and> length ys = length (tree b) \<and>
     (\<forall>i\<in>set [0..<capacity_pages b]. ys ! (2 ^ level b - 1 + i) = (if page_count b \<le> i then NODE_FULL else NODE_UNUSED)) \<and>
     (\<forall>j. j \<notin> (\<lambda>i. 2 ^ level b - 1 + i) ` set [0..<capacity_pages b] \<longrightarrow> ys ! j = tree b ! j)"
    by (rule for_each_set) (use assms in \<open>auto simp: inj_on_def\<close>)
  then show ?thesis
    using assms(2,3) nil by (auto simp: mark_unusable_leaves_def Let_def)
qed

lemma capacity_pages_for_pow2:
  assumes "unat w \<le> 2 ^ 30"
  obtains k where "k \<le> 30" "unat (capacity_pages_for w) = 2 ^ k" "max 1 (unat w) \<le> 2 ^ k"
    "unat (required_tree_bytes w) = 2 * 2 ^ k - 1" "k \<le> 29 \<longleftrightarrow> unat w \<le> 2 ^ 29"
proof -
  let ?w = "if w \<noteq> 0 then w else 1"
  have uw: "unat ?w = max 1 (unat w)"
    using unat_eq_zero [of w] by (cases "w = 0") (auto simp: max_def)
  have "unat ?w \<le> 2 ^ 31" "?w \<noteq> 0" using assms uw by auto
  then obtain k where k: "unat (capacity_pages_for w) = 2 ^ k" "unat ?w \<le> 2 ^ k" "k = 0 \<or> 2 ^ (k - 1) < unat ?w"
    using NextPowerOfTwo_least [of ?w] unfolding capacity_pages_for_def by blast
  have k30: "k \<le> 30"
  proof (rule ccontr)
    assume "\<not> k \<le> 30"
    then have "2 ^ 30 \<le> (2::nat) ^ (k - 1)" by (intro power_increasing) auto
    with k(3) \<open>\<not> k \<le> 30\<close> assms uw show False by auto
  qed
  then have le: "(2::nat) ^ k \<le> 2 ^ 30" by (intro power_increasing) auto
  let ?c = "capacity_pages_for w"
  have "required_tree_bytes w = (of_nat (2 * 2 ^ k - 1) :: u64)"
  proof -
    have "(ucast ?c :: u64) = of_nat (unat ?c)" by simp
    then show ?thesis using k(1) by (simp add: required_tree_bytes_def Let_def of_nat_diff)
  qed
  then have "unat (required_tree_bytes w) = (2 * 2 ^ k - 1) mod 2 ^ 64"
    by (simp add: unat_of_nat del: of_nat_diff)
  also have "\<dots> = 2 * 2 ^ k - 1" using le by (intro mod_less) simp
  finally have "unat (required_tree_bytes w) = 2 * 2 ^ k - 1" .
  moreover have "k \<le> 29 \<longleftrightarrow> unat w \<le> 2 ^ 29"
  proof (cases "k \<le> 29")
    case True
    then have "(2::nat) ^ k \<le> 2 ^ 29" by (intro power_increasing) auto
    with True k(2) uw show ?thesis by auto
  next
    case False
    then have "k = 30" using k30 by simp
    with k(3) uw show ?thesis by auto
  qed
  ultimately show ?thesis using that k30 k uw by metis
qed

theorem Initialize_fresh:
  assumes "unat total_pages \<le> 2 ^ 29" "required_tree_bytes total_pages \<le> tree_storage_bytes"
    and "unat tree_storage_bytes \<le> length storage"
  shows "\<exists>b. Initialize baseptr total_pages (Some storage) tree_storage_bytes = Some b \<and> buddy_inv b \<and>
     page_count b = max 1 (unat total_pages) \<and> free_of b = {0..<page_count b} \<and> blocks_of b = {} \<and>
     base_ptr b = baseptr"
proof -
  let ?w = "if total_pages \<noteq> 0 then total_pages else 1"
  have uw: "unat ?w = max 1 (unat total_pages)"
    using unat_eq_zero [of total_pages] by (cases "total_pages = 0") (auto simp: max_def)
  have cw: "capacity_pages_for ?w = capacity_pages_for total_pages" "required_tree_bytes ?w = required_tree_bytes total_pages"
    by (simp_all add: capacity_pages_for_def required_tree_bytes_def)
  have "unat total_pages \<le> 2 ^ 30" using assms(1) by simp
  then obtain k where k: "k \<le> 29" "unat (capacity_pages_for total_pages) = 2 ^ k" "max 1 (unat total_pages) \<le> 2 ^ k"
    "unat (required_tree_bytes total_pages) = 2 * 2 ^ k - 1"
    using capacity_pages_for_pow2 [of total_pages] assms(1) by metis
  have len: "2 * 2 ^ k - 1 \<le> length storage"
    using assms(2,3) k(4) by (simp add: word_le_nat_alt)
  obtain t0 where t0: "for_each (\<lambda>i t. arr_set t i NODE_UNUSED) [0..<unat (required_tree_bytes total_pages)] storage = Some t0"
    "length t0 = length storage"
    using for_each_set [of "[0..<2 * 2 ^ k - 1]" "\<lambda>i. i" storage "\<lambda>_. NODE_UNUSED"] len k(4) by auto
  define b0 where "b0 = \<lparr>page_count = unat ?w, capacity_pages = 2 ^ k, free_page_count = unat ?w,
     level = k, tree = t0, base_ptr = baseptr\<rparr>"
  have b0: "level b0 = k" "capacity_pages b0 = 2 ^ k" "tree b0 = t0" "page_count b0 = unat ?w"
    "base_ptr b0 = baseptr" "free_page_count b0 = unat ?w"
    by (simp_all add: b0_def)
  have "2 ^ (level b0 + 1) - 1 \<le> length (tree b0)" "capacity_pages b0 = 2 ^ level b0" "level b0 \<le> 29"
    using b0 t0(2) len k(1) by auto
  from mark_unusable_leaves_tree [OF this] obtain t1 where t1: "mark_unusable_leaves b0 = Some (b0\<lparr>tree := t1\<rparr>)"
    "length t1 = length storage"
    "\<forall>j<2 ^ k. t1 ! (2 ^ k - 1 + j) = (if unat ?w \<le> j then NODE_FULL else NODE_UNUSED)"
    using b0 t0(2) by auto
  have m: "2 * (2 ^ k - 1) + 1 = 2 ^ (k + 1) - (1::nat)"
    using one_le_power [of "2::nat" k] by (simp only: power_add power_one_right) linarith
  have "2 * (2 ^ k - 1) + 1 \<le> length t1" using t1(2) len m by simp
  from rebuild_parent_states_tree [OF this, of 0, unfolded m] obtain t2 where t2:
    "for_each (rebuild_parent (2 ^ (k + 1) - 1)) (rev [0..<2 ^ k - 1]) t1 = Some t2" "length t2 = length storage"
    "\<forall>j\<ge>2 ^ k - 1. t2 ! j = t1 ! j"
    "\<forall>i<2 ^ k - 1. t2 ! i = rebuilt (t2 ! lc i) (t2 ! rc i)"
    using t1(2) by auto
  let ?b = "b0\<lparr>tree := t2\<rparr>"
  have "Initialize baseptr total_pages (Some storage) tree_storage_bytes = Some ?b"
    using t0(1) t1(1) t2(1) k(1,2) assms(2) b0 cw
    by (simp add: Initialize_def Let_def not_less b0_def [symmetric] level_from_pow2 rebuild_parent_states_def)
  moreover have fresh: "node_wf t2 0 k" "blocks t2 0 k 0 = {}" "free_pgs t2 0 k 0 = {0..<unat ?w}"
    using fresh_tree [OF at_depth_root, of k k t2 "unat ?w"] t1(3) t2(3,4) k(3) uw by (auto simp: min_absorb2)
  moreover have "buddy_inv ?b"
    using fresh b0 k t2(2) len uw by (auto simp: buddy_inv_def owned_def)
  ultimately show ?thesis using uw b0 by auto
qed

text \<open>A region of more than \<open>2 ^ 29\<close> pages has a tree of 30 levels or more: the number of its
  nodes leaves \<open>int\<close> in \<open>mark_unusable_leaves\<close>.\<close>

lemma Initialize_too_large:
  assumes "2 ^ 29 < unat total_pages" "unat total_pages \<le> 2 ^ 31"
  shows "Initialize baseptr total_pages storage tree_storage_bytes = None"
proof -
  have nz: "total_pages \<noteq> 0" using assms(1) by auto
  then obtain k where k: "unat (capacity_pages_for total_pages) = 2 ^ k" "unat total_pages \<le> 2 ^ k"
    using NextPowerOfTwo_least [OF _ assms(2)] by (auto simp: capacity_pages_for_def)
  then have "(2::nat) ^ 29 < 2 ^ k" using assms(1) by linarith
  then have "29 < k" by (rule power_less_imp_less_exp [rotated]) simp
  moreover have "level_from (unat (capacity_pages_for total_pages)) 0 = k"
    using k(1) level_from_pow2 [of 0 k] by simp
  ultimately show ?thesis using nz
    by (cases storage) (simp_all add: Initialize_def Let_def mark_unusable_leaves_def)
qed

end
