(* ===== verification/Page_Interface.thy ===== *)
theory Page_Interface
  imports Prelude
begin

text \<open>
  The contract between a page allocator and its clients (the heap manager, the physical memory
  manager and the page tables of the kernel all call \<open>Alloc\<close> and \<open>Free\<close> of
  \<open>src/kernel/mem/buddysystem.cc\<close> through it): what a successful allocation hands out, when an
  allocation may fail, what releasing a block gives back, and that releasing anything else changes
  nothing. Pages are offsets from the base of the managed region; \<open>blks\<close> is the set of the
  live blocks, each with its length; \<open>need\<close> is the number of pages a request is rounded up to.
  The lemmas of the locale are the facts clients use, proved once from the contract.
\<close>

datatype page_op = Op_Alloc int | Op_Free int

primrec run_page_ops ::
  "('s \<Rightarrow> int \<Rightarrow> ('s \<times> int) option) \<Rightarrow> ('s \<Rightarrow> int \<Rightarrow> 's option) \<Rightarrow> page_op list \<Rightarrow> 's \<Rightarrow> ('s \<times> int list) option" where
  "run_page_ops alloc release [] s = Some (s, [])"
| "run_page_ops alloc release (op # ops) s =
     (case op of
        Op_Alloc sz \<Rightarrow> do {
          (s, off) \<leftarrow> alloc s sz;
          (s, offs) \<leftarrow> run_page_ops alloc release ops s;
          Some (s, off # offs)
        }
      | Op_Free off \<Rightarrow> do {
          s \<leftarrow> release s off;
          run_page_ops alloc release ops s
        })"

text \<open>The sizes of a sequence of requests are values of the C++ type \<open>int\<close>.\<close>

definition int_sizes :: "page_op list \<Rightarrow> bool" where
  "int_sizes ops \<longleftrightarrow> list_all (\<lambda>op. case op of Op_Alloc sz \<Rightarrow> sz < 2 ^ 31 | Op_Free _ \<Rightarrow> True) ops"

locale page_allocator =
  fixes inv :: "'s \<Rightarrow> bool"
    and free :: "'s \<Rightarrow> nat set"
    and blks :: "'s \<Rightarrow> (nat \<times> nat) set"
    and need :: "int \<Rightarrow> nat"
    and alloc :: "'s \<Rightarrow> int \<Rightarrow> ('s \<times> int) option"
    and release :: "'s \<Rightarrow> int \<Rightarrow> 's option"
  assumes need_pos: "sz < 2 ^ 31 \<Longrightarrow> 0 < need sz"
    and blks_apart: "inv s \<Longrightarrow> (p, n) \<in> blks s \<Longrightarrow> (q, m) \<in> blks s \<Longrightarrow>
      x \<in> {p..<p + n} \<Longrightarrow> x \<in> {q..<q + m} \<Longrightarrow> (p, n) = (q, m)"
    and blks_not_free: "inv s \<Longrightarrow> (p, n) \<in> blks s \<Longrightarrow> free s \<inter> {p..<p + n} = {}"
    and blks_pos: "inv s \<Longrightarrow> (p, n) \<in> blks s \<Longrightarrow> 0 < n"
    and alloc_law: "inv s \<Longrightarrow> sz < 2 ^ 31 \<Longrightarrow>
      (\<exists>s' p. alloc s sz = Some (s', int p) \<and> inv s' \<and> need sz dvd p \<and>
         {p..<p + need sz} \<subseteq> free s \<and> free s' = free s - {p..<p + need sz} \<and>
         blks s' = insert (p, need sz) (blks s)) \<or>
      (alloc s sz = Some (s, -1) \<and> (\<nexists>p. need sz dvd p \<and> {p..<p + need sz} \<subseteq> free s))"
    and release_block: "inv s \<Longrightarrow> (p, n) \<in> blks s \<Longrightarrow>
      \<exists>s'. release s (int p) = Some s' \<and> inv s' \<and> free s' = free s \<union> {p..<p + n} \<and>
        blks s' = blks s - {(p, n)}"
    and release_other: "inv s \<Longrightarrow> \<nexists>p n. off = int p \<and> (p, n) \<in> blks s \<Longrightarrow> release s off = Some s"
begin

lemma alloc_cases:
  assumes "inv s" "sz < 2 ^ 31"
  obtains (fit) s' p where "alloc s sz = Some (s', int p)" "inv s'" "need sz dvd p"
      "{p..<p + need sz} \<subseteq> free s" "free s' = free s - {p..<p + need sz}"
      "blks s' = insert (p, need sz) (blks s)"
    | (full) "alloc s sz = Some (s, -1)" "\<nexists>p. need sz dvd p \<and> {p..<p + need sz} \<subseteq> free s"
  using alloc_law [OF assms] by blast

text \<open>A fresh block overlaps no live block.\<close>

lemma alloc_apart:
  assumes "inv s" "sz < 2 ^ 31" "alloc s sz = Some (s', off)" "off \<noteq> -1" "(q, m) \<in> blks s"
  shows "{nat off..<nat off + need sz} \<inter> {q..<q + m} = {}"
proof (rule alloc_cases [OF assms(1,2)])
  fix t p assume "alloc s sz = Some (t, int p)" "{p..<p + need sz} \<subseteq> free s"
  moreover from this(1) have "nat off = p" using assms(3) by auto
  ultimately show ?thesis using blks_not_free [OF assms(1,5)] by blast
qed (use assms in simp)

text \<open>Allocating and releasing gives the pages back; nothing else changed hands.\<close>

lemma alloc_release:
  assumes "inv s" "sz < 2 ^ 31" "alloc s sz = Some (s', off)" "off \<noteq> -1"
  shows "\<exists>s''. release s' off = Some s'' \<and> inv s'' \<and> free s'' = free s \<and> blks s'' = blks s"
proof (rule alloc_cases [OF assms(1,2)])
  fix t p
  assume t: "alloc s sz = Some (t, int p)" "inv t" "{p..<p + need sz} \<subseteq> free s"
    "free t = free s - {p..<p + need sz}" "blks t = insert (p, need sz) (blks s)"
  have "p \<in> {p..<p + need sz}" using need_pos [OF assms(2)] by simp
  then have new: "(p, need sz) \<notin> blks s"
    using blks_not_free [OF assms(1), of p "need sz"] t(3) by blast
  have "(p, need sz) \<in> blks t" using t(5) by simp
  from release_block [OF t(2) this] show ?thesis using t assms(3) new by auto
qed (use assms in simp)

text \<open>Releasing a block twice is releasing it once.\<close>

lemma release_twice:
  assumes "inv s" "release s off = Some s'"
  shows "release s' off = Some s'"
proof (cases "\<exists>p n. off = int p \<and> (p, n) \<in> blks s")
  case True
  then obtain p n where p: "off = int p" "(p, n) \<in> blks s" by blast
  from release_block [OF assms(1) p(2)] have s': "inv s'" "blks s' = blks s - {(p, n)}"
    using assms(2) p(1) by auto
  have "(p, m) \<notin> blks s'" for m
    using s'(2) blks_apart [OF assms(1) p(2), of p m p] blks_pos [OF assms(1), of p] p(2) by auto
  then have "\<nexists>q m. off = int q \<and> (q, m) \<in> blks s'" using p(1) by auto
  then show ?thesis by (rule release_other [OF s'(1)])
next
  case False
  then have "release s off = Some s" by (intro release_other [OF assms(1)]) blast
  then show ?thesis using assms(2) by simp
qed

lemma release_inv:
  assumes "inv s"
  shows "\<exists>s'. release s off = Some s' \<and> inv s' \<and> free s \<subseteq> free s' \<and> blks s' \<subseteq> blks s \<and>
    free s' \<union> (\<Union>(p, n)\<in>blks s'. {p..<p + n}) = free s \<union> (\<Union>(p, n)\<in>blks s. {p..<p + n})"
proof (cases "\<exists>p n. off = int p \<and> (p, n) \<in> blks s")
  case True
  then obtain p n where p: "off = int p" "(p, n) \<in> blks s" by blast
  have "(\<Union>(p, n)\<in>blks s. {p..<p + n}) = {p..<p + n} \<union> (\<Union>(p, n)\<in>blks s - {(p, n)}. {p..<p + n})"
    using p(2) by auto
  moreover obtain s' where "release s (int p) = Some s'" "inv s'" "free s' = free s \<union> {p..<p + n}"
    "blks s' = blks s - {(p, n)}"
    using release_block [OF assms p(2)] by blast
  ultimately show ?thesis unfolding p(1) by (intro exI [of _ s']) (simp add: Un_assoc)
next
  case False
  then have "release s off = Some s" by (intro release_other [OF assms]) blast
  then show ?thesis using assms by auto
qed

lemma alloc_inv:
  assumes "inv s" "sz < 2 ^ 31"
  shows "\<exists>s' off. alloc s sz = Some (s', off) \<and> inv s' \<and>
    free s' \<union> (\<Union>(p, n)\<in>blks s'. {p..<p + n}) = free s \<union> (\<Union>(p, n)\<in>blks s. {p..<p + n})"
proof (rule alloc_cases [OF assms])
  fix t p assume "alloc s sz = Some (t, int p)" "inv t" "{p..<p + need sz} \<subseteq> free s"
    "free t = free s - {p..<p + need sz}" "blks t = insert (p, need sz) (blks s)"
  then show ?thesis by auto
qed (use assms in auto)

text \<open>No sequence of requests faults, and none loses or invents a page.\<close>

lemma run_page_ops_safe:
  assumes "inv s" "int_sizes ops"
  shows "\<exists>s' offs. run_page_ops alloc release ops s = Some (s', offs) \<and> inv s' \<and>
    free s' \<union> (\<Union>(p, n)\<in>blks s'. {p..<p + n}) = free s \<union> (\<Union>(p, n)\<in>blks s. {p..<p + n})"
  using assms
proof (induction ops arbitrary: s)
  case Nil
  then show ?case by simp
next
  case (Cons op ops)
  have ops: "int_sizes ops" using Cons.prems(2) by (simp add: int_sizes_def)
  show ?case
  proof (cases op)
    case (Op_Alloc sz)
    with Cons.prems have "sz < 2 ^ 31" by (simp add: int_sizes_def)
    from alloc_inv [OF Cons.prems(1) this] Cons.IH [OF _ ops] Op_Alloc show ?thesis by fastforce
  next
    case (Op_Free off)
    from release_inv [OF Cons.prems(1), of off] Cons.IH [OF _ ops] Op_Free show ?thesis by fastforce
  qed
qed

end

end
