(* ===== verification/Buddy_Theorems.thy ===== *)
theory Buddy_Theorems
  imports Buddy_Spec Page_Interface
begin

text \<open>
  What the buddy allocator of \<open>src/kernel/mem/buddysystem.cc\<close> guarantees: the interpretation of
  the page allocator contract on \<^const>\<open>Alloc\<close> and \<^const>\<open>Free\<close>, and the properties of each public
  operation, with concrete instances on a six-page region (capacity 8, two unusable pages).
\<close>

lemma blocks_of_pos: "(p, n) \<in> blocks_of b \<Longrightarrow> 0 < n"
  using blocks_bounds [of p n "tree b" 0 "level b" 0] by simp

lemma blocks_of_not_free: "(p, n) \<in> blocks_of b \<Longrightarrow> free_of b \<inter> {p..<p + n} = {}"
  using free_owned_disjoint [of "tree b" 0 "level b" 0] by (auto simp: owned_def)

lemma request_pages_pos: "sz < 2 ^ 31 \<Longrightarrow> 0 < request_pages sz"
  by (metis request_pages_pow2 zero_less_numeral zero_less_power)

interpretation pages: page_allocator buddy_inv "\<lambda>b. free_of b" "\<lambda>b. blocks_of b" request_pages Alloc Free
proof unfold_locales
  fix s sz p n q m x off
  show "sz < 2 ^ 31 \<Longrightarrow> 0 < request_pages sz" by (rule request_pages_pos)
  show "(p, n) = (q, m)" if "(p, n) \<in> blocks_of s" "(q, m) \<in> blocks_of s" "x \<in> {p..<p + n}" "x \<in> {q..<q + m}"
    using that by (rule blocks_disjoint)
  show "free_of s \<inter> {p..<p + n} = {}" "0 < n" if "(p, n) \<in> blocks_of s"
    using that by (rule blocks_of_not_free, rule blocks_of_pos)
  show "(\<exists>s' p. Alloc s sz = Some (s', int p) \<and> buddy_inv s' \<and> request_pages sz dvd p \<and>
         {p..<p + request_pages sz} \<subseteq> free_of s \<and> free_of s' = free_of s - {p..<p + request_pages sz} \<and>
         blocks_of s' = insert (p, request_pages sz) (blocks_of s)) \<or>
      (Alloc s sz = Some (s, -1) \<and> (\<nexists>p. request_pages sz dvd p \<and> {p..<p + request_pages sz} \<subseteq> free_of s))"
    if "buddy_inv s" "sz < 2 ^ 31"
    using Alloc_outcome [OF that] by blast
  show "\<exists>s'. Free s (int p) = Some s' \<and> buddy_inv s' \<and> free_of s' = free_of s \<union> {p..<p + n} \<and>
        blocks_of s' = blocks_of s - {(p, n)}" if "buddy_inv s" "(p, n) \<in> blocks_of s"
    using Free_block [OF that] by blast
  show "Free s off = Some s" if "buddy_inv s" "\<nexists>p n. off = int p \<and> (p, n) \<in> blocks_of s"
    using that by (rule Free_other)
qed

text \<open>The region after initialisation, used by the concrete instances below.\<close>

definition demo_buddy :: BuddySystem where
  "demo_buddy = \<lparr>page_count = 6, capacity_pages = 8, free_page_count = 6, level = 3,
     tree = [NODE_SPLIT, NODE_UNUSED, NODE_SPLIT, NODE_UNUSED, NODE_UNUSED, NODE_UNUSED, NODE_FULL,
             NODE_UNUSED, NODE_UNUSED, NODE_UNUSED, NODE_UNUSED, NODE_UNUSED, NODE_UNUSED, NODE_FULL, NODE_FULL],
     base_ptr = 0x80200000\<rparr>"

lemma demo_buddy_Initialize:
  "Initialize 0x80200000 6 (Some (replicate 15 NODE_USED)) 15 = Some demo_buddy"
  by code_simp

lemma demo_buddy_inv: "buddy_inv demo_buddy"
  by code_simp

text \<open>C1. \<open>Alloc\<close> is sound and complete: on a well-formed allocator it never panics; if some
  naturally aligned run of free pages of the rounded-up size exists, it returns the start of such a
  run and exactly these pages change from free to one new live block; otherwise it returns
  \<open>-1\<close> and changes nothing.\<close>

theorem Alloc_correct:
  assumes "buddy_inv b" "sz < 2 ^ 31"
  shows "\<exists>b' off. Alloc b sz = Some (b', off) \<and> buddy_inv b' \<and>
    (if \<exists>p. request_pages sz dvd p \<and> {p..<p + request_pages sz} \<subseteq> free_of b
     then 0 \<le> off \<and> request_pages sz dvd nat off \<and> {nat off..<nat off + request_pages sz} \<subseteq> free_of b \<and>
          free_of b' = free_of b - {nat off..<nat off + request_pages sz} \<and>
          blocks_of b' = insert (nat off, request_pages sz) (blocks_of b)
     else off = -1 \<and> b' = b)"
proof (rule pages.alloc_cases [OF assms])
  fix b' p
  assume "Alloc b sz = Some (b', int p)" "buddy_inv b'" "request_pages sz dvd p"
    "{p..<p + request_pages sz} \<subseteq> free_of b" "free_of b' = free_of b - {p..<p + request_pages sz}"
    "blocks_of b' = insert (p, request_pages sz) (blocks_of b)"
  then show ?thesis by (intro exI [of _ b'] exI [of _ "int p"]) auto
qed (use assms(1) in auto)

theorem Alloc_correct_witness:
  "\<exists>b' off. Alloc demo_buddy 3 = Some (b', off) \<and> buddy_inv b' \<and>
    (if \<exists>p. request_pages 3 dvd p \<and> {p..<p + request_pages 3} \<subseteq> free_of demo_buddy
     then 0 \<le> off \<and> request_pages 3 dvd nat off \<and> {nat off..<nat off + request_pages 3} \<subseteq> free_of demo_buddy \<and>
          free_of b' = free_of demo_buddy - {nat off..<nat off + request_pages 3} \<and>
          blocks_of b' = insert (nat off, request_pages 3) (blocks_of demo_buddy)
     else off = -1 \<and> b' = demo_buddy)"
  by (rule Alloc_correct [OF demo_buddy_inv]) simp

text \<open>C2. \<open>Free\<close> releases exactly the live block that starts at the given offset; for any other
  argument (out of range, a free page, the inside of a block, a second release) it changes nothing.
  It never panics on a well-formed allocator.\<close>

theorem Free_correct:
  assumes "buddy_inv b"
  shows "\<exists>b'. Free b off = Some b' \<and> buddy_inv b' \<and>
    (if \<exists>n. 0 \<le> off \<and> (nat off, n) \<in> blocks_of b
     then \<exists>n. (nat off, n) \<in> blocks_of b \<and> free_of b' = free_of b \<union> {nat off..<nat off + n} \<and>
          blocks_of b' = blocks_of b - {(nat off, n)}
     else b' = b)"
proof (cases "\<exists>n. 0 \<le> off \<and> (nat off, n) \<in> blocks_of b")
  case True
  then obtain n where "0 \<le> off" "(nat off, n) \<in> blocks_of b" by blast
  with Free_block [OF assms this(2)] show ?thesis by auto
next
  case False
  then have "\<nexists>p n. off = int p \<and> (p, n) \<in> blocks_of b" by (metis nat_int of_nat_0_le_iff)
  with False show ?thesis using Free_other [OF assms] assms by auto
qed

theorem Free_correct_witness:
  "\<exists>b'. Free demo_buddy 4 = Some b' \<and> buddy_inv b' \<and>
    (if \<exists>n. 0 \<le> (4::int) \<and> (nat 4, n) \<in> blocks_of demo_buddy
     then \<exists>n. (nat 4, n) \<in> blocks_of demo_buddy \<and> free_of b' = free_of demo_buddy \<union> {nat 4..<nat 4 + n} \<and>
          blocks_of b' = blocks_of demo_buddy - {(nat 4, n)}
     else b' = demo_buddy)"
  by (rule Free_correct [OF demo_buddy_inv])

text \<open>C3. \<open>Initialize\<close> on enough storage and at most \<open>2 ^ 29\<close> pages establishes the invariant
  with every managed page free and no block live. For every other region of at most \<open>2 ^ 31\<close>
  pages it fails: it panics when the storage is missing or too small, and computes a node count
  that overflows \<open>int\<close> when the pages are more than \<open>2 ^ 29\<close>.\<close>

theorem Initialize_correct:
  assumes "unat total_pages \<le> 2 ^ 31"
    and "storage = Some cells \<or> storage = None" "unat tree_storage_bytes \<le> length cells"
  shows "if storage \<noteq> None \<and> required_tree_bytes total_pages \<le> tree_storage_bytes \<and> unat total_pages \<le> 2 ^ 29
    then \<exists>b. Initialize baseptr total_pages storage tree_storage_bytes = Some b \<and> buddy_inv b \<and>
      page_count b = max 1 (unat total_pages) \<and> free_of b = {0..<page_count b} \<and> blocks_of b = {} \<and>
      base_ptr b = baseptr
    else Initialize baseptr total_pages storage tree_storage_bytes = None"
proof (cases "unat total_pages \<le> 2 ^ 29")
  case pages: True
  show ?thesis
  proof (cases "storage \<noteq> None \<and> required_tree_bytes total_pages \<le> tree_storage_bytes")
    case True
    with pages assms(2,3) show ?thesis using Initialize_fresh [OF pages, of tree_storage_bytes cells baseptr] by auto
  next
    case False
    have "required_tree_bytes (if total_pages \<noteq> 0 then total_pages else 1) = required_tree_bytes total_pages"
      by (simp add: required_tree_bytes_def capacity_pages_for_def)
    with False show ?thesis by (auto simp: Initialize_def Let_def not_le split: option.split)
  qed
next
  case False
  then show ?thesis using Initialize_too_large [OF _ assms(1)] by simp
qed

theorem Initialize_correct_witness:
  "(if Some (replicate 15 NODE_USED) \<noteq> None \<and> required_tree_bytes 6 \<le> 15 \<and> unat (6 :: u32) \<le> 2 ^ 29
    then \<exists>b. Initialize 0x80200000 6 (Some (replicate 15 NODE_USED)) 15 = Some b \<and> buddy_inv b \<and>
      page_count b = max 1 (unat (6 :: u32)) \<and> free_of b = {0..<page_count b} \<and> blocks_of b = {} \<and>
      base_ptr b = 0x80200000
    else Initialize 0x80200000 6 (Some (replicate 15 NODE_USED)) 15 = None)"
  by (rule Initialize_correct [of 6 _ "replicate 15 NODE_USED"]) simp_all

text \<open>C4. No sequence of \<open>Alloc\<close> and \<open>Free\<close> calls, with any arguments, panics or corrupts
  the allocator: the invariant holds afterwards, the pages are still exactly those that are free or
  belong to a live block, and the counter readers use is the number of free pages.\<close>

theorem buddy_run_safe:
  assumes "buddy_inv b" "int_sizes ops"
  shows "\<exists>b' offs. run_page_ops Alloc Free ops b = Some (b', offs) \<and> buddy_inv b' \<and>
    free_of b' \<union> owned_of b' = free_of b \<union> owned_of b \<and> get_free_page_count b' = card (free_of b')"
  using pages.run_page_ops_safe [OF assms]
  by (auto simp: owned_def get_free_page_count_def buddy_inv_def)

theorem buddy_run_safe_witness:
  "\<exists>b' offs. run_page_ops Alloc Free [Op_Alloc 2, Op_Alloc 3, Op_Free 0, Op_Free 1, Op_Free 0, Op_Alloc 5] demo_buddy =
      Some (b', offs) \<and> buddy_inv b' \<and>
    free_of b' \<union> owned_of b' = free_of demo_buddy \<union> owned_of demo_buddy \<and>
    get_free_page_count b' = card (free_of b')"
  by (rule buddy_run_safe [OF demo_buddy_inv]) (simp add: int_sizes_def)

text \<open>Allocating and then releasing is the identity on the sets of free pages and live blocks,
  and the new block overlapped no live one.\<close>

theorem Alloc_Free_roundtrip:
  assumes "buddy_inv b" "sz < 2 ^ 31" "Alloc b sz = Some (b', off)" "off \<noteq> -1"
  shows "\<exists>b''. Free b' off = Some b'' \<and> buddy_inv b'' \<and> free_of b'' = free_of b \<and>
    blocks_of b'' = blocks_of b \<and> {nat off..<nat off + request_pages sz} \<inter> owned_of b = {}"
proof -
  have "{nat off..<nat off + request_pages sz} \<inter> owned_of b = {}"
    using pages.alloc_apart [OF assms] unfolding owned_def by blast
  then show ?thesis using pages.alloc_release [OF assms] by blast
qed

theorem Alloc_Free_roundtrip_witness:
  "\<exists>b''. Free (fst (the (Alloc demo_buddy 2))) 0 = Some b'' \<and> buddy_inv b'' \<and> free_of b'' = free_of demo_buddy \<and>
    blocks_of b'' = blocks_of demo_buddy \<and> {nat 0..<nat 0 + request_pages 2} \<inter> owned_of demo_buddy = {}"
proof (rule Alloc_Free_roundtrip [OF demo_buddy_inv])
  show "Alloc demo_buddy 2 = Some (fst (the (Alloc demo_buddy 2)), 0)" by code_simp
qed simp_all

text \<open>\<open>query_page\<close> reports the state of every page exactly: out of range, free, or the start
  and length of the one live block that contains it.\<close>

theorem query_page_correct:
  assumes "buddy_inv b"
  shows "\<exists>r. query_page b p = Some r \<and> in_range r = (p < page_count b) \<and> is_free r = (p \<in> free_of b) \<and>
    (p \<in> owned_of b \<longrightarrow> (block_offset r, block_pages r) \<in> blocks_of b \<and>
       p \<in> {block_offset r..<block_offset r + block_pages r})"
proof -
  have cov: "free_of b \<union> owned_of b = {0..<page_count b}" using assms by (simp only: buddy_inv_def)
  consider "p \<in> free_of b" | "p \<in> owned_of b" | "\<not> p < page_count b"
    using cov by (metis Un_iff atLeastLessThan_iff le0)
  then show ?thesis
  proof cases
    case 1
    moreover have "p < page_count b" "p \<notin> owned_of b"
      using 1 cov free_owned_disjoint [of "tree b" 0 "level b" 0] by fastforce+
    ultimately show ?thesis using query_page_free [OF assms 1] by auto
  next
    case 2
    then obtain q n where q: "(q, n) \<in> blocks_of b" "q \<le> p" "p < q + n" by (auto simp: owned_def)
    moreover have "p < page_count b" "p \<notin> free_of b"
      using 2 cov free_owned_disjoint [of "tree b" 0 "level b" 0] by fastforce+
    ultimately show ?thesis using query_page_owned [OF assms q] by auto
  next
    case 3
    then have "p \<notin> free_of b" "p \<notin> owned_of b" using cov by (metis UnI1 UnI2 atLeastLessThan_iff)+
    with 3 show ?thesis by (simp add: query_page_def zero_result_def)
  qed
qed

theorem query_page_correct_witness:
  "\<exists>r. query_page demo_buddy 5 = Some r \<and> in_range r = (5 < page_count demo_buddy) \<and>
    is_free r = (5 \<in> free_of demo_buddy) \<and>
    (5 \<in> owned_of demo_buddy \<longrightarrow> (block_offset r, block_pages r) \<in> blocks_of demo_buddy \<and>
       5 \<in> {block_offset r..<block_offset r + block_pages r})"
  by (rule query_page_correct [OF demo_buddy_inv])

text \<open>C5. \<open>get_max_free_block_pages\<close> decides allocation: a request succeeds if and only if its
  rounded size is at most the reported maximum.\<close>

theorem get_max_free_block_pages_correct:
  assumes "buddy_inv b" "sz < 2 ^ 31"
  shows "\<exists>m b' off. get_max_free_block_pages b = Some m \<and> Alloc b sz = Some (b', off) \<and>
    (off \<noteq> -1 \<longleftrightarrow> request_pages sz \<le> m)"
proof -
  obtain a where a: "request_pages sz = 2 ^ a" using request_pages_pow2 [OF assms(2)] by blast
  have "2 ^ a \<le> max_free (tree b) 0 (level b) \<longleftrightarrow> (\<exists>p. 2 ^ a dvd p \<and> {p..<p + 2 ^ a} \<subseteq> free_of b)"
    by (rule max_free_fit) (use assms in \<open>simp_all add: buddy_inv_def\<close>)
  with pages.alloc_law [OF assms] a show ?thesis
    unfolding get_max_free_block_pages_eq [OF assms(1)] by auto
qed

theorem get_max_free_block_pages_correct_witness:
  "\<exists>m b' off. get_max_free_block_pages demo_buddy = Some m \<and> Alloc demo_buddy 5 = Some (b', off) \<and>
    (off \<noteq> -1 \<longleftrightarrow> request_pages 5 \<le> m)"
  by (rule get_max_free_block_pages_correct [OF demo_buddy_inv]) simp

text \<open>Addresses and offsets: the address of a page below \<open>2 ^ 31\<close> is page aligned and converts
  back to the same page.\<close>

lemma page_address:
  assumes "p < 2 ^ 31" "4096 dvd unat base"
  shows "(of_nat p * 4096 + base :: u64) mod 4096 = 0"
    "sint (ucast ((of_nat p * 4096 + base - base :: u64) div 4096) :: u32) = int p"
proof -
  have "unat (of_nat p * 4096 + base) = (p * 4096 + unat base) mod 2 ^ 64"
    by (simp add: unat_word_ariths unat_of_nat mod_simps)
  moreover have "4096 dvd (2 ^ 64 :: nat)" by simp
  ultimately have "4096 dvd unat (of_nat p * 4096 + base)"
    using assms(2) by (metis dvd_add dvd_mod dvd_triv_right)
  then show "(of_nat p * 4096 + base :: u64) mod 4096 = 0"
    by (simp add: word_arith_nat_mod dvd_eq_mod_eq_0)
  have "unat (of_nat p * 4096 :: u64) = p * 4096"
    using assms(1) by (simp add: unat_word_ariths unat_of_nat)
  then have "(of_nat p * 4096 :: u64) div 4096 = of_nat p"
    by (simp add: word_arith_nat_div)
  moreover have "sint (of_nat p :: u32) = int p"
    using assms(1) by (simp add: sint_uint uint_nat unat_of_nat signed_take_bit_int_eq_self_iff) 
  moreover have "(ucast (of_nat p :: u64) :: u32) = of_nat p"
    using assms(1) by (simp add: unsigned_of_nat take_bit_nat_eq_self)
  ultimately show "sint (ucast ((of_nat p * 4096 + base - base :: u64) div 4096) :: u32) = int p"
    by simp
qed

lemma buddy_inv_offset:
  assumes "buddy_inv b" "{p..<p + n} \<subseteq> free_of b" "0 < n"
  shows "p < 2 ^ 31"
proof -
  have "page_count b \<le> 2 ^ level b" "level b \<le> 29" "free_of b \<union> owned_of b = {0..<page_count b}"
    using assms(1) by (auto simp: buddy_inv_def)
  moreover have "p \<in> {0..<page_count b}" using calculation(3) assms(2,3) by (metis UnI1 atLeastLessThan_iff le_refl less_add_same_cancel1 subsetD)
  moreover have "(2::nat) ^ level b \<le> 2 ^ 29" using calculation(2) by (intro power_increasing) auto
  ultimately show ?thesis by simp
qed

text \<open>\<open>alloc_pages\<close> returns page-aligned memory of the region, cleared over the requested
  length and untouched elsewhere, and \<open>free_pages\<close> of that address restores the allocator; it
  returns null, changing nothing, exactly when no aligned run fits.\<close>

theorem alloc_pages_correct:
  assumes "buddy_inv b" "4096 dvd unat (base_ptr b)" "0 < count" "count < 2 ^ 19"
  shows "\<exists>b' mem' r. alloc_pages b mem count = Some (b', mem', r) \<and>
    (case r of
       None \<Rightarrow> b' = b \<and> mem' = mem \<and>
         (\<nexists>p. request_pages count dvd p \<and> {p..<p + request_pages count} \<subseteq> free_of b)
     | Some pa \<Rightarrow> \<exists>p. pa = of_nat p * 4096 + base_ptr b \<and> {p..<p + request_pages count} \<subseteq> free_of b \<and>
         (\<forall>a. mem' a = (if a - pa < of_int count * 4096 then 0 else mem a)) \<and>
         (\<exists>b''. free_pages b' pa = Some b'' \<and> buddy_inv b'' \<and> free_of b'' = free_of b \<and> blocks_of b'' = blocks_of b))"
proof -
  have sz: "count < 2 ^ 31" using assms(4) by simp
  show ?thesis
  proof (cases rule: pages.alloc_cases [OF assms(1) sz])
    case (1 b' p)
    let ?pa = "of_nat p * 4096 + base_ptr b"
    have p: "p < 2 ^ 31" by (rule buddy_inv_offset [OF assms(1) 1(4)]) (rule request_pages_pos [OF sz])
    have bp: "base_ptr b' = base_ptr b" using Alloc_outcome [OF assms(1) sz] 1(1) by auto
    have "alloc_pages b mem count = Some (b', memset_zero mem ?pa (of_int count * 4096), Some ?pa)"
      using 1(1) bp assms(3,4) by (simp add: alloc_pages_def PGSIZE_def Let_def)
    moreover have "free_pages b' ?pa = Free b' (int p)"
      using page_address [OF p assms(2)] bp by (simp add: free_pages_def PGSIZE_def)
    ultimately show ?thesis
      using pages.alloc_release [OF assms(1) sz 1(1)] 1(4) by (auto simp: memset_zero_def)
  next
    case 2
    then show ?thesis by (auto simp: alloc_pages_def)
  qed
qed

theorem alloc_pages_correct_witness:
  "\<exists>b' mem' r. alloc_pages demo_buddy (\<lambda>_. 7) 2 = Some (b', mem', r) \<and>
    (case r of
       None \<Rightarrow> b' = demo_buddy \<and> mem' = (\<lambda>_. 7) \<and>
         (\<nexists>p. request_pages 2 dvd p \<and> {p..<p + request_pages 2} \<subseteq> free_of demo_buddy)
     | Some pa \<Rightarrow> \<exists>p. pa = of_nat p * 4096 + base_ptr demo_buddy \<and> {p..<p + request_pages 2} \<subseteq> free_of demo_buddy \<and>
         (\<forall>a. mem' a = (if a - pa < of_int 2 * 4096 then 0 else 7)) \<and>
         (\<exists>b''. free_pages b' pa = Some b'' \<and> buddy_inv b'' \<and> free_of b'' = free_of demo_buddy \<and>
            blocks_of b'' = blocks_of demo_buddy))"
  by (rule alloc_pages_correct [OF demo_buddy_inv]) (simp_all add: demo_buddy_def)

text \<open>Of a request of \<open>2 ^ 19\<close> pages or more that the allocator can satisfy, the byte count
  \<open>count * PGSIZE\<close> passed to \<open>memset\<close> overflows \<open>int\<close>: \<open>alloc_pages\<close> has
  undefined behaviour although the pages were found.\<close>

theorem alloc_pages_overflow:
  assumes "Alloc b count = Some (b', off)" "off \<noteq> -1" "2 ^ 19 \<le> count"
  shows "alloc_pages b mem count = None"
  using assms by (simp add: alloc_pages_def PGSIZE_def Let_def)

lemma Alloc_whole_region:
  assumes "0 < length t" "t ! 0 = NODE_UNUSED"
  shows "Alloc \<lparr>page_count = 2 ^ 20, capacity_pages = 2 ^ 20, free_page_count = 2 ^ 20, level = 20,
      tree = t, base_ptr = base\<rparr> (2 ^ 20) =
    Some (\<lparr>page_count = 2 ^ 20, capacity_pages = 2 ^ 20, free_page_count = 0, level = 20,
      tree = t[0 := NODE_USED], base_ptr = base\<rparr>, 0)"
proof -
  have "NextPowerOfTwo 1048576 = 1048576" by code_simp
  moreover have "node_offset_pages 20 0 = Some 0"
    using node_offset_pages_eq [of 20 0] by simp
  moreover have "allocate_from_node 1048576 t 0 0 1048576 = Some (t[0 := NODE_USED], Some 0)"
    using assms by (subst allocate_from_node.simps) (simp add: node_block_pages_def arr_get_def arr_set_def)
  ultimately show ?thesis by (simp add: Alloc_def Let_def)
qed

theorem alloc_pages_overflow_witness:
  "alloc_pages \<lparr>page_count = 2 ^ 20, capacity_pages = 2 ^ 20, free_page_count = 2 ^ 20, level = 20,
     tree = replicate (2 ^ 21 - 1) NODE_UNUSED, base_ptr = 0x80000000\<rparr> (\<lambda>_. 0) (2 ^ 20) = None"
proof (rule alloc_pages_overflow, rule Alloc_whole_region)
  show "0 < length (replicate (2 ^ 21 - 1) NODE_UNUSED)" unfolding length_replicate by simp
  show "replicate (2 ^ 21 - 1) NODE_UNUSED ! 0 = NODE_UNUSED" by (rule nth_replicate) simp
qed simp_all

text \<open>\<open>NextPowerOfTwo\<close> of any value from 1 to \<open>2 ^ 31\<close> is the least power of two that is at
  least that value.\<close>

theorem NextPowerOfTwo_correct:
  assumes "0 < x" "x \<le> 2 ^ 31"
  shows "\<exists>k. unat (NextPowerOfTwo x) = 2 ^ k \<and> unat x \<le> 2 ^ k \<and> (\<forall>j<k. 2 ^ j < unat x)"
proof -
  have "unat x \<le> 2 ^ 31" "x \<noteq> 0" using assms by (auto simp: word_le_nat_alt)
  then obtain k where k: "unat (NextPowerOfTwo x) = 2 ^ k" "unat x \<le> 2 ^ k" "k = 0 \<or> 2 ^ (k - 1) < unat x"
    using NextPowerOfTwo_least [of x] by blast
  have "2 ^ j < unat x" if "j < k" for j
  proof -
    have "(2::nat) ^ j \<le> 2 ^ (k - 1)" using that by (intro power_increasing) auto
    with k(3) that show ?thesis by linarith
  qed
  with k show ?thesis by blast
qed

theorem NextPowerOfTwo_correct_witness:
  "\<exists>k. unat (NextPowerOfTwo 100) = 2 ^ k \<and> unat (100 :: u32) \<le> 2 ^ k \<and> (\<forall>j<k. 2 ^ j < unat (100 :: u32))"
  by (rule NextPowerOfTwo_correct) simp_all

end
