(* ===== verification/Pmm.thy ===== *)
theory Pmm
  imports Buddy
begin

text \<open>
  The physical memory manager of \<open>src/kernel/mem/physical_memory_manager.cc\<close>: reference-counted
  pages on top of the buddy allocator of theory \<open>Buddy\<close>. Every operation holds \<open>memlock\<close> while it
  touches the tree and the counts, so the operations are atomic steps on one state. Pointers are
  \<open>uint64\<close> numbers with \<open>0\<close> for null; a panic, and a use of the allocator or of the count array
  before \<open>init\<close> has set them, is \<^const>\<open>None\<close>. Performance counters and prints are left out.
\<close>

datatype Arch = RISCV | LOONGARCH

record Pmm =
  pmm_arch :: Arch
  pmm_buddy :: "BuddySystem option"
  pa_start :: nat
  pmm_pages :: nat
  k_page_refcounts :: "nat list option"
  pmm_mem :: "nat \<Rightarrow> u8"

text \<open>\<open>UINT16_MAX\<close>, the largest reference count.\<close>

definition UINT16_MAX :: nat where
  "UINT16_MAX = 65535"

definition k_physical_address_mask :: nat where
  "k_physical_address_mask = 0xffffffffffff"

definition PHYSBASE :: nat where
  "PHYSBASE = 0x9000000000000000"

text \<open>\<open>cached_address(physical)\<close>: the low 48 bits in the cached window. The bits of the mask and
  of the window are apart, so the disjunction is a sum.\<close>

definition to_vir :: "nat \<Rightarrow> nat" where
  "to_vir a = a mod (k_physical_address_mask + 1) + PHYSBASE"

definition normalize_managed_page_addr :: "Arch \<Rightarrow> nat \<Rightarrow> nat" where
  "normalize_managed_page_addr ar a =
     (if ar = LOONGARCH \<and> a \<noteq> 0 \<and> a < PHYSBASE then to_vir a else a)"

definition page_index_in_range :: "Pmm \<Rightarrow> nat \<Rightarrow> bool" where
  "page_index_in_range p page_index \<longleftrightarrow> page_index < pmm_pages p \<and> k_page_refcounts p \<noteq> None"

definition pa2pgnm :: "Pmm \<Rightarrow> nat \<Rightarrow> nat option" where
  "pa2pgnm p pa =
     (let a = normalize_managed_page_addr (pmm_arch p) pa
      in if a mod PGSIZE \<noteq> 0 then None else Some (u64_sub a (pa_start p) div PGSIZE))"

definition pgnm2pa :: "Pmm \<Rightarrow> int \<Rightarrow> nat" where
  "pgnm2pa p pgnm = u64_add (u64_mul (to_u64 pgnm) PGSIZE) (pa_start p)"

definition size_to_page_num :: "nat \<Rightarrow> int" where
  "size_to_page_num sz = to_s32 (int (sz div PGSIZE + (if sz mod PGSIZE \<noteq> 0 then 1 else 0)))"

text \<open>\<open>memset(pa, 0, n)\<close> on physical memory.\<close>

definition zero_bytes :: "(nat \<Rightarrow> u8) \<Rightarrow> nat \<Rightarrow> nat \<Rightarrow> (nat \<Rightarrow> u8)" where
  "zero_bytes m pa n = (\<lambda>a. if u64_sub a pa < n then 0 else m a)"

definition pmm_get_free_page_count :: "Pmm \<Rightarrow> nat" where
  "pmm_get_free_page_count p =
     (case pmm_buddy p of None \<Rightarrow> 0 | Some b \<Rightarrow> get_free_page_count b)"

definition try_alloc_page_impl :: "Pmm \<Rightarrow> bool \<Rightarrow> (Pmm \<times> nat) option" where
  "try_alloc_page_impl p clear = do {
     b \<leftarrow> pmm_buddy p;
     (b, x) \<leftarrow> Alloc b 0;
     let p = p\<lparr>pmm_buddy := Some b\<rparr>
     in if x = -1 then Some (p, 0)
        else if \<not> page_index_in_range p (to_u64 x) then None
        else do {
          refs \<leftarrow> k_page_refcounts p;
          ref \<leftarrow> arr_get refs (nat x);
          if ref \<noteq> 0 then None
          else do {
            refs \<leftarrow> arr_set refs (nat x) 1;
            let pa = pgnm2pa p x;
                p = p\<lparr>k_page_refcounts := Some refs\<rparr>
            in Some (if clear then p\<lparr>pmm_mem := zero_bytes (pmm_mem p) pa PGSIZE\<rparr> else p, pa)
          }
        }
   }"

definition try_alloc_page :: "Pmm \<Rightarrow> (Pmm \<times> nat) option" where
  "try_alloc_page p = try_alloc_page_impl p True"

definition try_alloc_page_uninitialized :: "Pmm \<Rightarrow> (Pmm \<times> nat) option" where
  "try_alloc_page_uninitialized p = try_alloc_page_impl p False"

definition alloc_page :: "Pmm \<Rightarrow> (Pmm \<times> nat) option" where
  "alloc_page p = do {
     (p, pa) \<leftarrow> try_alloc_page p;
     if pa = 0 then None else Some (p, pa)
   }"

text \<open>
  The loops over the pages of a block that \<open>try_alloc_pages\<close> and \<open>kmalloc_impl\<close> (from count 0 to 1)
  and the release operations (from 1 to 0) share: a page out of range or with another count panics.
\<close>

definition set_block_refs :: "Pmm \<Rightarrow> nat \<Rightarrow> nat \<Rightarrow> nat \<Rightarrow> nat \<Rightarrow> Pmm option" where
  "set_block_refs p page_index pages expected new = do {
     refs \<leftarrow> k_page_refcounts p;
     refs \<leftarrow> for_each (\<lambda>offset refs.
       let index = u32_add (page_index mod 2 ^ 32) offset
       in if pmm_pages p \<le> index then None
          else do {
            ref \<leftarrow> arr_get refs index;
            if ref \<noteq> expected then None else arr_set refs index new
          }) [0..<pages] refs;
     Some (p\<lparr>k_page_refcounts := Some refs\<rparr>)
   }"

text \<open>The check of a fresh block in \<open>try_alloc_pages\<close> and \<open>kmalloc_impl\<close>.\<close>

definition own_block :: "Pmm \<Rightarrow> int \<Rightarrow> Pmm option" where
  "own_block p x = do {
     b \<leftarrow> pmm_buddy p;
     block \<leftarrow> query_page b (nat x mod 2 ^ 32);
     if \<not> in_range block \<or> is_free block \<or> block_offset block \<noteq> nat x mod 2 ^ 32 then None
     else set_block_refs p (nat x) (block_pages block) 0 1
   }"

definition try_alloc_pages :: "Pmm \<Rightarrow> int \<Rightarrow> (Pmm \<times> nat) option" where
  "try_alloc_pages p count =
     (if count \<le> 0 then Some (p, 0)
      else do {
        b \<leftarrow> pmm_buddy p;
        (b, page_index) \<leftarrow> Alloc b count;
        p \<leftarrow> (if 0 \<le> page_index then own_block (p\<lparr>pmm_buddy := Some b\<rparr>) page_index
              else Some (p\<lparr>pmm_buddy := Some b\<rparr>));
        if page_index < 0 then Some (p, 0)
        else if \<not> page_index_in_range p (to_u64 page_index) then None
        else let pa = pgnm2pa p page_index
             in Some (p\<lparr>pmm_mem := zero_bytes (pmm_mem p) pa (u64_mul (to_u64 count) PGSIZE)\<rparr>, pa)
      })"

definition pmm_alloc_pages :: "Pmm \<Rightarrow> int \<Rightarrow> (Pmm \<times> nat) option" where
  "pmm_alloc_pages p count = do {
     (p, pa) \<leftarrow> try_alloc_pages p count;
     if pa = 0 then None else Some (p, pa)
   }"

text \<open>\<open>_buddy->Free(page_index)\<close> with its conversion to \<open>int\<close>.\<close>

definition buddy_release :: "Pmm \<Rightarrow> nat \<Rightarrow> Pmm option" where
  "buddy_release p page_index = do {
     b \<leftarrow> pmm_buddy p;
     b \<leftarrow> Free b (to_s32 (int page_index));
     Some (p\<lparr>pmm_buddy := Some b\<rparr>)
   }"

text \<open>The release of a whole block in \<open>free_page1\<close> and \<open>free_pages\<close>.\<close>

definition release_block_at :: "Pmm \<Rightarrow> nat \<Rightarrow> Pmm option" where
  "release_block_at p page_index = do {
     b \<leftarrow> pmm_buddy p;
     block \<leftarrow> query_page b (page_index mod 2 ^ 32);
     if \<not> in_range block \<or> is_free block \<or> block_offset block \<noteq> page_index then None
     else do {
       p \<leftarrow> set_block_refs p page_index (block_pages block) 1 0;
       buddy_release p page_index
     }
   }"

text \<open>
  \<open>free_page1\<close> hands an unaligned address to the slab allocator: that call, with its arguments, is
  the second component of the result.
\<close>

definition free_page1 :: "Pmm \<Rightarrow> nat \<Rightarrow> nat \<Rightarrow> (Pmm \<times> (nat \<times> nat) option) option" where
  "free_page1 p pa sz =
     (if pa mod PGSIZE \<noteq> 0 then Some (p, Some (pa, sz))
      else do {
        page_index \<leftarrow> pa2pgnm p pa;
        p \<leftarrow> release_block_at p page_index;
        Some (p, None)
      })"

definition free_page :: "Pmm \<Rightarrow> nat \<Rightarrow> Pmm option" where
  "free_page p pa = do {
     page_index \<leftarrow> pa2pgnm p pa;
     if \<not> page_index_in_range p page_index then Some p
     else do {
       b \<leftarrow> pmm_buddy p;
       block \<leftarrow> query_page b (page_index mod 2 ^ 32);
       if \<not> in_range block \<or> is_free block then None
       else if 1 < block_pages block
       then if block_offset block \<noteq> page_index then None
            else do {
              p \<leftarrow> set_block_refs p page_index (block_pages block) 1 0;
              buddy_release p page_index
            }
       else do {
         refs \<leftarrow> k_page_refcounts p;
         ref \<leftarrow> arr_get refs page_index;
         if 1 < ref
         then do {
           refs \<leftarrow> arr_set refs page_index (ref - 1);
           Some (p\<lparr>k_page_refcounts := Some refs\<rparr>)
         }
         else do {
           refs \<leftarrow> arr_set refs page_index 0;
           buddy_release (p\<lparr>k_page_refcounts := Some refs\<rparr>) page_index
         }
       }
     }
   }"

definition pmm_free_pages :: "Pmm \<Rightarrow> nat \<Rightarrow> Pmm option" where
  "pmm_free_pages p pa =
     (if pa = 0 then Some p
      else if pa mod PGSIZE \<noteq> 0 then None
      else do {
        page_index \<leftarrow> pa2pgnm p pa;
        release_block_at p page_index
      })"

definition retain_page :: "Pmm \<Rightarrow> nat \<Rightarrow> (Pmm \<times> bool) option" where
  "retain_page p pa = do {
     page_index \<leftarrow> pa2pgnm p pa;
     if \<not> page_index_in_range p page_index then Some (p, False)
     else do {
       refs \<leftarrow> k_page_refcounts p;
       ref \<leftarrow> arr_get refs page_index;
       if ref = 0 \<or> ref = UINT16_MAX then Some (p, False)
       else do {
         refs \<leftarrow> arr_set refs page_index (ref + 1);
         Some (p\<lparr>k_page_refcounts := Some refs\<rparr>, True)
       }
     }
   }"

text \<open>The batches take a pointer to an array of pointers, \<^const>\<open>None\<close> for null.\<close>

definition retain_pages_batch :: "Pmm \<Rightarrow> nat list option \<Rightarrow> nat \<Rightarrow> (Pmm \<times> u64) option" where
  "retain_pages_batch p pages count =
     (if pages = None \<or> count = 0 then Some (p, 0)
      else if 64 < count then None
      else for_each (\<lambda>index (p, retained_mask). do {
          pa \<leftarrow> arr_get (the pages) index;
          page_index \<leftarrow> pa2pgnm p pa;
          if \<not> page_index_in_range p page_index then Some (p, retained_mask)
          else do {
            refs \<leftarrow> k_page_refcounts p;
            ref \<leftarrow> arr_get refs page_index;
            if ref = 0 \<or> ref = UINT16_MAX then Some (p, retained_mask)
            else do {
              refs \<leftarrow> arr_set refs page_index (ref + 1);
              Some (p\<lparr>k_page_refcounts := Some refs\<rparr>, retained_mask OR push_bit index 1)
            }
          }
        }) [0..<count] (p, 0))"

definition release_batch_item :: "Pmm \<Rightarrow> nat \<Rightarrow> Pmm option" where
  "release_batch_item p pa =
     (if pa = 0 then Some p
      else do {
        page_index \<leftarrow> pa2pgnm p pa;
        if \<not> page_index_in_range p page_index then Some p
        else do {
          b \<leftarrow> pmm_buddy p;
          block \<leftarrow> query_page b (page_index mod 2 ^ 32);
          if \<not> in_range block \<or> is_free block then None
          else if block_pages block \<noteq> 1 \<or> block_offset block \<noteq> page_index then None
          else do {
            refs \<leftarrow> k_page_refcounts p;
            refcount \<leftarrow> arr_get refs page_index;
            if refcount = 0 then None
            else if 1 < refcount
            then do {
              refs \<leftarrow> arr_set refs page_index (refcount - 1);
              Some (p\<lparr>k_page_refcounts := Some refs\<rparr>)
            }
            else do {
              refs \<leftarrow> arr_set refs page_index 0;
              buddy_release (p\<lparr>k_page_refcounts := Some refs\<rparr>) page_index
            }
          }
        }
      })"

definition release_pages_batch :: "Pmm \<Rightarrow> nat list option \<Rightarrow> nat \<Rightarrow> Pmm option" where
  "release_pages_batch p pages count =
     (if pages = None \<or> count = 0 then Some p
      else for_each (\<lambda>index p. do {
          pa \<leftarrow> arr_get (the pages) index;
          release_batch_item p pa
        }) [0..<count] p)"

definition page_ref_count :: "Pmm \<Rightarrow> nat \<Rightarrow> nat option" where
  "page_ref_count p pa = do {
     page_index \<leftarrow> pa2pgnm p pa;
     if \<not> page_index_in_range p page_index then Some 0
     else do {
       refs \<leftarrow> k_page_refcounts p;
       arr_get refs page_index
     }
   }"

definition is_managed_page :: "Pmm \<Rightarrow> nat \<Rightarrow> bool" where
  "is_managed_page p pa =
     (let a = normalize_managed_page_addr (pmm_arch p) pa
      in if a < pa_start p \<or> u64_add (pa_start p) (u64_mul (pmm_pages p) PGSIZE) \<le> a then False
         else if a mod PGSIZE \<noteq> 0 then False
         else u64_sub a (pa_start p) div PGSIZE < pmm_pages p \<and> k_page_refcounts p \<noteq> None)"

text \<open>\<open>clear_page\<close> stores 512 zero words of eight bytes.\<close>

definition clear_page :: "(nat \<Rightarrow> u8) \<Rightarrow> nat \<Rightarrow> (nat \<Rightarrow> u8)" where
  "clear_page m pa =
     fold (\<lambda>i m. zero_bytes m (u64_add pa (8 * i)) 8) [0..<PGSIZE div 8] m"

definition kmalloc_impl :: "Pmm \<Rightarrow> nat \<Rightarrow> bool \<Rightarrow> (Pmm \<times> nat) option" where
  "kmalloc_impl p sz clear =
     (let page_num = size_to_page_num sz
      in if pmm_pages p < nat (page_num mod 2 ^ 32) then Some (p, 0)
         else do {
           b \<leftarrow> pmm_buddy p;
           (b, x) \<leftarrow> Alloc b page_num;
           p \<leftarrow> (if 0 \<le> x then own_block (p\<lparr>pmm_buddy := Some b\<rparr>) x
                 else Some (p\<lparr>pmm_buddy := Some b\<rparr>));
           if x = -1 then Some (p, 0)
           else if x < 0 \<or> int (pmm_pages p) \<le> x then Some (p, 0)
           else let pa = pgnm2pa p x
                in Some (if clear
                         then p\<lparr>pmm_mem := zero_bytes (pmm_mem p) pa (u64_mul (to_u64 page_num) PGSIZE)\<rparr>
                         else p, pa)
         })"

definition kmalloc :: "Pmm \<Rightarrow> nat \<Rightarrow> (Pmm \<times> nat) option" where
  "kmalloc p sz = kmalloc_impl p sz True"

definition kmalloc_uninitialized :: "Pmm \<Rightarrow> nat \<Rightarrow> (Pmm \<times> nat) option" where
  "kmalloc_uninitialized p sz = kmalloc_impl p sz False"

definition kcalloc :: "Pmm \<Rightarrow> nat \<Rightarrow> nat \<Rightarrow> (Pmm \<times> nat) option" where
  "kcalloc p n sz = do {
     (p, pa) \<leftarrow> kmalloc p (u64_mul n sz);
     if pa = 0 then Some (p, 0) else Some (p, pa)
   }"

record PageDebugInfo =
  dbg_managed :: bool
  dbg_aligned :: bool
  dbg_page_offset :: nat
  dbg_page_pa :: nat
  dbg_buddy :: PageQueryResult

definition zero_debug_info :: PageDebugInfo where
  "zero_debug_info = \<lparr>dbg_managed = False, dbg_aligned = False, dbg_page_offset = 0, dbg_page_pa = 0,
     dbg_buddy = zero_result\<rparr>"

definition debug_query_page :: "Pmm \<Rightarrow> nat \<Rightarrow> PageDebugInfo option" where
  "debug_query_page p pa =
     (if pa = 0 then Some zero_debug_info
      else let info = zero_debug_info\<lparr>dbg_page_pa := pg_down pa, dbg_aligned := pa mod PGSIZE = 0\<rparr>
      in case pmm_buddy p of
           None \<Rightarrow> Some info
         | Some b \<Rightarrow>
             let managed_addr = (if pmm_arch p = LOONGARCH \<and> dbg_page_pa info < PHYSBASE
                                 then to_vir (dbg_page_pa info) else dbg_page_pa info);
                 managed_top = u64_add (pa_start p) (u64_mul (pmm_pages p) PGSIZE)
             in if managed_addr < pa_start p \<or> managed_top \<le> managed_addr then Some info
                else do {
                  let info = info\<lparr>dbg_managed := True,
                                  dbg_page_offset := u64_sub managed_addr (pa_start p) div PGSIZE\<rparr>
                  in do {
                    block \<leftarrow> query_page b (dbg_page_offset info mod 2 ^ 32);
                    Some (info\<lparr>dbg_buddy := block\<rparr>)
                  }
                })"

end
