(* ===== verification/Pmm_Correct.thy ===== *)
theory Pmm_Correct
  imports Pmm Buddy_Theorems
begin

text \<open>
  The physical memory manager of theory \<open>Pmm\<close> as a client of the specified buddy allocator: the
  invariant that ties the reference counts to the buddy tree, the effect of the loops over the pages
  of a block, and the effect of every operation on a state that satisfies the invariant.
\<close>

section \<open>The invariant\<close>

text \<open>
  \<open>pmm_rep p b r\<close>: the manager \<open>p\<close> has the allocator \<open>b\<close> and the counts \<open>r\<close>; a page is free in the
  tree exactly when its count is zero; the managed addresses are page aligned, above null, and do not
  wrap around; on LoongArch they lie in the direct mapped window.
\<close>

definition pmm_rep :: "Pmm \<Rightarrow> BuddySystem \<Rightarrow> nat list \<Rightarrow> bool" where
  "pmm_rep p b r \<longleftrightarrow>
     pmm_buddy p = Some b \<and> k_page_refcounts p = Some r \<and> buddy_inv b \<and>
     page_count b = pmm_pages p \<and> length r = pmm_pages p \<and>
     (\<forall>i<pmm_pages p. r ! i = 0 \<longleftrightarrow> i \<in> free_of b) \<and> (\<forall>i<pmm_pages p. r ! i \<le> UINT16_MAX) \<and>
     0 < pa_start p \<and> PGSIZE dvd pa_start p \<and> pa_start p + pmm_pages p * PGSIZE < 2 ^ 64 \<and>
     (pmm_arch p = LOONGARCH \<longrightarrow> PHYSBASE \<le> pa_start p)"

definition pmm_inv :: "Pmm \<Rightarrow> bool" where
  "pmm_inv p \<longleftrightarrow>
     (case (pmm_buddy p, k_page_refcounts p) of (Some b, Some r) \<Rightarrow> pmm_rep p b r | _ \<Rightarrow> False)"

lemma pmm_invI: "pmm_rep p b r \<Longrightarrow> pmm_inv p"
  by (simp add: pmm_inv_def pmm_rep_def)

lemma pmm_invE:
  assumes "pmm_inv p"
  obtains b r where "pmm_rep p b r"
  using assms by (auto simp: pmm_inv_def split: option.splits)

text \<open>The views of the state that the statements use: the address of a page, its count, the free
  pages and the live blocks.\<close>

definition page_addr :: "Pmm \<Rightarrow> nat \<Rightarrow> nat" where
  "page_addr p i = pa_start p + i * PGSIZE"

definition ref_of :: "Pmm \<Rightarrow> nat \<Rightarrow> nat" where
  "ref_of p i = (case k_page_refcounts p of None \<Rightarrow> 0 | Some r \<Rightarrow> if i < length r then r ! i else 0)"

definition pmm_free :: "Pmm \<Rightarrow> nat set" where
  "pmm_free p = (case pmm_buddy p of None \<Rightarrow> {} | Some b \<Rightarrow> free_of b)"

definition pmm_blocks :: "Pmm \<Rightarrow> (nat \<times> nat) set" where
  "pmm_blocks p = (case pmm_buddy p of None \<Rightarrow> {} | Some b \<Rightarrow> blocks_of b)"

lemmas pmm_views = page_addr_def ref_of_def pmm_free_def pmm_blocks_def

named_theorems pmm_simps

lemma pmm_rep_pages: "pmm_rep p b r \<Longrightarrow> pmm_pages p \<le> 2 ^ 29"
proof -
  assume "pmm_rep p b r"
  then have "pmm_pages p \<le> 2 ^ level b" "level b \<le> 29" by (auto simp: pmm_rep_def buddy_inv_def)
  moreover have "(2::nat) ^ level b \<le> 2 ^ 29" using calculation(2) by (intro power_increasing) auto
  ultimately show ?thesis by linarith
qed

lemma pmm_rep_index:
  assumes "pmm_rep p b r" "i < pmm_pages p"
  shows "i mod 2 ^ 32 = i" "to_u64 (int i) = i" "to_s32 (int i) = int i"
proof -
  have "i < 2 ^ 29" using assms pmm_rep_pages by fastforce
  then show "i mod 2 ^ 32 = i" "to_u64 (int i) = i" "to_s32 (int i) = int i"
    by (simp_all add: to_u64_def to_s32_def)
qed

lemma page_addr_bounds:
  assumes "pmm_rep p b r" "i < pmm_pages p"
  shows "page_addr p i + PGSIZE < 2 ^ 64" "0 < page_addr p i" "PGSIZE dvd page_addr p i"
proof -
  have "Suc i * PGSIZE \<le> pmm_pages p * PGSIZE" by (rule mult_le_mono1) (use assms in simp)
  then show "page_addr p i + PGSIZE < 2 ^ 64" "0 < page_addr p i" "PGSIZE dvd page_addr p i"
    using assms by (auto simp: pmm_rep_def page_addr_def)
qed

lemma pgnm2pa_eq:
  assumes "pmm_rep p b r" "i < pmm_pages p"
  shows "pgnm2pa p (int i) = page_addr p i"
  using page_addr_bounds [OF assms] pmm_rep_index [OF assms]
  by (simp add: pgnm2pa_def page_addr_def u64_mul_small u64_add_small add.commute)

lemma pa2pgnm_addr:
  assumes "pmm_rep p b r" "i < pmm_pages p"
  shows "pa2pgnm p (page_addr p i) = Some i"
proof -
  have "normalize_managed_page_addr (pmm_arch p) (page_addr p i) = page_addr p i"
    using assms by (auto simp: normalize_managed_page_addr_def page_addr_def pmm_rep_def)
  then show ?thesis
    using page_addr_bounds [OF assms]
    by (simp add: pa2pgnm_def dvd_eq_mod_eq_0 [symmetric]) (simp add: page_addr_def u64_sub_small PGSIZE_def)
qed

text \<open>An address that resolves to a managed page is the address of that page, or its physical alias.\<close>

lemma normalize_less: "a < 2 ^ 64 \<Longrightarrow> normalize_managed_page_addr ar a < 2 ^ 64"
proof -
  assume "a < 2 ^ 64"
  moreover have "a mod 281474976710656 < 8070450532247928832"
    by (rule less_trans [OF mod_less_divisor]) simp_all
  ultimately show ?thesis
    by (simp add: normalize_managed_page_addr_def to_vir_def k_physical_address_mask_def PHYSBASE_def)
qed

lemma pa2pgnm_managed:
  assumes rep: "pmm_rep p b r" and pa: "pa < 2 ^ 64" "pa2pgnm p pa = Some i" "i < pmm_pages p"
  shows "normalize_managed_page_addr (pmm_arch p) pa = page_addr p i"
proof -
  let ?a = "normalize_managed_page_addr (pmm_arch p) pa"
  have a: "?a < 2 ^ 64" using normalize_less pa(1) .
  have m: "PGSIZE dvd ?a" "i = u64_sub ?a (pa_start p) div PGSIZE"
    using pa(2) by (auto simp: pa2pgnm_def Let_def split: if_splits)
  have top: "pa_start p + pmm_pages p * PGSIZE < 2 ^ 64" "PGSIZE dvd pa_start p" using rep by (auto simp: pmm_rep_def)
  have less: "u64_sub ?a (pa_start p) < pmm_pages p * PGSIZE"
    using m(2) pa(3) by (simp add: PGSIZE_def div_less_iff_less_mult)
  have ge: "pa_start p \<le> ?a"
    by (rule ccontr) (use less top a in \<open>simp add: u64_sub_def split: if_splits\<close>)
  then have "i * PGSIZE = ?a - pa_start p" using m top(2) by (simp add: u64_sub_def)
  then show ?thesis using ge by (simp add: page_addr_def)
qed

section \<open>Loops over the pages of a block\<close>

definition fill :: "nat list \<Rightarrow> nat \<Rightarrow> nat \<Rightarrow> nat \<Rightarrow> nat list" where
  "fill r q n v = take q r @ replicate n v @ drop (q + n) r"

lemma length_fill [simp]: "q + n \<le> length r \<Longrightarrow> length (fill r q n v) = length r"
  by (simp add: fill_def)

lemma nth_fill [simp]:
  "q + n \<le> length r \<Longrightarrow> i < length r \<Longrightarrow> fill r q n v ! i = (if q \<le> i \<and> i < q + n then v else r ! i)"
  by (auto simp: fill_def nth_append min_def)

lemma fill_0 [simp]: "fill r q 0 v = r"
  by (simp add: fill_def)

lemma fill_Suc: "q + n < length r \<Longrightarrow> (fill r q n v)[q + n := v] = fill r q (Suc n) v"
  by (intro nth_equalityI) (auto simp: nth_list_update)

lemma fill_1: "q < length r \<Longrightarrow> fill r q 1 v = r[q := v]"
  using fill_Suc [of q 0 r v] by simp

lemma set_block_refs_eq:
  assumes "k_page_refcounts p = Some r" "length r = pmm_pages p" "pmm_pages p < 2 ^ 32" "q + n \<le> pmm_pages p"
  shows "set_block_refs p q n e v =
     (if \<forall>j\<in>{q..<q + n}. r ! j = e then Some (p\<lparr>k_page_refcounts := Some (fill r q n v)\<rparr>) else None)"
proof -
  define f where "f = (\<lambda>offset refs.
       let index = u32_add (q mod 2 ^ 32) offset
       in if pmm_pages p \<le> index then None
          else do {
            ref \<leftarrow> arr_get refs index;
            if ref \<noteq> e then None else arr_set refs index v
          })"
  have "for_each f [0..<k] r = (if \<forall>j\<in>{q..<q + k}. r ! j = e then Some (fill r q k v) else None)"
    if "k \<le> n" for k
    using that
  proof (induction k)
    case (Suc k)
    let ?l = "fill r q k v"
    have k: "q + k < pmm_pages p" using Suc.prems assms(4) by simp
    then have len: "length ?l = pmm_pages p" and idx: "u32_add (q mod 2 ^ 32) k = q + k"
      using assms by (simp_all add: u32_add_def)
    have step: "f k ?l = (if r ! (q + k) = e then Some (fill r q (Suc k) v) else None)"
      unfolding f_def using k len idx assms(2) by (simp add: arr_get_def arr_set_def fill_Suc [symmetric])
    have "{q..<q + Suc k} = insert (q + k) {q..<q + k}" by auto
    then show ?case using Suc step by (auto simp: for_each_append)
  qed simp
  from this [of n] show ?thesis using assms(1) by (simp add: set_block_refs_def f_def Let_def)
qed


section \<open>Steps that keep the invariant\<close>

text \<open>A block leaves the free pages with count 1, or comes back with count 0; a live count changes.\<close>

lemma pmm_rep_take:
  assumes "pmm_rep p b r" "buddy_inv b'" "page_count b' = page_count b" "{q..<q + n} \<subseteq> free_of b"
    and "free_of b' = free_of b - {q..<q + n}" "q + n \<le> pmm_pages p"
  shows "pmm_rep (p\<lparr>pmm_buddy := Some b', k_page_refcounts := Some (fill r q n 1)\<rparr>) b' (fill r q n 1)"
  using assms by (auto simp: pmm_rep_def UINT16_MAX_def)

lemma pmm_rep_give:
  assumes "pmm_rep p b r" "buddy_inv b'" "page_count b' = page_count b"
    and "free_of b' = free_of b \<union> {q..<q + n}" "q + n \<le> pmm_pages p"
  shows "pmm_rep (p\<lparr>k_page_refcounts := Some (fill r q n 0), pmm_buddy := Some b'\<rparr>) b' (fill r q n 0)"
  using assms by (auto simp: pmm_rep_def)

lemma pmm_rep_count:
  assumes "pmm_rep p b r" "i < pmm_pages p" "r ! i \<noteq> 0" "v \<noteq> 0" "v \<le> UINT16_MAX"
  shows "pmm_rep (p\<lparr>k_page_refcounts := Some (r[i := v])\<rparr>) b (r[i := v])"
  using assms by (auto simp: pmm_rep_def nth_list_update)

lemma pmm_rep_mem: "pmm_rep p b r \<Longrightarrow> pmm_rep (p\<lparr>pmm_mem := m\<rparr>) b r"
  by (simp add: pmm_rep_def)

lemma pmm_rep_block:
  assumes "pmm_rep p b r" "(q, n) \<in> blocks_of b"
  shows "q + n \<le> pmm_pages p" "0 < n"
proof -
  show n: "0 < n" using blocks_of_pos [OF assms(2)] .
  have "free_of b \<union> owned_of b = {0..<pmm_pages p}" using assms(1) by (auto simp: pmm_rep_def buddy_inv_def)
  moreover have "{q..<q + n} \<subseteq> owned_of b" using assms(2) by (auto simp: owned_def)
  ultimately have "{q..<q + n} \<subseteq> {0..<pmm_pages p}" by blast
  then have "q + n - 1 \<in> {0..<pmm_pages p}" using n by (auto simp: subset_eq)
  then show "q + n \<le> pmm_pages p" by auto
qed

lemma pmm_rep_run:
  assumes "pmm_rep p b r" "{q..<q + n} \<subseteq> free_of b" "0 < n"
  shows "q + n \<le> pmm_pages p"
proof -
  have "free_of b \<union> owned_of b = {0..<pmm_pages p}" using assms(1) by (auto simp: pmm_rep_def buddy_inv_def)
  then have "{q..<q + n} \<subseteq> {0..<pmm_pages p}" using assms(2) by blast
  then have "q + n - 1 \<in> {0..<pmm_pages p}" using assms(3) by (auto simp: subset_eq)
  then show ?thesis by auto
qed

text \<open>Every managed page is free or in exactly one live block.\<close>

lemma pmm_rep_cases:
  assumes "pmm_rep p b r" "i < pmm_pages p"
  obtains (free) "i \<in> free_of b" "r ! i = 0"
    | (live) q n where "(q, n) \<in> blocks_of b" "q \<le> i" "i < q + n" "r ! i \<noteq> 0" "i \<notin> free_of b"
proof -
  have "free_of b \<union> owned_of b = {0..<pmm_pages p}" using assms(1) by (auto simp: pmm_rep_def buddy_inv_def)
  then have "i \<in> free_of b \<or> i \<in> owned_of b"
    using assms(2) by (metis Un_iff atLeastLessThan_iff le0)
  then show ?thesis
  proof
    assume "i \<in> free_of b" then show ?thesis using free assms by (auto simp: pmm_rep_def)
  next
    assume own: "i \<in> owned_of b"
    then have "i \<notin> free_of b" using free_owned_disjoint by blast
    moreover from this have "r ! i \<noteq> 0" using assms by (auto simp: pmm_rep_def)
    ultimately show ?thesis using own live by (auto simp: owned_def)
  qed
qed

lemma own_block_eq:
  assumes rep: "pmm_rep p b r" and "buddy_inv b'" "page_count b' = page_count b"
    and "{q..<q + n} \<subseteq> free_of b" "(q, n) \<in> blocks_of b'" "0 < n"
  shows "own_block (p\<lparr>pmm_buddy := Some b'\<rparr>) (int q) =
     Some (p\<lparr>pmm_buddy := Some b', k_page_refcounts := Some (fill r q n 1)\<rparr>)"
proof -
  have qn: "q + n \<le> pmm_pages p" using pmm_rep_run [OF rep assms(4,6)] .
  then have q: "q mod 2 ^ 32 = q" using pmm_rep_index(1) [OF rep] assms(6) by simp
  obtain blk where blk: "query_page b' q = Some blk" "in_range blk" "\<not> is_free blk" "block_offset blk = q" "block_pages blk = n"
    using query_page_owned [OF assms(2,5), of q] assms(6) by auto
  have "r ! j = 0" if "j \<in> {q..<q + n}" for j
    using that rep assms(4) qn by (auto simp: pmm_rep_def subset_eq)
  then have "set_block_refs (p\<lparr>pmm_buddy := Some b'\<rparr>) q n 0 1 =
     Some (p\<lparr>pmm_buddy := Some b', k_page_refcounts := Some (fill r q n 1)\<rparr>)"
    using set_block_refs_eq [of "p\<lparr>pmm_buddy := Some b'\<rparr>" r q n 0 1] rep qn pmm_rep_pages [OF rep]
    by (simp add: pmm_rep_def)
  then show ?thesis using blk q by (simp add: own_block_def)
qed

lemma buddy_release_eq:
  assumes rep: "pmm_rep p b r" and blk: "(q, n) \<in> blocks_of b"
  obtains b' where "buddy_inv b'" "page_count b' = page_count b" "free_of b' = free_of b \<union> {q..<q + n}"
    "blocks_of b' = blocks_of b - {(q, n)}"
    "\<And>refs. buddy_release (p\<lparr>k_page_refcounts := Some refs\<rparr>) q = Some (p\<lparr>k_page_refcounts := Some refs, pmm_buddy := Some b'\<rparr>)"
proof -
  have "q < pmm_pages p" using pmm_rep_block [OF rep blk] by simp
  then have "to_s32 (int q) = int q" using pmm_rep_index [OF rep] by simp
  moreover have "pmm_buddy p = Some b" using rep by (simp add: pmm_rep_def)
  moreover obtain b' where "Free b (int q) = Some b'" "buddy_inv b'" "free_of b' = free_of b \<union> {q..<q + n}"
    "blocks_of b' = blocks_of b - {(q, n)}" "page_count b' = page_count b"
    using Free_block [of b q n] rep blk by (auto simp: pmm_rep_def)
  ultimately show ?thesis using that by (simp add: buddy_release_def)
qed


section \<open>The effect of the operations\<close>

definition same_region :: "Pmm \<Rightarrow> Pmm \<Rightarrow> bool" where
  "same_region p p' \<longleftrightarrow> pmm_arch p' = pmm_arch p \<and> pa_start p' = pa_start p \<and> pmm_pages p' = pmm_pages p"

lemma same_region_refl [simp]: "same_region p p"
  by (simp add: same_region_def)

lemma same_region_trans: "same_region p q \<Longrightarrow> same_region q s \<Longrightarrow> same_region p s"
  by (simp add: same_region_def)

lemma same_region_addr: "same_region p p' \<Longrightarrow> pa2pgnm p' = pa2pgnm p \<and> page_addr p' = page_addr p"
  by (auto simp: same_region_def pa2pgnm_def page_addr_def fun_eq_iff Let_def)

lemma zero_bytes_eq:
  assumes "pa + n \<le> 2 ^ 64"
  shows "zero_bytes m pa n a = (if pa \<le> a \<and> a < pa + n then 0 else m a)"
  using assms by (auto simp: zero_bytes_def u64_sub_def)

text \<open>The manager after a block of \<open>n\<close> pages at \<open>q\<close> was handed out, or given back.\<close>

definition pmm_takes :: "Pmm \<Rightarrow> Pmm \<Rightarrow> nat \<Rightarrow> nat \<Rightarrow> bool" where
  "pmm_takes p p' q n \<longleftrightarrow> same_region p p' \<and> {q..<q + n} \<subseteq> pmm_free p \<and> pmm_free p' = pmm_free p - {q..<q + n} \<and>
     pmm_blocks p' = insert (q, n) (pmm_blocks p) \<and>
     (\<forall>i. ref_of p' i = (if i \<in> {q..<q + n} then 1 else ref_of p i))"

definition pmm_gives :: "Pmm \<Rightarrow> Pmm \<Rightarrow> nat \<Rightarrow> nat \<Rightarrow> bool" where
  "pmm_gives p p' q n \<longleftrightarrow> same_region p p' \<and> pmm_mem p' = pmm_mem p \<and> pmm_free p' = pmm_free p \<union> {q..<q + n} \<and>
     pmm_blocks p' = pmm_blocks p - {(q, n)} \<and>
     (\<forall>i. ref_of p' i = (if i \<in> {q..<q + n} then 0 else ref_of p i))"

text \<open>The manager after the count of page \<open>i\<close> alone became \<open>v\<close>.\<close>

definition pmm_counts :: "Pmm \<Rightarrow> Pmm \<Rightarrow> nat \<Rightarrow> nat \<Rightarrow> bool" where
  "pmm_counts p p' i v \<longleftrightarrow> same_region p p' \<and> pmm_mem p' = pmm_mem p \<and> pmm_free p' = pmm_free p \<and>
     pmm_blocks p' = pmm_blocks p \<and> ref_of p' = (ref_of p)(i := v)"

lemmas pmm_changes = pmm_takes_def pmm_gives_def pmm_counts_def

lemma pmm_rep_views:
  assumes "pmm_rep p b r"
  shows "pmm_free p = free_of b" "pmm_blocks p = blocks_of b" "i < pmm_pages p \<Longrightarrow> ref_of p i = r ! i"
    "pmm_buddy p = Some b" "k_page_refcounts p = Some r" "length r = pmm_pages p" "buddy_inv b"
  using assms by (simp_all add: pmm_rep_def pmm_views)

text \<open>A block of \<open>n\<close> pages handed out by \<open>Alloc\<close> of \<open>sz\<close> pages.\<close>

lemma pmm_alloc:
  assumes rep: "pmm_rep p b r" and sz: "sz < 2 ^ 31"
  obtains (fit) b' q where "Alloc b sz = Some (b', int q)"
      "own_block (p\<lparr>pmm_buddy := Some b'\<rparr>) (int q) =
         Some (p\<lparr>pmm_buddy := Some b', k_page_refcounts := Some (fill r q (request_pages sz) 1)\<rparr>)"
      "pmm_rep (p\<lparr>pmm_buddy := Some b', k_page_refcounts := Some (fill r q (request_pages sz) 1)\<rparr>) b'
         (fill r q (request_pages sz) 1)"
      "pmm_takes p (p\<lparr>pmm_buddy := Some b', k_page_refcounts := Some (fill r q (request_pages sz) 1)\<rparr>) q (request_pages sz)"
      "request_pages sz dvd q" "q + request_pages sz \<le> pmm_pages p"
    | (full) "Alloc b sz = Some (b, -1)"
      "\<nexists>q. request_pages sz dvd q \<and> {q..<q + request_pages sz} \<subseteq> pmm_free p"
proof -
  let ?n = "request_pages sz"
  have n: "0 < ?n" using request_pages_pos [OF sz] .
  consider (1) b' q where "Alloc b sz = Some (b', int q)" "buddy_inv b'" "?n dvd q" "{q..<q + ?n} \<subseteq> free_of b"
      "free_of b' = free_of b - {q..<q + ?n}" "blocks_of b' = insert (q, ?n) (blocks_of b)" "page_count b' = page_count b"
    | (2) "Alloc b sz = Some (b, -1)" "\<nexists>q. ?n dvd q \<and> {q..<q + ?n} \<subseteq> free_of b"
    using Alloc_outcome [OF pmm_rep_views(7) [OF rep] sz] by (elim disjE exE conjE) (rule that; assumption)+
  then show ?thesis
  proof cases
    case 1
    have qn: "q + ?n \<le> pmm_pages p" using pmm_rep_run [OF rep 1(4) n] .
    have own: "own_block (p\<lparr>pmm_buddy := Some b'\<rparr>) (int q) =
         Some (p\<lparr>pmm_buddy := Some b', k_page_refcounts := Some (fill r q ?n 1)\<rparr>)"
      using own_block_eq [OF rep 1(2,7,4) _ n] 1(6) by simp
    have rep': "pmm_rep (p\<lparr>pmm_buddy := Some b', k_page_refcounts := Some (fill r q ?n 1)\<rparr>) b' (fill r q ?n 1)"
      by (rule pmm_rep_take [OF rep 1(2,7,4,5) qn])
    have "ref_of (p\<lparr>pmm_buddy := Some b', k_page_refcounts := Some (fill r q ?n 1)\<rparr>) i =
        (if i \<in> {q..<q + ?n} then 1 else ref_of p i)" for i
      using qn pmm_rep_views(5,6) [OF rep] by (auto simp: ref_of_def)
    then have "pmm_takes p (p\<lparr>pmm_buddy := Some b', k_page_refcounts := Some (fill r q ?n 1)\<rparr>) q ?n"
      using 1(4-6) pmm_rep_views(4) [OF rep] by (simp add: pmm_takes_def same_region_def pmm_free_def pmm_blocks_def)
    from fit [OF 1(1) own rep' this 1(3) qn] show ?thesis .
  next
    case 2
    then show ?thesis using full pmm_rep_views(1) [OF rep] by simp
  qed
qed

lemma request_pages_single: "request_pages 0 = 1"
  by (simp add: request_pages_def NextPowerOfTwo_def)

lemma pmm_takes_mem: "pmm_takes p p' q n \<Longrightarrow> pmm_takes p (p'\<lparr>pmm_mem := m\<rparr>) q n"
  by (simp add: pmm_takes_def same_region_def pmm_views)

lemma try_alloc_page_impl_outcome:
  assumes rep: "pmm_rep p b r"
  obtains (fit) p' b' r' i where "try_alloc_page_impl p clear = Some (p', page_addr p i)" "pmm_rep p' b' r'"
      "pmm_takes p p' i 1" "i < pmm_pages p"
      "pmm_mem p' = (if clear then zero_bytes (pmm_mem p) (page_addr p i) PGSIZE else pmm_mem p)"
    | (full) "try_alloc_page_impl p clear = Some (p, 0)" "pmm_free p = {}"
proof (cases rule: pmm_alloc [OF rep, of 0])
  case (2 b' i)
  have i: "i < pmm_pages p" "pmm_pages p = length r" using 2(6) pmm_rep_views(6) [OF rep] by (simp_all add: request_pages_single)
  have "{i..<i + 1} \<subseteq> pmm_free p" using 2(4) unfolding request_pages_single pmm_takes_def by (elim conjE)
  then have "i \<in> free_of b" using pmm_rep_views(1) [OF rep] by simp
  then have z: "r ! i = 0" using rep i(1) unfolding pmm_rep_def by blast
  let ?p = "p\<lparr>pmm_buddy := Some b', k_page_refcounts := Some (fill r i 1 1)\<rparr>"
  define P where "P = (if clear then ?p\<lparr>pmm_mem := zero_bytes (pmm_mem p) (page_addr p i) PGSIZE\<rparr> else ?p)"
  have "pgnm2pa (p\<lparr>pmm_buddy := Some b'\<rparr>) (int i) = page_addr p i"
    using pgnm2pa_eq [OF rep i(1)] by (simp add: pgnm2pa_def)
  then have "try_alloc_page_impl p clear = Some (P, page_addr p i)"
    using 2(1) i z pmm_rep_views(4,5) [OF rep] pmm_rep_index(2) [OF rep i(1)] fill_1 [of i r 1]
    by (simp add: P_def try_alloc_page_impl_def page_index_in_range_def arr_get_def arr_set_def Let_def)
  moreover have "pmm_rep P b' (fill r i 1 1)" "pmm_takes p P i 1"
    using 2(3,4) unfolding P_def request_pages_single by (cases clear; simp only: if_True if_False pmm_rep_mem pmm_takes_mem)+
  ultimately show ?thesis using i(1) by (rule fit) (simp add: P_def)
next
  case 3
  have "{i..<i + request_pages 0} = {i}" for i by (auto simp: request_pages_single)
  then have "i \<notin> pmm_free p" for i using 3(2) by (simp add: request_pages_single)
  then have "pmm_free p = {}" by blast
  moreover have "try_alloc_page_impl p clear = Some (p, 0)"
    using 3(1) pmm_rep_views(4) [OF rep] by (simp add: try_alloc_page_impl_def)
  ultimately show ?thesis by (rule full [rotated])
qed simp


text \<open>Releasing a whole block: all its counts must be 1.\<close>

lemma release_block_refs:
  assumes rep: "pmm_rep p b r" and blk: "(q, n) \<in> blocks_of b"
  obtains p' b' r' where
    "(do { p \<leftarrow> set_block_refs p q n 1 0; buddy_release p q }) =
       (if \<forall>j\<in>{q..<q + n}. ref_of p j = 1 then Some p' else None)"
    "pmm_rep p' b' r'" "pmm_gives p p' q n"
proof -
  have qn: "q + n \<le> pmm_pages p" using pmm_rep_block [OF rep blk] by simp
  obtain b' where b': "buddy_inv b'" "page_count b' = page_count b" "free_of b' = free_of b \<union> {q..<q + n}"
    "blocks_of b' = blocks_of b - {(q, n)}"
    "\<And>refs. buddy_release (p\<lparr>k_page_refcounts := Some refs\<rparr>) q = Some (p\<lparr>k_page_refcounts := Some refs, pmm_buddy := Some b'\<rparr>)"
    by (rule buddy_release_eq [OF rep blk]) (rule that)
  define p' where "p' = p\<lparr>k_page_refcounts := Some (fill r q n 0), pmm_buddy := Some b'\<rparr>"
  have v: "k_page_refcounts p = Some r" "length r = pmm_pages p" "pmm_pages p < 2 ^ 32"
    using pmm_rep_views(5,6) [OF rep] pmm_rep_pages [OF rep] by simp_all
  have all: "(\<forall>j\<in>{q..<q + n}. ref_of p j = 1) \<longleftrightarrow> (\<forall>j\<in>{q..<q + n}. r ! j = 1)"
    by (rule ball_cong) (use qn v(1,2) in \<open>auto simp: ref_of_def\<close>)
  have "ref_of p' i = (if i \<in> {q..<q + n} then 0 else ref_of p i)" for i
    using qn v(1,2) by (auto simp: ref_of_def p'_def)
  then have g: "pmm_gives p p' q n"
    using b'(3,4) pmm_rep_views(4) [OF rep] by (simp add: pmm_gives_def p'_def same_region_def pmm_free_def pmm_blocks_def)
  have rep': "pmm_rep p' b' (fill r q n 0)" unfolding p'_def by (rule pmm_rep_give [OF rep b'(1-3) qn])
  show ?thesis
    by (rule that [OF _ rep' g]) (simp add: all [unfolded One_nat_def] set_block_refs_eq [OF v qn] b'(5) p'_def)
qed

text \<open>\<open>release_block_at\<close>: exactly the start of a live block whose pages all have count 1 is released.\<close>

lemma release_block_at_block:
  assumes rep: "pmm_rep p b r" and blk: "(q, n) \<in> blocks_of b"
  obtains p' b' r' where
    "release_block_at p q = (if \<forall>j\<in>{q..<q + n}. ref_of p j = 1 then Some p' else None)"
    "pmm_rep p' b' r'" "pmm_gives p p' q n"
proof -
  have "0 < n" "q < pmm_pages p" using pmm_rep_block [OF rep blk] by simp_all
  then obtain res where "query_page b (q mod 2 ^ 32) = Some res" "in_range res" "\<not> is_free res"
    "block_offset res = q" "block_pages res = n"
    using query_page_owned [OF pmm_rep_views(7) [OF rep] blk, of q] pmm_rep_index(1) [OF rep, of q] by auto
  then have "release_block_at p q = (do { p \<leftarrow> set_block_refs p q n 1 0; buddy_release p q })"
    using pmm_rep_views(4) [OF rep] by (simp add: release_block_at_def)
  then show ?thesis using release_block_refs [OF rep blk] that by metis
qed

lemma release_block_at_other:
  assumes rep: "pmm_rep p b r" and none: "\<nexists>n. (q, n) \<in> blocks_of b"
  shows "release_block_at p q = None"
proof (cases "q < pmm_pages p")
  case True
  then have q: "q mod 2 ^ 32 = q" "page_count b = pmm_pages p"
    using pmm_rep_index(1) [OF rep] rep by (auto simp: pmm_rep_def)
  obtain res where "query_page b q = Some res" "is_free res \<or> block_offset res \<noteq> q"
    using query_page_other [OF pmm_rep_views(7) [OF rep] _ none] q(2) True by auto
  then show ?thesis using pmm_rep_views(4) [OF rep] q(1) by (auto simp: release_block_at_def)
next
  case False
  have off: "block_offset res \<noteq> q" if "query_page b (q mod 2 ^ 32) = Some res" "in_range res" "\<not> is_free res" for res
  proof (cases "q mod 2 ^ 32 < page_count b")
    case True
    then have lt: "q mod 2 ^ 32 < pmm_pages p" using rep by (simp add: pmm_rep_def)
    show ?thesis
    proof (cases rule: pmm_rep_cases [OF rep lt])
      case 1
      then show ?thesis using that query_page_free [OF pmm_rep_views(7) [OF rep] 1(1)] by auto
    next
      case (2 s n)
      then have "block_offset res = s" using query_page_owned [OF pmm_rep_views(7) [OF rep] 2(1-3)] that(1) by auto
      then show ?thesis using 2(2) lt False by linarith
    qed
  next
    case False
    then show ?thesis using that(1,2) by (auto simp: query_page_def zero_result_def)
  qed
  show ?thesis using pmm_rep_views(4) [OF rep] off
    by (cases "query_page b (q mod 2 ^ 32)") (auto simp: release_block_at_def)
qed


text \<open>\<open>free_page\<close> on the page with number \<open>i\<close>.\<close>

lemma free_page_out:
  assumes "pa2pgnm p pa = Some i" "\<not> i < pmm_pages p"
  shows "free_page p pa = Some p"
  using assms by (simp add: free_page_def page_index_in_range_def)

lemma free_page_unallocated:
  assumes rep: "pmm_rep p b r" and i: "pa2pgnm p pa = Some i" "i < pmm_pages p" and none: "\<nexists>n. (i, n) \<in> blocks_of b"
  shows "free_page p pa = None"
proof (cases rule: pmm_rep_cases [OF rep i(2)])
  case 1
  then obtain res where "query_page b i = Some res" "is_free res"
    using query_page_free [OF pmm_rep_views(7) [OF rep]] by blast
  then show ?thesis using i pmm_rep_views(4,5) [OF rep] pmm_rep_index(1) [OF rep i(2)]
    by (simp add: free_page_def page_index_in_range_def)
next
  case (2 q n)
  then obtain res where res: "query_page b i = Some res" "in_range res" "\<not> is_free res" "block_offset res = q" "block_pages res = n"
    using query_page_owned [OF pmm_rep_views(7) [OF rep]] by metis
  have "q \<noteq> i" using none 2(1) by blast
  then have "1 < n" using 2(2,3) by linarith
  then show ?thesis using i res \<open>q \<noteq> i\<close> pmm_rep_views(4,5) [OF rep] pmm_rep_index(1) [OF rep i(2)]
    by (simp add: free_page_def page_index_in_range_def)
qed

lemma free_page_run:
  assumes rep: "pmm_rep p b r" and i: "pa2pgnm p pa = Some i" and blk: "(i, n) \<in> blocks_of b" and n: "1 < n"
  shows "free_page p pa = release_block_at p i"
proof -
  have lt: "i < pmm_pages p" using pmm_rep_block [OF rep blk] by simp
  obtain res where "query_page b i = Some res" "in_range res" "\<not> is_free res" "block_offset res = i" "block_pages res = n"
    using query_page_owned [OF pmm_rep_views(7) [OF rep] blk, of i] n by auto
  then show ?thesis using i n lt pmm_rep_views(4,5) [OF rep] pmm_rep_index(1) [OF rep lt]
    by (simp add: free_page_def page_index_in_range_def release_block_at_def)
qed

lemma pmm_counts_rep:
  assumes rep: "pmm_rep p b r" and i: "i < pmm_pages p" "r ! i \<noteq> 0" and v: "v \<noteq> 0" "v \<le> UINT16_MAX"
  shows "pmm_rep (p\<lparr>k_page_refcounts := Some (r[i := v])\<rparr>) b (r[i := v])"
    "pmm_counts p (p\<lparr>k_page_refcounts := Some (r[i := v])\<rparr>) i v"
proof -
  show "pmm_rep (p\<lparr>k_page_refcounts := Some (r[i := v])\<rparr>) b (r[i := v])"
    by (rule pmm_rep_count [OF rep i v])
  show "pmm_counts p (p\<lparr>k_page_refcounts := Some (r[i := v])\<rparr>) i v"
    using i pmm_rep_views(5,6) [OF rep]
    by (auto simp: pmm_counts_def same_region_def pmm_free_def pmm_blocks_def ref_of_def fun_eq_iff)
qed

lemma pmm_rep_live:
  assumes "pmm_rep p b r" "(q, n) \<in> blocks_of b" "q \<le> i" "i < q + n"
  shows "i < pmm_pages p" "r ! i \<noteq> 0" "r ! i \<le> UINT16_MAX"
proof -
  show lt: "i < pmm_pages p" using pmm_rep_block [OF assms(1,2)] assms(4) by simp
  have "i \<notin> free_of b" using blocks_of_not_free [OF assms(2)] assms(3,4) by auto
  then show "r ! i \<noteq> 0" "r ! i \<le> UINT16_MAX" using assms(1) lt unfolding pmm_rep_def by blast+
qed

lemma free_page_single:
  assumes rep: "pmm_rep p b r" and i: "pa2pgnm p pa = Some i" and blk: "(i, 1) \<in> blocks_of b"
  obtains (shared) p' r' where "free_page p pa = Some p'" "1 < ref_of p i" "pmm_rep p' b r'" "pmm_counts p p' i (ref_of p i - 1)"
    | (last) p' b' r' where "free_page p pa = Some p'" "ref_of p i = 1" "pmm_rep p' b' r'" "pmm_gives p p' i 1"
proof -
  have lt: "i < pmm_pages p" "r ! i \<noteq> 0" "r ! i \<le> UINT16_MAX" using pmm_rep_live [OF rep blk] by simp_all
  note v = pmm_rep_views(4,5,6) [OF rep] pmm_rep_index(1) [OF rep lt(1)] pmm_rep_views(3) [OF rep lt(1)]
  obtain res where "query_page b i = Some res" "in_range res" "\<not> is_free res" "block_offset res = i" "block_pages res = 1"
    using query_page_owned [OF pmm_rep_views(7) [OF rep] blk, of i] by auto
  then have eq: "free_page p pa = (if 1 < r ! i then Some (p\<lparr>k_page_refcounts := Some (r[i := r ! i - 1])\<rparr>)
     else buddy_release (p\<lparr>k_page_refcounts := Some (r[i := 0])\<rparr>) i)"
    using i lt(1) v(1-4) by (simp add: free_page_def page_index_in_range_def arr_get_def arr_set_def)
  show ?thesis
  proof (cases "1 < r ! i")
    case True
    then have "r ! i - 1 \<noteq> 0" "r ! i - 1 \<le> UINT16_MAX" using lt(3) by auto
    from pmm_counts_rep [OF rep lt(1,2) this] show ?thesis using shared eq True v(5) by simp
  next
    case False
    then have one: "r ! i = 1" using lt(2) by simp
    obtain p' b' r' where p': "(do { p \<leftarrow> set_block_refs p i 1 1 0; buddy_release p i }) =
        (if \<forall>j\<in>{i..<i + 1}. ref_of p j = 1 then Some p' else None)" "pmm_rep p' b' r'" "pmm_gives p p' i 1"
      by (rule release_block_refs [OF rep blk])
    have "set_block_refs p i 1 1 0 = Some (p\<lparr>k_page_refcounts := Some (r[i := 0])\<rparr>)"
      using set_block_refs_eq [OF v(2,3), of i 1 1 0] lt(1) one v(3) pmm_rep_pages [OF rep] fill_1 [of i r 0] by simp
    then have "free_page p pa = Some p'" using p'(1) eq one v(5) by simp
    then show ?thesis using last p'(2,3) one v(5) by simp
  qed
qed

text \<open>\<open>retain_page\<close>: a live page gains a reference, unless its count is at the maximum.\<close>

lemma retain_page_outcome:
  assumes rep: "pmm_rep p b r" and i: "pa2pgnm p pa = Some i"
  obtains (yes) p' r' where "retain_page p pa = Some (p', True)" "pmm_rep p' b r'" "pmm_counts p p' i (ref_of p i + 1)"
      "i < pmm_pages p" "0 < ref_of p i" "ref_of p i < UINT16_MAX"
    | (no) "retain_page p pa = Some (p, False)" "\<not> i < pmm_pages p \<or> ref_of p i = 0 \<or> ref_of p i = UINT16_MAX"
proof (cases "i < pmm_pages p \<and> r ! i \<noteq> 0 \<and> r ! i \<noteq> UINT16_MAX")
  case True
  then have lt: "i < pmm_pages p" "r ! i \<noteq> 0" "r ! i \<noteq> UINT16_MAX" by simp_all
  then have mx: "r ! i < UINT16_MAX" using rep unfolding pmm_rep_def by (metis le_neq_implies_less)
  then have "r ! i + 1 \<noteq> 0" "r ! i + 1 \<le> UINT16_MAX" by auto
  note step = pmm_counts_rep [OF rep lt(1,2) this]
  have "retain_page p pa = Some (p\<lparr>k_page_refcounts := Some (r[i := r ! i + 1])\<rparr>, True)"
    using lt i pmm_rep_views(5,6) [OF rep]
    by (simp add: retain_page_def page_index_in_range_def arr_get_def arr_set_def)
  then show ?thesis using yes step lt mx pmm_rep_views(3) [OF rep lt(1)] by simp
next
  case False
  have "retain_page p pa = Some (p, False)"
    using False i pmm_rep_views(5,6) [OF rep]
    by (auto simp: retain_page_def page_index_in_range_def arr_get_def)
  moreover have "\<not> i < pmm_pages p \<or> ref_of p i = 0 \<or> ref_of p i = UINT16_MAX"
    using False pmm_rep_views(3) [OF rep] by auto
  ultimately show ?thesis by (rule no)
qed


section \<open>Contiguous blocks\<close>

lemma request_pages_ge:
  assumes "0 < sz" "sz < 2 ^ 31"
  shows "nat sz \<le> request_pages sz"
proof -
  have u: "unat (word_of_int sz :: u32) = nat sz"
    using assms by (simp add: unat_eq_nat_uint uint_word_of_int)
  then have "unat (word_of_int sz :: u32) \<le> 2 ^ 31" "(word_of_int sz :: u32) \<noteq> 0"
    using assms by (auto simp: nat_le_iff unat_eq_zero [symmetric])
  from NextPowerOfTwo_least [OF this(2,1)] show ?thesis
    using u assms(1) by (auto simp: request_pages_def)
qed

text \<open>The common part of \<open>try_alloc_pages\<close> and \<open>kmalloc_impl\<close>: a block of \<open>count\<close> pages, rounded up.\<close>

lemma page_addr_block:
  assumes rep: "pmm_rep p b r" and "q + n \<le> pmm_pages p" "m \<le> n" "0 < n"
  shows "page_addr p q + m * PGSIZE < 2 ^ 64"
proof -
  have "page_addr p q + m * PGSIZE \<le> pa_start p + (q + n) * PGSIZE"
    using assms(3) by (simp add: page_addr_def add_mult_distrib)
  also have "\<dots> \<le> pa_start p + pmm_pages p * PGSIZE" using assms(2) by simp
  also have "\<dots> < 2 ^ 64" using rep by (simp add: pmm_rep_def)
  finally show ?thesis .
qed

lemma try_alloc_pages_outcome:
  assumes rep: "pmm_rep p b r" and c: "0 < count" "count < 2 ^ 31"
  obtains (fit) p' b' r' q where "try_alloc_pages p count = Some (p', page_addr p q)" "pmm_rep p' b' r'"
      "pmm_takes p p' q (request_pages count)" "q + request_pages count \<le> pmm_pages p"
      "pmm_mem p' = zero_bytes (pmm_mem p) (page_addr p q) (nat count * PGSIZE)"
    | (full) "try_alloc_pages p count = Some (p, 0)"
      "\<nexists>q. request_pages count dvd q \<and> {q..<q + request_pages count} \<subseteq> pmm_free p"
proof (cases rule: pmm_alloc [OF rep c(2)])
  case (1 b' q)
  let ?n = "request_pages count"
  let ?p = "p\<lparr>pmm_buddy := Some b', k_page_refcounts := Some (fill r q ?n 1)\<rparr>"
  have n: "0 < ?n" using request_pages_pos [OF c(2)] .
  have q: "q < pmm_pages p" using 1(6) n by simp
  have "pgnm2pa ?p (int q) = page_addr p q" using pgnm2pa_eq [OF rep q] by (simp add: pgnm2pa_def)
  moreover have "u64_mul (to_u64 count) PGSIZE = nat count * PGSIZE"
  proof -
    have "nat count < 2 ^ 31" using c by simp
    then show ?thesis using c(1) by (simp add: to_u64_def u64_mul_def PGSIZE_def)
  qed
  ultimately have "try_alloc_pages p count =
      Some (?p\<lparr>pmm_mem := zero_bytes (pmm_mem p) (page_addr p q) (nat count * PGSIZE)\<rparr>, page_addr p q)"
    using 1(1,2) c(1) q pmm_rep_views(4) [OF rep] pmm_rep_index(2) [OF rep q]
    by (simp add: try_alloc_pages_def page_index_in_range_def Let_def)
  from fit [OF this pmm_rep_mem [OF 1(3)] pmm_takes_mem [OF 1(4)] 1(6)] show ?thesis by simp
next
  case 2
  then show ?thesis using full c(1) pmm_rep_views(4) [OF rep] by (simp add: try_alloc_pages_def)
qed

lemma size_to_page_num_small:
  assumes "sz \<le> 2 ^ 43 - PGSIZE"
  shows "size_to_page_num sz = int ((sz + PGSIZE - 1) div PGSIZE)" "size_to_page_num sz < 2 ^ 31" "0 \<le> size_to_page_num sz"
proof -
  have d: "sz div PGSIZE + (if sz mod PGSIZE \<noteq> 0 then 1 else 0) = (sz + PGSIZE - 1) div PGSIZE"
  proof -
    have "sz + PGSIZE - 1 = sz mod PGSIZE + (PGSIZE - 1) + sz div PGSIZE * PGSIZE"
      using div_mult_mod_eq [of sz PGSIZE] by (simp add: PGSIZE_def)
    then have "(sz + PGSIZE - 1) div PGSIZE = sz div PGSIZE + (sz mod PGSIZE + (PGSIZE - 1)) div PGSIZE"
      by (simp only:) (rule div_mult_self1, simp add: PGSIZE_def)
    moreover have "(m + (PGSIZE - 1)) div PGSIZE = (if m \<noteq> 0 then 1 else 0)" if "m < PGSIZE" for m
      using that by (auto simp: PGSIZE_def div_nat_eqI)
    ultimately show ?thesis by (simp add: PGSIZE_def)
  qed
  have "(sz + PGSIZE - 1) div PGSIZE < 2 ^ 31"
    using assms by (simp add: PGSIZE_def div_less_iff_less_mult)
  then show "size_to_page_num sz = int ((sz + PGSIZE - 1) div PGSIZE)" "size_to_page_num sz < 2 ^ 31" "0 \<le> size_to_page_num sz"
    unfolding size_to_page_num_def d by (simp_all add: to_s32_def Let_def)
qed

lemma kmalloc_impl_outcome:
  assumes rep: "pmm_rep p b r" and n: "size_to_page_num sz = int n" "n < 2 ^ 31"
  obtains (fit) p' b' r' q where "kmalloc_impl p sz clear = Some (p', page_addr p q)" "pmm_rep p' b' r'"
      "pmm_takes p p' q (request_pages (int n))" "q + request_pages (int n) \<le> pmm_pages p" "n \<le> pmm_pages p"
      "pmm_mem p' = (if clear then zero_bytes (pmm_mem p) (page_addr p q) (n * PGSIZE) else pmm_mem p)"
    | (full) "kmalloc_impl p sz clear = Some (p, 0)"
      "pmm_pages p < n \<or> (\<nexists>q. request_pages (int n) dvd q \<and> {q..<q + request_pages (int n)} \<subseteq> pmm_free p)"
proof -
  have c: "int n < 2 ^ 31" and m: "nat (int n mod 4294967296) = n" using n(2) by simp_all
  show ?thesis
  proof (cases "pmm_pages p < n")
    case True
    then show ?thesis using full n(1) m by (simp add: kmalloc_impl_def Let_def)
  next
    case le: False
    show ?thesis
    proof (cases rule: pmm_alloc [OF rep c])
      case (1 b' q)
      let ?n = "request_pages (int n)"
      let ?p = "p\<lparr>pmm_buddy := Some b', k_page_refcounts := Some (fill r q ?n 1)\<rparr>"
      define P where "P = (if clear then ?p\<lparr>pmm_mem := zero_bytes (pmm_mem p) (page_addr p q) (n * PGSIZE)\<rparr> else ?p)"
      have q: "q < pmm_pages p" using 1(6) request_pages_pos [OF c] by simp
      have "pgnm2pa ?p (int q) = page_addr p q" using pgnm2pa_eq [OF rep q] by (simp add: pgnm2pa_def)
      moreover have "u64_mul (to_u64 (int n)) PGSIZE = n * PGSIZE"
        using n(2) by (simp add: to_u64_def u64_mul_def PGSIZE_def)
      ultimately have "kmalloc_impl p sz clear = Some (P, page_addr p q)"
        using 1(1,2) le q n(1) m pmm_rep_views(4) [OF rep] by (simp add: kmalloc_impl_def Let_def P_def)
      moreover have "pmm_rep P b' (fill r q ?n 1)" "pmm_takes p P q ?n"
        using 1(3,4) unfolding P_def by (cases clear; simp only: if_True if_False pmm_rep_mem pmm_takes_mem)+
      ultimately show ?thesis by (rule fit) (use 1(6) le P_def in auto)
    next
      case 2
      then show ?thesis using full le n(1) m pmm_rep_views(4) [OF rep] by (simp add: kmalloc_impl_def Let_def)
    qed
  qed
qed

end
