(* ===== verification/Pmm_Theorems.thy ===== *)
theory Pmm_Theorems
  imports Pmm_Correct
begin

text \<open>
  What the physical memory manager of \<open>src/kernel/mem/physical_memory_manager.cc\<close> guarantees to the
  page tables, the process memory manager and the kernel buffers that call it: single pages with
  reference counts, their batches, contiguous blocks, and the invariant over every sequence of calls.
\<close>

section \<open>Sharing as counting\<close>

text \<open>The page at address \<open>pa\<close> lies in no live block of several pages, as the pages that page tables
  share.\<close>

definition single_at :: "Pmm \<Rightarrow> nat \<Rightarrow> bool" where
  "single_at p pa \<longleftrightarrow>
     (\<forall>(q, n)\<in>pmm_blocks p. case pa2pgnm p pa of None \<Rightarrow> True | Some i \<Rightarrow> q \<le> i \<and> i < q + n \<longrightarrow> n = 1)"

datatype ref_op = Retain nat | Release nat

primrec run_ref_ops :: "ref_op list \<Rightarrow> Pmm \<Rightarrow> (Pmm \<times> bool list) option" where
  "run_ref_ops [] p = Some (p, [])"
| "run_ref_ops (op # ops) p =
     (case op of
        Retain pa \<Rightarrow> do {
          (p, ok) \<leftarrow> retain_page p pa;
          (p, oks) \<leftarrow> run_ref_ops ops p;
          Some (p, ok # oks)
        }
      | Release pa \<Rightarrow> do {
          p \<leftarrow> free_page p pa;
          run_ref_ops ops p
        })"

text \<open>The reference semantics: a count per page, nothing else. Releasing a page without references
  is the error.\<close>

primrec spec_ref_ops ::
  "(nat \<Rightarrow> nat option) \<Rightarrow> nat \<Rightarrow> ref_op list \<Rightarrow> (nat \<Rightarrow> nat) \<Rightarrow> ((nat \<Rightarrow> nat) \<times> bool list) option" where
  "spec_ref_ops num pages [] c = Some (c, [])"
| "spec_ref_ops num pages (op # ops) c =
     (case op of
        Retain pa \<Rightarrow> do {
          i \<leftarrow> num pa;
          let ok = (i < pages \<and> c i \<noteq> 0 \<and> c i \<noteq> UINT16_MAX) in do {
            (c, oks) \<leftarrow> spec_ref_ops num pages ops (if ok then c(i := c i + 1) else c);
            Some (c, ok # oks)
          }
        }
      | Release pa \<Rightarrow> do {
          i \<leftarrow> num pa;
          if \<not> i < pages then spec_ref_ops num pages ops c
          else if c i = 0 then None
          else spec_ref_ops num pages ops (c(i := c i - 1))
        })"

lemma single_at_live:
  assumes "pmm_rep p b r" "single_at p pa" "pa2pgnm p pa = Some i" "i < pmm_pages p" "ref_of p i \<noteq> 0"
  shows "(i, 1) \<in> blocks_of b"
proof (cases rule: pmm_rep_cases [OF assms(1,4)])
  case 1
  then show ?thesis using assms(5) pmm_rep_views(3) [OF assms(1,4)] by simp
next
  case (2 q n)
  then have "n = 1" using assms(2,3) pmm_rep_views(2) [OF assms(1)] unfolding single_at_def by fastforce
  then show ?thesis using 2(1-3) by (simp add: le_antisym less_Suc_eq_le)
qed

lemma single_at_keeps:
  "single_at p pa \<Longrightarrow> same_region p p' \<Longrightarrow> pmm_blocks p' \<subseteq> pmm_blocks p \<Longrightarrow> single_at p' pa"
  using same_region_addr [of p p'] unfolding single_at_def by auto

lemma pmm_unallocated:
  assumes "pmm_rep p b r" "i < pmm_pages p" "ref_of p i = 0"
  shows "\<nexists>n. (i, n) \<in> blocks_of b"
proof
  assume "\<exists>n. (i, n) \<in> blocks_of b"
  then obtain n where n: "(i, n) \<in> blocks_of b" by blast
  then have "r ! i \<noteq> 0" using pmm_rep_live(2) [OF assms(1) n] blocks_of_pos [OF n] by simp
  then show False using assms(3) pmm_rep_views(3) [OF assms(1,2)] by simp
qed

text \<open>One release under the reference semantics.\<close>

lemma free_page_counts:
  assumes rep: "pmm_rep p b r" and sg: "single_at p pa" and i: "pa2pgnm p pa = Some i" "i < pmm_pages p"
  obtains (dead) "ref_of p i = 0" "free_page p pa = None"
    | (live) p' where "ref_of p i \<noteq> 0" "free_page p pa = Some p'" "pmm_inv p'" "same_region p p'"
        "pmm_blocks p' \<subseteq> pmm_blocks p" "ref_of p' = (ref_of p)(i := ref_of p i - 1)"
proof (cases "ref_of p i = 0")
  case True
  then show ?thesis using dead free_page_unallocated [OF rep i pmm_unallocated [OF rep i(2) True]] by simp
next
  case False
  have blk: "(i, 1) \<in> blocks_of b" by (rule single_at_live [OF rep sg i False])
  show ?thesis
  proof (cases rule: free_page_single [OF rep i(1) blk])
    case (1 p' r')
    then show ?thesis using live [OF False 1(1) pmm_invI [OF 1(3)]] by (simp add: pmm_counts_def)
  next
    case (2 p' b' r')
    moreover have "ref_of p' = (ref_of p)(i := ref_of p i - 1)"
      using 2(2,4) by (auto simp: pmm_gives_def fun_eq_iff)
    ultimately show ?thesis using live [OF False 2(1) pmm_invI [OF 2(3)]] by (auto simp: pmm_gives_def)
  qed
qed

lemma run_ref_ops_spec:
  assumes "pmm_inv p" "\<forall>pa. Release pa \<in> set ops \<longrightarrow> single_at p pa"
  shows "map_option (\<lambda>(p', oks). (ref_of p', oks)) (run_ref_ops ops p) =
     spec_ref_ops (pa2pgnm p) (pmm_pages p) ops (ref_of p) \<and>
     (\<forall>p' oks. run_ref_ops ops p = Some (p', oks) \<longrightarrow> pmm_inv p' \<and> same_region p p' \<and>
       pmm_blocks p' \<subseteq> pmm_blocks p)"
  using assms
proof (induction ops arbitrary: p)
  case Nil
  then show ?case by simp
next
  case (Cons op ops)
  have sr: "pmm_pages p' = pmm_pages p" "pa2pgnm p' = pa2pgnm p" if "same_region p p'" for p'
    using that same_region_addr [OF that] by (simp_all add: same_region_def)
  have IH: "map_option (\<lambda>(p', oks). (ref_of p', oks)) (run_ref_ops ops q) =
     spec_ref_ops (pa2pgnm p) (pmm_pages p) ops (ref_of q)"
     "run_ref_ops ops q = Some (p', oks) \<Longrightarrow> pmm_inv p' \<and> same_region p p' \<and> pmm_blocks p' \<subseteq> pmm_blocks p"
    if q: "pmm_inv q" "same_region p q" "pmm_blocks q \<subseteq> pmm_blocks p" for q p' oks
  proof -
    have "\<forall>pa. Release pa \<in> set ops \<longrightarrow> single_at q pa"
      using Cons.prems(2) single_at_keeps [OF _ q(2,3)] by simp
    from Cons.IH [OF q(1) this] show "map_option (\<lambda>(p', oks). (ref_of p', oks)) (run_ref_ops ops q) =
       spec_ref_ops (pa2pgnm p) (pmm_pages p) ops (ref_of q)"
       "run_ref_ops ops q = Some (p', oks) \<Longrightarrow> pmm_inv p' \<and> same_region p p' \<and> pmm_blocks p' \<subseteq> pmm_blocks p"
      using sr [OF q(2)] same_region_trans [OF q(2)] q(3) by auto
  qed
  note IHp = IH [OF Cons.prems(1) same_region_refl subset_refl]
  obtain b r where rep: "pmm_rep p b r" using Cons.prems(1) by (rule pmm_invE)
  show ?case
  proof (cases op)
    case (Retain pa)
    show ?thesis
    proof (cases "pa2pgnm p pa")
      case None
      then show ?thesis using Retain by (simp add: retain_page_def)
    next
      case (Some i)
      show ?thesis
      proof (cases rule: retain_page_outcome [OF rep Some])
        case (1 p' r')
        have q: "pmm_inv p'" "same_region p p'" "pmm_blocks p' \<subseteq> pmm_blocks p" "ref_of p' = (ref_of p)(i := ref_of p i + 1)"
          using pmm_invI [OF 1(2)] 1(3) by (simp_all add: pmm_counts_def)
        show ?thesis using Retain Some 1(1,4-6) IH(1) [OF q(1-3), symmetric] IH(2) [OF q(1-3)] q(4)
          by (cases "run_ref_ops ops p'") (auto simp: Let_def)
      next
        case 2
        then show ?thesis using Retain Some IHp(1) [symmetric] IHp(2)
          by (cases "run_ref_ops ops p") (auto simp: Let_def)
      qed
    qed
  next
    case (Release pa)
    show ?thesis
    proof (cases "pa2pgnm p pa")
      case None
      then show ?thesis using Release by (simp add: free_page_def)
    next
      case (Some i)
      show ?thesis
      proof (cases "i < pmm_pages p")
        case False
        then show ?thesis using Release Some IHp free_page_out [OF Some False] by auto
      next
        case True
        have "single_at p pa" using Cons.prems(2) Release by simp
        from free_page_counts [OF rep this Some True] show ?thesis
        proof cases
          case 1
          then show ?thesis using Release Some True by simp
        next
          case (2 p')
          then show ?thesis using Release Some True IH [OF 2(3-5)] by auto
        qed
      qed
    qed
  qed
qed


section \<open>Batches\<close>

lemma release_batch_item_eq:
  assumes inv: "pmm_inv p" and sg: "single_at p pa" and nz: "pa \<noteq> 0"
  shows "release_batch_item p pa = free_page p pa"
proof (cases "pa2pgnm p pa")
  case None
  then show ?thesis using nz by (simp add: release_batch_item_def free_page_def)
next
  case (Some i)
  obtain b r where rep: "pmm_rep p b r" using inv by (rule pmm_invE)
  show ?thesis
  proof (cases "i < pmm_pages p")
    case False
    then show ?thesis using Some nz by (simp add: release_batch_item_def free_page_def page_index_in_range_def)
  next
    case True
    note v = pmm_rep_views(4,5,6) [OF rep] pmm_rep_index(1) [OF rep True]
    show ?thesis
    proof (cases rule: pmm_rep_cases [OF rep True])
      case 1
      obtain res where "query_page b i = Some res" "is_free res"
        using query_page_free [OF pmm_rep_views(7) [OF rep] 1(1)] by blast
      then show ?thesis using Some True nz v
        by (simp add: release_batch_item_def free_page_def page_index_in_range_def)
    next
      case (2 q n)
      have blk: "(i, 1) \<in> blocks_of b"
        using single_at_live [OF rep sg Some True] 2(4) pmm_rep_views(3) [OF rep True] by simp
      obtain res where "query_page b i = Some res" "in_range res" "\<not> is_free res" "block_offset res = i" "block_pages res = 1"
        using query_page_owned [OF pmm_rep_views(7) [OF rep] blk, of i] by auto
      then show ?thesis using Some True nz v 2(4)
        by (simp add: release_batch_item_def free_page_def page_index_in_range_def arr_get_def)
    qed
  qed
qed

lemma free_page_keeps:
  assumes "pmm_inv p" "single_at p pa" "free_page p pa = Some p'"
  shows "pmm_inv p' \<and> same_region p p' \<and> pmm_blocks p' \<subseteq> pmm_blocks p"
proof -
  have "run_ref_ops [Release pa] p = Some (p', [])" using assms(3) by simp
  then show ?thesis using run_ref_ops_spec [OF assms(1), of "[Release pa]"] assms(2) by simp
qed

lemma for_each_release_batch:
  assumes "pmm_inv p" "\<forall>pa\<in>set pas. pa \<noteq> 0 \<longrightarrow> single_at p pa"
  shows "for_each (\<lambda>pa p. release_batch_item p pa) pas p =
     for_each (\<lambda>pa p. free_page p pa) (filter (\<lambda>pa. pa \<noteq> 0) pas) p"
  using assms
proof (induction pas arbitrary: p)
  case (Cons pa pas)
  show ?case
  proof (cases "pa = 0")
    case True
    then show ?thesis using Cons by (simp add: release_batch_item_def)
  next
    case False
    have sg: "single_at p pa" using Cons.prems(2) False by simp
    show ?thesis
    proof (cases "free_page p pa")
      case None
      then show ?thesis using False release_batch_item_eq [OF Cons.prems(1) sg False] by simp
    next
      case (Some p')
      note k = free_page_keeps [OF Cons.prems(1) sg Some]
      have "\<forall>pa\<in>set pas. pa \<noteq> 0 \<longrightarrow> single_at p' pa" using Cons.prems(2) k single_at_keeps [of p _ p'] by simp
      then show ?thesis using False Some k release_batch_item_eq [OF Cons.prems(1) sg False] Cons.IH by simp
    qed
  qed
qed simp

primrec retain_each :: "nat list \<Rightarrow> Pmm \<Rightarrow> (Pmm \<times> bool list) option" where
  "retain_each [] p = Some (p, [])"
| "retain_each (pa # pas) p = do {
     (p, ok) \<leftarrow> retain_page p pa;
     (p, oks) \<leftarrow> retain_each pas p;
     Some (p, ok # oks)
   }"

lemma retain_each_append:
  "retain_each (xs @ ys) p = do {
     (p, oks) \<leftarrow> retain_each xs p;
     (p, oks') \<leftarrow> retain_each ys p;
     Some (p, oks @ oks')
   }"
  by (induction xs arbitrary: p) (auto split: bind_splits option.splits prod.splits)

lemma retain_each_length: "retain_each pas p = Some (p', oks) \<Longrightarrow> length oks = length pas"
  by (induction pas arbitrary: p p' oks) (auto split: bind_splits prod.splits)

text \<open>The bitmap of a list of outcomes.\<close>

abbreviation mask_of :: "bool list \<Rightarrow> u64" where
  "mask_of oks \<equiv> horner_sum of_bool 2 oks"

lemma mask_of_snoc:
  assumes "length oks < 64"
  shows "mask_of (oks @ [ok]) = (if ok then mask_of oks OR push_bit (length oks) 1 else mask_of oks)"
  by (rule bit_eqI) (use assms in \<open>auto simp: bit_horner_sum_bit_word_iff bit_or_iff bit_push_bit_iff bit_exp_iff push_bit_of_1 nth_append less_Suc_eq\<close>)

lemma retain_batch_body:
  "(do {
      page_index \<leftarrow> pa2pgnm p pa;
      if \<not> page_index_in_range p page_index then Some (p, retained_mask)
      else do {
        refs \<leftarrow> k_page_refcounts p;
        ref \<leftarrow> arr_get refs page_index;
        if ref = 0 \<or> ref = UINT16_MAX then Some (p, retained_mask)
        else do {
          refs \<leftarrow> arr_set refs page_index (ref + 1);
          Some (p\<lparr>k_page_refcounts := Some refs\<rparr>, retained_mask OR push_bit index 1)
        }
      }
    }) = do {
      (p', ok) \<leftarrow> retain_page p pa;
      Some (p', if ok then retained_mask OR push_bit index 1 else retained_mask :: u64)
    }"
  by (auto simp: retain_page_def split: bind_splits)

lemma retain_batch_loop:
  assumes "n \<le> length pages" "n \<le> 64"
  shows "for_each (\<lambda>index (p, retained_mask). do {
          pa \<leftarrow> arr_get pages index;
          page_index \<leftarrow> pa2pgnm p pa;
          if \<not> page_index_in_range p page_index then Some (p, retained_mask)
          else do {
            refs \<leftarrow> k_page_refcounts p;
            ref \<leftarrow> arr_get refs page_index;
            if ref = 0 \<or> ref = UINT16_MAX then Some (p, retained_mask)
            else do {
              refs \<leftarrow> arr_set refs page_index (ref + 1);
              Some (p\<lparr>k_page_refcounts := Some refs\<rparr>, retained_mask OR push_bit index 1)
            }
          }
        }) [0..<n] (p, 0) = map_option (\<lambda>(p, oks). (p, mask_of oks)) (retain_each (take n pages) p)"
    (is "for_each ?f _ _ = _")
  using assms
proof (induction n)
  case (Suc n)
  define f where "f = ?f"
  have body: "f n (q, m) = do { (q', ok) \<leftarrow> retain_page q (pages ! n); Some (q', if ok then m OR push_bit n 1 else m) }" for q m
    using Suc.prems(1) by (simp add: f_def retain_batch_body arr_get_def)
  have tk: "take (Suc n) pages = take n pages @ [pages ! n]" using Suc.prems(1) by (simp add: take_Suc_conv_app_nth)
  have IH: "for_each f [0..<n] (p, 0) = map_option (\<lambda>(p, oks). (p, mask_of oks)) (retain_each (take n pages) p)"
    using Suc by (simp add: f_def)
  have "for_each f [0..<Suc n] (p, 0) = do { s \<leftarrow> for_each f [0..<n] (p, 0); f n s }"
    by (simp add: for_each_append)
  also have "\<dots> = map_option (\<lambda>(p, oks). (p, mask_of oks)) (retain_each (take (Suc n) pages) p)"
  proof (cases "retain_each (take n pages) p")
    case (Some res)
    obtain q oks where res: "res = (q, oks)" by force
    then have len: "length oks = n" using retain_each_length Some Suc.prems(1) by fastforce
    show ?thesis
      using mask_of_snoc [of oks] len Suc.prems(2)
      by (cases "retain_page q (pages ! n)") (auto simp: IH Some res body tk retain_each_append)
  qed (simp add: IH tk retain_each_append)
  finally show ?case by (simp add: f_def)
qed simp


section \<open>Every call keeps the invariant\<close>

text \<open>One call of the manager that returns.\<close>

inductive pmm_step :: "Pmm \<Rightarrow> Pmm \<Rightarrow> bool" where
  step_alloc: "try_alloc_page_impl p clear = Some (p', pa) \<Longrightarrow> pmm_step p p'"
| step_alloc_pages: "count < 2 ^ 31 \<Longrightarrow> try_alloc_pages p count = Some (p', pa) \<Longrightarrow> pmm_step p p'"
| step_kmalloc: "kmalloc_impl p sz clear = Some (p', pa) \<Longrightarrow> pmm_step p p'"
| step_free_page: "free_page p pa = Some p' \<Longrightarrow> pmm_step p p'"
| step_free_page1: "free_page1 p pa sz = Some (p', slab) \<Longrightarrow> pmm_step p p'"
| step_free_pages: "pmm_free_pages p pa = Some p' \<Longrightarrow> pmm_step p p'"
| step_retain: "retain_page p pa = Some (p', ok) \<Longrightarrow> pmm_step p p'"
| step_retain_batch: "retain_pages_batch p pas n = Some (p', bits) \<Longrightarrow> pmm_step p p'"
| step_release_batch: "release_pages_batch p pas n = Some p' \<Longrightarrow> pmm_step p p'"

abbreviation pmm_ok :: "Pmm \<Rightarrow> Pmm \<Rightarrow> bool" where
  "pmm_ok p p' \<equiv> pmm_inv p' \<and> same_region p p'"

lemma release_block_at_ok:
  assumes "pmm_inv p" "release_block_at p q = Some p'"
  shows "pmm_ok p p'"
proof -
  obtain b r where rep: "pmm_rep p b r" using assms(1) by (rule pmm_invE)
  then obtain n where "(q, n) \<in> blocks_of b" using release_block_at_other [OF rep] assms(2) by fastforce
  from release_block_at_block [OF rep this] obtain p1 b1 r1 where
    "release_block_at p q = (if \<forall>j\<in>{q..<q + n}. ref_of p j = 1 then Some p1 else None)" "pmm_rep p1 b1 r1" "pmm_gives p p1 q n"
    by blast
  then show ?thesis using assms(2) by (auto simp: pmm_gives_def intro: pmm_invI split: if_splits)
qed

lemma free_page_ok:
  assumes "pmm_inv p" "free_page p pa = Some p'"
  shows "pmm_ok p p'"
proof -
  obtain b r where rep: "pmm_rep p b r" using assms(1) by (rule pmm_invE)
  obtain i where i: "pa2pgnm p pa = Some i" using assms(2) by (auto simp: free_page_def split: bind_splits)
  consider (out) "\<not> i < pmm_pages p" | (un) "i < pmm_pages p" "\<nexists>n. (i, n) \<in> blocks_of b" | (blk) n where "(i, n) \<in> blocks_of b"
    by blast
  then show ?thesis
  proof cases
    case out then show ?thesis using free_page_out [OF i] assms by simp
  next
    case un then show ?thesis using free_page_unallocated [OF rep i] assms(2) by simp
  next
    case (blk n)
    show ?thesis
    proof (cases "n = 1")
      case True
      show ?thesis using free_page_single [OF rep i blk [unfolded True]]
      proof cases
        case 1 then show ?thesis using assms(2) pmm_invI by (auto simp: pmm_counts_def)
      next
        case 2 then show ?thesis using assms(2) pmm_invI by (auto simp: pmm_gives_def)
      qed
    next
      case False
      then have "free_page p pa = release_block_at p i"
        using free_page_run [OF rep i blk] blocks_of_pos [OF blk] by simp
      then show ?thesis using release_block_at_ok [OF assms(1)] assms(2) by simp
    qed
  qed
qed

lemma release_batch_item_ok:
  assumes "pmm_inv p" "release_batch_item p pa = Some p'"
  shows "pmm_ok p p'"
proof (cases "pa = 0")
  case True
  then show ?thesis using assms by (simp add: release_batch_item_def)
next
  case False
  then have "free_page p pa = Some p'"
    using assms(2) unfolding release_batch_item_def
    by (clarsimp simp: Option.bind_eq_Some_conv split: if_splits) (auto simp: free_page_def)
  then show ?thesis by (rule free_page_ok [OF assms(1)])
qed

lemma retain_page_ok:
  assumes "pmm_inv p" "retain_page p pa = Some (p', ok)"
  shows "pmm_ok p p'"
proof -
  obtain b r where rep: "pmm_rep p b r" using assms(1) by (rule pmm_invE)
  obtain i where i: "pa2pgnm p pa = Some i" using assms(2) by (auto simp: retain_page_def split: bind_splits)
  from retain_page_outcome [OF rep i] show ?thesis
  proof cases
    case 1 then show ?thesis using assms(2) pmm_invI by (auto simp: pmm_counts_def)
  next
    case 2 then show ?thesis using assms by simp
  qed
qed

lemma to_s32_range: "- (2 ^ 31) \<le> to_s32 x \<and> to_s32 x < 2 ^ 31"
proof -
  define y where "y = x mod 2 ^ 32"
  have "0 \<le> y" "y < 2 ^ 32" by (simp_all add: y_def)
  then show ?thesis by (auto simp: to_s32_def Let_def y_def [symmetric])
qed

lemma size_to_page_num_range: "- (2 ^ 31) \<le> size_to_page_num sz" "size_to_page_num sz < 2 ^ 31"
  using to_s32_range unfolding size_to_page_num_def by blast+

lemma retain_batch_keeps:
  assumes "retain_pages_batch p pas n = Some (p', bits)" "P p"
    and item: "\<And>q pa q' ok. P q \<Longrightarrow> retain_page q pa = Some (q', ok) \<Longrightarrow> P q'"
  shows "P p'"
proof (cases "pas = None \<or> n = 0")
  case False
  let ?f = "\<lambda>index (p, retained_mask). do {
     pa \<leftarrow> arr_get (the pas) index;
     (p', ok) \<leftarrow> retain_page p pa;
     Some (p', if ok then retained_mask OR push_bit index 1 else retained_mask)
   }"
  have "P (fst (p', bits))"
  proof (rule for_each_keeps [where P = "\<lambda>s. P (fst s)"])
    show "P (fst (p, 0))" using assms(2) by simp
    show "for_each ?f [0..<n] (p, 0) = Some (p', bits)"
      using assms(1) False by (simp add: retain_pages_batch_def retain_batch_body split: if_splits)
    show "P (fst s')" if s: "P (fst s)" "?f index s = Some s'" for index s s'
    proof -
      obtain pa ok where "retain_page (fst s) pa = Some (fst s', ok)"
        using s(2) by (cases s) (auto simp: Option.bind_eq_Some_conv)
      then show ?thesis by (rule item [OF s(1)])
    qed
  qed
  then show ?thesis by simp
qed (use assms in \<open>auto simp: retain_pages_batch_def\<close>)

lemma release_batch_keeps:
  assumes "release_pages_batch p pas n = Some p'" "P p"
    and item: "\<And>q pa q'. P q \<Longrightarrow> release_batch_item q pa = Some q' \<Longrightarrow> P q'"
  shows "P p'"
proof (cases "pas = None \<or> n = 0")
  case False
  then have "for_each (\<lambda>index p. do { pa \<leftarrow> arr_get (the pas) index; release_batch_item p pa }) [0..<n] p = Some p'"
    using assms(1) by (auto simp: release_pages_batch_def)
  then show ?thesis
    by (rule for_each_keeps [where P = P, OF assms(2)]) (auto simp: Option.bind_eq_Some_conv intro: item)
qed (use assms in \<open>auto simp: release_pages_batch_def\<close>)

lemma retain_batch_ok:
  assumes "pmm_inv p" "retain_pages_batch p pas n = Some (p', bits)"
  shows "pmm_ok p p'"
  by (rule retain_batch_keeps [where P = "\<lambda>q. pmm_ok p q", OF assms(2)])
    (use assms(1) retain_page_ok same_region_trans in \<open>simp, metis\<close>)

lemma release_batch_ok:
  assumes "pmm_inv p" "release_pages_batch p pas n = Some p'"
  shows "pmm_ok p p'"
  by (rule release_batch_keeps [where P = "\<lambda>q. pmm_ok p q", OF assms(2)])
    (use assms(1) release_batch_item_ok same_region_trans in \<open>simp, metis\<close>)

lemma kmalloc_impl_ok:
  assumes "pmm_inv p" "kmalloc_impl p sz clear = Some (p', pa)"
  shows "pmm_ok p p'"
proof -
  obtain b r where rep: "pmm_rep p b r" using assms(1) by (rule pmm_invE)
  show ?thesis
  proof (cases "size_to_page_num sz < 0")
    case True
    then have "size_to_page_num sz mod 2 ^ 32 = size_to_page_num sz + 2 ^ 32"
      using size_to_page_num_range [of sz] mod_pos_pos_trivial [of "size_to_page_num sz + 2 ^ 32" "2 ^ 32"] by simp
    then have "2 ^ 31 \<le> size_to_page_num sz mod 2 ^ 32" using size_to_page_num_range(1) [of sz] by simp
    then have "pmm_pages p < nat (size_to_page_num sz mod 2 ^ 32)"
      using pmm_rep_pages [OF rep] by (simp add: zless_nat_eq_int_zless)
    then show ?thesis using assms by (simp add: kmalloc_impl_def)
  next
    case False
    then obtain n where n: "size_to_page_num sz = int n" "n < 2 ^ 31"
      using size_to_page_num_range [of sz] nonneg_int_cases [of "size_to_page_num sz"] by auto
    from kmalloc_impl_outcome [OF rep n, of clear] show ?thesis
    proof cases
      case 1 then show ?thesis using assms(2) pmm_invI by (auto simp: pmm_takes_def)
    next
      case 2 then show ?thesis using assms by simp
    qed
  qed
qed

lemma try_alloc_page_impl_ok:
  assumes "pmm_inv p" "try_alloc_page_impl p clear = Some (p', pa)"
  shows "pmm_ok p p'"
proof -
  obtain b r where rep: "pmm_rep p b r" using assms(1) by (rule pmm_invE)
  from try_alloc_page_impl_outcome [OF rep, of clear] show ?thesis
  proof cases
    case 1 then show ?thesis using assms(2) pmm_invI by (simp add: pmm_takes_def)
  next
    case 2 then show ?thesis using assms by simp
  qed
qed

lemma try_alloc_pages_ok:
  assumes "pmm_inv p" "count < 2 ^ 31" "try_alloc_pages p count = Some (p', pa)"
  shows "pmm_ok p p'"
proof (cases "0 < count")
  case True
  obtain b r where rep: "pmm_rep p b r" using assms(1) by (rule pmm_invE)
  from try_alloc_pages_outcome [OF rep True assms(2)] show ?thesis
  proof cases
    case 1 then show ?thesis using assms(3) pmm_invI by (simp add: pmm_takes_def)
  next
    case 2 then show ?thesis using assms by simp
  qed
qed (use assms in \<open>simp add: try_alloc_pages_def\<close>)

lemmas pmm_call_ok = try_alloc_page_impl_ok try_alloc_pages_ok kmalloc_impl_ok release_block_at_ok free_page_ok
  retain_page_ok retain_batch_ok release_batch_ok

lemma free_page1_ok: "pmm_inv p \<Longrightarrow> free_page1 p pa sz = Some (p', slab) \<Longrightarrow> pmm_ok p p'"
  by (auto simp: free_page1_def dest: release_block_at_ok split: if_splits bind_splits)

lemma pmm_free_pages_ok: "pmm_inv p \<Longrightarrow> pmm_free_pages p pa = Some p' \<Longrightarrow> pmm_ok p p'"
  by (auto simp: pmm_free_pages_def dest: release_block_at_ok split: if_splits bind_splits)

lemma pmm_step_ok: "pmm_step p p' \<Longrightarrow> pmm_inv p \<Longrightarrow> pmm_ok p p'"
  by (induction rule: pmm_step.induct) (blast dest: pmm_call_ok free_page1_ok pmm_free_pages_ok)+


text \<open>The free pages are the pages without references.\<close>

lemma pmm_free_counts:
  assumes "pmm_inv p"
  shows "pmm_free p = {i. i < pmm_pages p \<and> ref_of p i = 0}"
proof -
  obtain b r where rep: "pmm_rep p b r" using assms by (rule pmm_invE)
  have "free_of b \<union> owned_of b = {0..<pmm_pages p}" using rep by (auto simp: pmm_rep_def buddy_inv_def)
  then have "free_of b \<subseteq> {0..<pmm_pages p}" by blast
  then have "i \<in> free_of b \<longleftrightarrow> i < pmm_pages p \<and> ref_of p i = 0" for i
    using pmm_rep_views(3) [OF rep, of i] rep unfolding pmm_rep_def by (metis atLeastLessThan_iff subsetD)
  then show ?thesis using pmm_rep_views(1) [OF rep] by auto
qed

section \<open>Properties\<close>

text \<open>A region of six pages: all free, and with one page that has three references.\<close>

definition demo_pmm :: Pmm where
  "demo_pmm = \<lparr>pmm_arch = RISCV, pmm_buddy = Some demo_buddy, pa_start = 0x80200000, pmm_pages = 6,
     k_page_refcounts = Some [0, 0, 0, 0, 0, 0], pmm_mem = (\<lambda>_. 7)\<rparr>"

definition demo_buddy1 :: BuddySystem where
  "demo_buddy1 = fst (the (Alloc demo_buddy 0))"

definition demo_shared :: Pmm where
  "demo_shared = demo_pmm\<lparr>pmm_buddy := Some demo_buddy1, k_page_refcounts := Some [3, 0, 0, 0, 0, 0]\<rparr>"

lemma demo_counts:
  "\<forall>i<6. [0, 0, 0, 0, 0, 0 :: nat] ! i = 0 \<longleftrightarrow> i \<in> free_of demo_buddy"
  "\<forall>i<6. [3, 0, 0, 0, 0, 0 :: nat] ! i = 0 \<longleftrightarrow> i \<in> free_of demo_buddy1"
  by code_simp+

lemma demo_counts_small:
  "\<forall>i<6. [0, 0, 0, 0, 0, 0 :: nat] ! i \<le> 65535" "\<forall>i<6. [3, 0, 0, 0, 0, 0 :: nat] ! i \<le> 65535"
  by (auto simp: nth_Cons split: nat.split)

lemma demo_buddy1_facts: "buddy_inv demo_buddy1" "page_count demo_buddy1 = 6" "blocks_of demo_buddy1 = {(0, 1)}"
  by code_simp+

lemma demo_pmm_inv: "pmm_inv demo_pmm"
  by (rule pmm_invI [of _ demo_buddy "[0, 0, 0, 0, 0, 0]"])
    (use demo_counts(1) demo_counts_small(1) demo_buddy_inv in \<open>simp add: pmm_rep_def demo_pmm_def UINT16_MAX_def PGSIZE_def, simp add: demo_buddy_def\<close>)

lemma demo_shared_inv: "pmm_inv demo_shared"
  by (rule pmm_invI [of _ demo_buddy1 "[3, 0, 0, 0, 0, 0]"])
    (use demo_counts(2) demo_counts_small(2) demo_buddy1_facts in \<open>simp add: pmm_rep_def demo_pmm_def demo_shared_def UINT16_MAX_def PGSIZE_def\<close>)

lemma demo_shared_views: "pmm_blocks demo_shared = {(0, 1)}" "single_at demo_shared 0x80200000" "ref_of demo_shared 0 = 3"
  "pa2pgnm demo_shared 0x80200000 = Some 0" "page_addr demo_shared 0 = 0x80200000"
  using demo_buddy1_facts(3)
  by (simp_all add: single_at_def pmm_blocks_def demo_shared_def demo_pmm_def ref_of_def pa2pgnm_def page_addr_def
      normalize_managed_page_addr_def u64_sub_def PGSIZE_def)

lemma demo_pmm_free: "pmm_free demo_pmm = {0..<6}"
proof -
  have "free_of demo_buddy = {0..<6}" by code_simp
  then show ?thesis by (simp add: pmm_free_def demo_pmm_def)
qed

text \<open>C9. Single pages: \<open>try_alloc_page_impl\<close> never panics; it returns null, changing nothing, exactly when
  no page is free, and otherwise the page-aligned address of a page that was free and now has one
  reference, cleared if requested; no other page, count or byte changes.\<close>

theorem try_alloc_page_correct:
  assumes "pmm_inv p"
  shows "\<exists>p' pa. try_alloc_page_impl p clear = Some (p', pa) \<and> pmm_inv p' \<and>
    (if pmm_free p = {} then pa = 0 \<and> p' = p
     else \<exists>i. pa = page_addr p i \<and> 0 < pa \<and> PGSIZE dvd pa \<and> pmm_takes p p' i 1 \<and>
       (\<forall>a. pmm_mem p' a = (if clear \<and> pa \<le> a \<and> a < pa + PGSIZE then 0 else pmm_mem p a)))"
proof -
  obtain b r where rep: "pmm_rep p b r" using assms by (rule pmm_invE)
  from try_alloc_page_impl_outcome [OF rep, of clear] show ?thesis
  proof cases
    case (1 p' b' r' i)
    have "pmm_free p \<noteq> {}" using 1(3) by (auto simp: pmm_takes_def)
    moreover have "pmm_mem p' a = (if clear \<and> page_addr p i \<le> a \<and> a < page_addr p i + PGSIZE then 0 else pmm_mem p a)" for a
      using 1(5) zero_bytes_eq [of "page_addr p i" PGSIZE "pmm_mem p" a] page_addr_bounds(1) [OF rep 1(4)] by simp
    ultimately show ?thesis using 1(1,3) pmm_invI [OF 1(2)] page_addr_bounds(2,3) [OF rep 1(4)] by auto
  next
    case 2
    then show ?thesis using assms by simp
  qed
qed

theorem try_alloc_page_correct_witness:
  "\<exists>p' pa. try_alloc_page_impl demo_pmm True = Some (p', pa) \<and> pmm_inv p' \<and>
    (\<exists>i. pa = page_addr demo_pmm i \<and> 0 < pa \<and> PGSIZE dvd pa \<and> pmm_takes demo_pmm p' i 1 \<and>
       (\<forall>a. pmm_mem p' a = (if True \<and> pa \<le> a \<and> a < pa + PGSIZE then 0 else pmm_mem demo_pmm a)))"
  using try_alloc_page_correct [OF demo_pmm_inv, of True] by (simp add: demo_pmm_free)

text \<open>C10. \<open>free_page\<close> of the page with number \<open>i\<close>: out of the managed range nothing happens; a page
  that starts no live block panics; a shared single page loses one reference and stays allocated; a
  block whose pages have one reference each goes back to the buddy allocator with counts zero; a block
  of several pages with a shared page panics.\<close>

theorem free_page_correct:
  assumes "pmm_inv p" "pa2pgnm p pa = Some i"
  shows "(\<not> i < pmm_pages p \<longrightarrow> free_page p pa = Some p) \<and>
    (i < pmm_pages p \<and> (\<nexists>n. (i, n) \<in> pmm_blocks p) \<longrightarrow> free_page p pa = None) \<and>
    (\<forall>n. (i, n) \<in> pmm_blocks p \<longrightarrow>
       (if n = 1 \<and> 1 < ref_of p i
        then \<exists>p'. free_page p pa = Some p' \<and> pmm_inv p' \<and> pmm_counts p p' i (ref_of p i - 1)
        else if \<forall>j\<in>{i..<i + n}. ref_of p j = 1
        then \<exists>p'. free_page p pa = Some p' \<and> pmm_inv p' \<and> pmm_gives p p' i n
        else free_page p pa = None))"
proof -
  obtain b r where rep: "pmm_rep p b r" using assms(1) by (rule pmm_invE)
  have blocks: "pmm_blocks p = blocks_of b" by (rule pmm_rep_views(2) [OF rep])
  have one: "\<exists>p'. free_page p pa = Some p' \<and> pmm_inv p' \<and>
      (if 1 < ref_of p i then pmm_counts p p' i (ref_of p i - 1) else ref_of p i = 1 \<and> pmm_gives p p' i 1)"
    if "(i, 1) \<in> blocks_of b"
    using free_page_single [OF rep assms(2) that] by cases (auto intro: pmm_invI)
  have many: "if \<forall>j\<in>{i..<i + n}. ref_of p j = 1 then \<exists>p'. free_page p pa = Some p' \<and> pmm_inv p' \<and> pmm_gives p p' i n
      else free_page p pa = None" if blk: "(i, n) \<in> blocks_of b" "1 < n" for n
  proof -
    obtain p' b' r' where "release_block_at p i = (if \<forall>j\<in>{i..<i + n}. ref_of p j = 1 then Some p' else None)"
      "pmm_rep p' b' r'" "pmm_gives p p' i n"
      by (rule release_block_at_block [OF rep blk(1)])
    then show ?thesis using free_page_run [OF rep assms(2) blk] pmm_invI by auto
  qed
  have "if n = 1 \<and> 1 < ref_of p i
      then \<exists>p'. free_page p pa = Some p' \<and> pmm_inv p' \<and> pmm_counts p p' i (ref_of p i - 1)
      else if \<forall>j\<in>{i..<i + n}. ref_of p j = 1 then \<exists>p'. free_page p pa = Some p' \<and> pmm_inv p' \<and> pmm_gives p p' i n
      else free_page p pa = None" if blk: "(i, n) \<in> blocks_of b" for n
  proof (cases "n = 1")
    case True
    then show ?thesis using one blk by (auto split: if_splits)
  next
    case False
    then have "1 < n" using blocks_of_pos [OF blk] by simp
    from many [OF blk this] show ?thesis using False by simp
  qed
  then show ?thesis unfolding blocks
    using free_page_out [OF assms(2)] free_page_unallocated [OF rep assms(2)] by blast
qed


theorem free_page_correct_witness:
  "\<exists>p'. free_page demo_shared 0x80200000 = Some p' \<and> pmm_inv p' \<and> pmm_counts demo_shared p' 0 2"
  using free_page_correct [OF demo_shared_inv demo_shared_views(4)] by (simp add: demo_shared_views)

text \<open>C8. Page sharing is reference counting. Over any sequence of \<open>retain_page\<close> and \<open>free_page\<close>
  calls in which no released address lies in a live block of several pages, the manager gives the
  results of plain counters: it panics exactly when an address is not page aligned or a
  managed page without references is released; a page outside the region is left alone, and no page is
  retained beyond 65535 references; and at the end a page is free in the buddy tree exactly when its counter is zero.\<close>

theorem pmm_refines_counters:
  assumes "pmm_inv p" "\<forall>pa. Release pa \<in> set ops \<longrightarrow> single_at p pa"
  shows "map_option (\<lambda>(p', oks). (ref_of p', oks)) (run_ref_ops ops p) =
      spec_ref_ops (pa2pgnm p) (pmm_pages p) ops (ref_of p) \<and>
    (\<forall>p' oks. run_ref_ops ops p = Some (p', oks) \<longrightarrow>
       pmm_inv p' \<and> pmm_free p' = {i. i < pmm_pages p \<and> ref_of p' i = 0})"
proof -
  have "pmm_free p' = {i. i < pmm_pages p \<and> ref_of p' i = 0}" if "pmm_inv p'" "same_region p p'" for p'
    using pmm_free_counts [OF that(1)] that(2) by (simp add: same_region_def)
  then show ?thesis using run_ref_ops_spec [OF assms] by blast
qed

theorem pmm_refines_counters_witness:
  "map_option (\<lambda>(p', oks). (ref_of p', oks)) (run_ref_ops [Release 0x80200000, Retain 0x80200000] demo_shared) =
     spec_ref_ops (pa2pgnm demo_shared) (pmm_pages demo_shared) [Release 0x80200000, Retain 0x80200000] (ref_of demo_shared)"
proof -
  have "\<forall>pa. Release pa \<in> set [Release 0x80200000, Retain 0x80200000] \<longrightarrow> single_at demo_shared pa"
    using demo_shared_views(2) by simp
  from pmm_refines_counters [OF demo_shared_inv this] show ?thesis by (rule conjunct1)
qed

text \<open>C12. \<open>release_pages_batch\<close> over an array whose entries, null ones apart, lie in no live block of
  several pages is one \<open>free_page\<close> per entry that is not null, in order, panics included.\<close>

theorem release_batch_is_free_page:
  assumes "pmm_inv p" "count \<le> length pas" "\<forall>pa\<in>set (take count pas). pa \<noteq> 0 \<longrightarrow> single_at p pa"
  shows "release_pages_batch p (Some pas) count =
    for_each (\<lambda>pa p. free_page p pa) (filter (\<lambda>pa. pa \<noteq> 0) (take count pas)) p"
  using for_each_release_batch [OF assms(1,3)] for_each_elements [OF assms(2), of "\<lambda>pa p. release_batch_item p pa"]
  by (cases "count = 0") (simp_all add: release_pages_batch_def)

theorem release_batch_is_free_page_witness:
  "release_pages_batch demo_shared (Some [0x80200000, 0, 0x80200000]) 3 =
    for_each (\<lambda>pa p. free_page p pa) [0x80200000, 0x80200000] demo_shared"
  using release_batch_is_free_page [OF demo_shared_inv, of 3 "[0x80200000, 0, 0x80200000]"] demo_shared_views(2) by simp

text \<open>\<open>retain_pages_batch\<close> is one \<open>retain_page\<close> per entry, in order, and bit \<open>i\<close> of its result tells
  whether entry \<open>i\<close> was retained; more than 64 entries panic.\<close>

theorem retain_batch_is_retain_page:
  assumes "count \<le> length pas"
  shows "retain_pages_batch p (Some pas) count =
    (if 64 < count then None
     else map_option (\<lambda>(p', oks). (p', mask_of oks)) (retain_each (take count pas) p)) \<and>
    (\<forall>oks i. bit (mask_of oks) i \<longleftrightarrow> i < min 64 (length oks) \<and> oks ! i)"
proof -
  have "retain_pages_batch p (Some pas) count =
    (if 64 < count then None else map_option (\<lambda>(p', oks). (p', mask_of oks)) (retain_each (take count pas) p))"
    using retain_batch_loop [OF assms, of p] by (cases "count = 0") (simp_all add: retain_pages_batch_def)
  then show ?thesis by (simp add: bit_horner_sum_bit_word_iff)
qed

theorem retain_batch_is_retain_page_witness:
  "retain_pages_batch demo_shared (Some [0x80200000, 0x80201000]) 2 =
    map_option (\<lambda>(p', oks). (p', mask_of oks)) (retain_each [0x80200000, 0x80201000] demo_shared)"
  using retain_batch_is_retain_page [of 2 "[0x80200000, 0x80201000]" demo_shared] by simp


lemma takes_gives:
  assumes inv: "pmm_inv p" and t: "pmm_takes p p' q n" and g: "pmm_gives p' p'' q n" and n: "0 < n"
  shows "pmm_free p'' = pmm_free p \<and> pmm_blocks p'' = pmm_blocks p \<and> ref_of p'' = ref_of p"
proof -
  obtain b r where rep: "pmm_rep p b r" using inv by (rule pmm_invE)
  have sub: "{q..<q + n} \<subseteq> pmm_free p" using t by (simp add: pmm_takes_def)
  have "q \<in> {q..<q + n}" "q \<in> free_of b" using sub n pmm_rep_views(1) [OF rep] by auto
  then have "(q, n) \<notin> pmm_blocks p"
    using blocks_of_not_free [of q n b] pmm_rep_views(2) [OF rep] by (metis IntI empty_iff)
  moreover have "ref_of p i = 0" if "i \<in> {q..<q + n}" for i using that sub pmm_free_counts [OF inv] by blast
  ultimately show ?thesis using t g sub by (auto simp: pmm_takes_def pmm_gives_def fun_eq_iff)
qed

lemma pmm_free_pages_roundtrip:
  assumes inv: "pmm_inv p" and rep': "pmm_rep p' b' r'" and t: "pmm_takes p p' q n" and n: "0 < n" "q + n \<le> pmm_pages p"
  shows "\<exists>p''. pmm_free_pages p' (page_addr p q) = Some p'' \<and> pmm_inv p'' \<and>
     pmm_free p'' = pmm_free p \<and> pmm_blocks p'' = pmm_blocks p \<and> ref_of p'' = ref_of p"
proof -
  have sr: "same_region p p'" using t by (simp add: pmm_takes_def)
  have q: "q < pmm_pages p'" using n sr by (simp add: same_region_def)
  have pa: "page_addr p q = page_addr p' q" using same_region_addr [OF sr] by simp
  have blk: "(q, n) \<in> blocks_of b'" using t pmm_rep_views(2) [OF rep'] by (auto simp: pmm_takes_def)
  obtain p'' b'' r'' where r: "release_block_at p' q = (if \<forall>j\<in>{q..<q + n}. ref_of p' j = 1 then Some p'' else None)"
    "pmm_rep p'' b'' r''" "pmm_gives p' p'' q n"
    by (rule release_block_at_block [OF rep' blk])
  have "\<forall>j\<in>{q..<q + n}. ref_of p' j = 1" using t by (simp add: pmm_takes_def)
  then have "pmm_free_pages p' (page_addr p q) = Some p''"
    using r(1) pa2pgnm_addr [OF rep' q] page_addr_bounds(2,3) [OF rep' q] pa
    by (simp add: pmm_free_pages_def dvd_eq_mod_eq_0)
  then show ?thesis using pmm_invI [OF r(2)] takes_gives [OF inv t r(3) n(1)] by blast
qed

text \<open>C11. \<open>kmalloc\<close> of at most \<open>2 ^ 43 - 4096\<close> bytes returns null, changing nothing, only when the
  request exceeds the managed pages or no aligned run of the rounded size is free. Otherwise it returns
  a block of a power of two of pages that covers the request, with one reference on every page; the
  pages that the request itself needs are cleared, and no byte beyond them changes, not even in the rest
  of the block. \<open>free_pages\<close> of that address restores the free pages, the live blocks and all counts.\<close>

theorem kmalloc_roundtrip:
  assumes "pmm_inv p" "sz \<le> 2 ^ 43 - PGSIZE"
  shows "\<exists>p' pa n. kmalloc p sz = Some (p', pa) \<and> pmm_inv p' \<and> n = (sz + PGSIZE - 1) div PGSIZE \<and> sz \<le> n * PGSIZE \<and>
    (if pa = 0
     then p' = p \<and> (pmm_pages p < n \<or>
       (\<nexists>q. request_pages (int n) dvd q \<and> {q..<q + request_pages (int n)} \<subseteq> pmm_free p))
     else \<exists>q. pa = page_addr p q \<and> pmm_takes p p' q (request_pages (int n)) \<and> n \<le> request_pages (int n) \<and>
       (\<forall>a. pmm_mem p' a = (if pa \<le> a \<and> a < pa + n * PGSIZE then 0 else pmm_mem p a)) \<and>
       (\<exists>p''. pmm_free_pages p' pa = Some p'' \<and> pmm_inv p'' \<and>
          pmm_free p'' = pmm_free p \<and> pmm_blocks p'' = pmm_blocks p \<and> ref_of p'' = ref_of p))"
proof -
  obtain b r where rep: "pmm_rep p b r" using assms(1) by (rule pmm_invE)
  define n where "n = (sz + PGSIZE - 1) div PGSIZE"
  have num: "size_to_page_num sz = int n" "n < 2 ^ 31" using size_to_page_num_small [OF assms(2)] by (simp_all add: n_def)
  have cov: "sz \<le> n * PGSIZE"
    using dividend_less_div_times [of PGSIZE "sz + PGSIZE - 1"] by (simp add: n_def PGSIZE_def)
  have ge: "n \<le> request_pages (int n)"
    using request_pages_ge [of "int n"] num(2) by (cases "n = 0") simp_all
  have pos: "0 < request_pages (int n)" using request_pages_pos num(2) by simp
  from kmalloc_impl_outcome [OF rep num, of True] show ?thesis
  proof cases
    case (1 p' b' r' q)
    have q: "q < pmm_pages p" using 1(4) pos by simp
    have "pmm_mem p' a = (if page_addr p q \<le> a \<and> a < page_addr p q + n * PGSIZE then 0 else pmm_mem p a)" for a
      using 1(6) zero_bytes_eq [of "page_addr p q" "n * PGSIZE"] page_addr_block [OF rep 1(4) ge pos] by simp
    moreover have "page_addr p q \<noteq> 0" using page_addr_bounds(2) [OF rep q] by simp
    ultimately have "kmalloc p sz = Some (p', page_addr p q) \<and> pmm_inv p' \<and> n = (sz + PGSIZE - 1) div PGSIZE \<and> sz \<le> n * PGSIZE \<and>
      (if page_addr p q = 0 then p' = p \<and> (pmm_pages p < n \<or>
         (\<nexists>q. request_pages (int n) dvd q \<and> {q..<q + request_pages (int n)} \<subseteq> pmm_free p))
       else \<exists>s. page_addr p q = page_addr p s \<and> pmm_takes p p' s (request_pages (int n)) \<and> n \<le> request_pages (int n) \<and>
         (\<forall>a. pmm_mem p' a = (if page_addr p q \<le> a \<and> a < page_addr p q + n * PGSIZE then 0 else pmm_mem p a)) \<and>
         (\<exists>p''. pmm_free_pages p' (page_addr p q) = Some p'' \<and> pmm_inv p'' \<and>
            pmm_free p'' = pmm_free p \<and> pmm_blocks p'' = pmm_blocks p \<and> ref_of p'' = ref_of p))"
      using 1(1,3) pmm_invI [OF 1(2)] cov n_def ge pmm_free_pages_roundtrip [OF assms(1) 1(2,3) pos 1(4)]
      unfolding kmalloc_def by auto
    then show ?thesis by blast
  next
    case 2
    then show ?thesis using assms(1) cov n_def by (auto simp: kmalloc_def)
  qed
qed

theorem kmalloc_roundtrip_witness:
  "\<exists>p' pa n. kmalloc demo_pmm 5000 = Some (p', pa) \<and> pmm_inv p' \<and> n = (5000 + PGSIZE - 1) div PGSIZE \<and> 5000 \<le> n * PGSIZE \<and>
    (if pa = 0
     then p' = demo_pmm \<and> (pmm_pages demo_pmm < n \<or>
       (\<nexists>q. request_pages (int n) dvd q \<and> {q..<q + request_pages (int n)} \<subseteq> pmm_free demo_pmm))
     else \<exists>q. pa = page_addr demo_pmm q \<and> pmm_takes demo_pmm p' q (request_pages (int n)) \<and> n \<le> request_pages (int n) \<and>
       (\<forall>a. pmm_mem p' a = (if pa \<le> a \<and> a < pa + n * PGSIZE then 0 else pmm_mem demo_pmm a)) \<and>
       (\<exists>p''. pmm_free_pages p' pa = Some p'' \<and> pmm_inv p'' \<and>
          pmm_free p'' = pmm_free demo_pmm \<and> pmm_blocks p'' = pmm_blocks demo_pmm \<and> ref_of p'' = ref_of demo_pmm))"
  by (rule kmalloc_roundtrip [OF demo_pmm_inv]) (simp add: PGSIZE_def)

text \<open>C15. The number of pages of a \<open>kmalloc\<close> is converted to \<open>int\<close> without a check: whenever a page is
  free, a request of \<open>2 ^ 44\<close> bytes succeeds with a single page; and \<open>kcalloc\<close> multiplies its
  arguments modulo \<open>2 ^ 64\<close>, so \<open>2 ^ 31\<close> objects of \<open>2 ^ 33\<close> bytes are such a request of no bytes.\<close>

theorem kmalloc_truncates:
  assumes "pmm_inv p" "pmm_free p \<noteq> {}"
  shows "\<exists>p' i. kmalloc p (2 ^ 44) = Some (p', page_addr p i) \<and> pmm_takes p p' i 1 \<and>
    kcalloc p (2 ^ 31) (2 ^ 33) = Some (p', page_addr p i)"
proof -
  obtain b r where rep: "pmm_rep p b r" using assms(1) by (rule pmm_invE)
  have num: "size_to_page_num (2 ^ 44) = int 0" "size_to_page_num 0 = int 0"
    by (simp_all add: size_to_page_num_def to_s32_def PGSIZE_def)
  have "kmalloc_impl p (2 ^ 44) True = kmalloc_impl p 0 True" unfolding kmalloc_impl_def num by (rule refl)
  moreover have "{q..<q + request_pages (int 0)} = {q}" for q by (auto simp: request_pages_single)
  moreover from kmalloc_impl_outcome [OF rep num(1), of True] obtain p' b' r' q where
    "kmalloc_impl p (2 ^ 44) True = Some (p', page_addr p q)" "pmm_takes p p' q 1" "q < pmm_pages p"
    using assms(2) calculation(2) by cases (auto simp: request_pages_single)
  moreover from this(3) have "page_addr p q \<noteq> 0" using page_addr_bounds(2) [OF rep] by simp
  ultimately show ?thesis by (auto simp: kmalloc_def kcalloc_def u64_mul_def)
qed

theorem kmalloc_truncates_witness:
  "\<exists>p' i. kmalloc demo_pmm (2 ^ 44) = Some (p', page_addr demo_pmm i) \<and> pmm_takes demo_pmm p' i 1 \<and>
    kcalloc demo_pmm (2 ^ 31) (2 ^ 33) = Some (p', page_addr demo_pmm i)"
  by (rule kmalloc_truncates [OF demo_pmm_inv]) (simp add: demo_pmm_free)

text \<open>C7. Whatever sequence of calls returns, every reachable state satisfies the invariant: a page is
  free in the tree exactly when its count is zero, the counts fit 16 bits, the region is the initial
  one, and the number of free pages the manager reports is the number of pages without references.\<close>

theorem pmm_reachable:
  assumes "pmm_step\<^sup>*\<^sup>* p p'" "pmm_inv p"
  shows "pmm_inv p' \<and> same_region p p' \<and>
    pmm_get_free_page_count p' = card {i. i < pmm_pages p' \<and> ref_of p' i = 0}"
proof -
  have ok: "pmm_ok p p'" using assms
  proof (induction rule: rtranclp_induct)
    case (step q s)
    then have "pmm_ok p q" by simp
    then show ?case using pmm_step_ok [OF step.hyps(2)] same_region_trans by blast
  qed simp
  then obtain b r where rep: "pmm_rep p' b r" using pmm_invE by blast
  then have "pmm_get_free_page_count p' = card (pmm_free p')"
    by (simp add: pmm_get_free_page_count_def get_free_page_count_def pmm_rep_def buddy_inv_def pmm_free_def)
  then show ?thesis using ok pmm_free_counts by simp
qed

theorem pmm_reachable_witness:
  "\<exists>p' pa. try_alloc_page_impl demo_pmm True = Some (p', pa) \<and> pmm_inv p' \<and>
     pmm_get_free_page_count p' = card {i. i < pmm_pages p' \<and> ref_of p' i = 0}"
proof -
  obtain b r where rep: "pmm_rep demo_pmm b r" using demo_pmm_inv by (rule pmm_invE)
  from try_alloc_page_impl_outcome [OF rep, of True] obtain p' pa where
    p': "try_alloc_page_impl demo_pmm True = Some (p', pa)"
    by cases auto
  then have "pmm_step\<^sup>*\<^sup>* demo_pmm p'" by (blast intro: step_alloc)
  from pmm_reachable [OF this demo_pmm_inv] p' show ?thesis by blast
qed


section \<open>The width of the counts\<close>

text \<open>What the C++ types alone promise: the page count is a \<open>uint32\<close>, the table of counts has one
  \<open>uint16\<close> per page. Unlike the invariant this says nothing of the buddy tree.\<close>

definition counts_wt :: "nat \<Rightarrow> nat list \<Rightarrow> bool" where
  "counts_wt n r \<longleftrightarrow> length r = n \<and> (\<forall>c\<in>set r. c < 2 ^ 16)"

definition pmm_wt :: "Pmm \<Rightarrow> bool" where
  "pmm_wt p \<longleftrightarrow> pmm_pages p < 2 ^ 32 \<and>
     (case k_page_refcounts p of None \<Rightarrow> True | Some r \<Rightarrow> counts_wt (pmm_pages p) r)"

lemma counts_wt_set: "arr_set r i v = Some r' \<Longrightarrow> v < 2 ^ 16 \<Longrightarrow> counts_wt n r \<Longrightarrow> counts_wt n r'"
  by (auto simp: arr_set_def counts_wt_def split: if_splits dest!: set_update_subset_insert [THEN subsetD])

lemma counts_wt_get: "arr_get r i = Some c \<Longrightarrow> counts_wt n r \<Longrightarrow> c < 2 ^ 16"
  by (auto simp: arr_get_def counts_wt_def split: if_splits)

lemma pmm_wt_update [simp]:
  "pmm_wt (p\<lparr>pmm_buddy := b\<rparr>) = pmm_wt p" "pmm_wt (p\<lparr>pmm_mem := m\<rparr>) = pmm_wt p"
  "pmm_wt (p\<lparr>k_page_refcounts := Some r\<rparr>) \<longleftrightarrow> pmm_pages p < 2 ^ 32 \<and> counts_wt (pmm_pages p) r"
  by (simp_all add: pmm_wt_def split: option.split)

lemma pmm_wt_refs: "pmm_wt p \<Longrightarrow> k_page_refcounts p = Some r \<Longrightarrow> pmm_pages p < 2 ^ 32 \<and> counts_wt (pmm_pages p) r"
  by (simp add: pmm_wt_def)

lemma set_block_refs_wt:
  assumes "set_block_refs p i n old new = Some p'" "pmm_wt p" "new < 2 ^ 16"
  shows "pmm_wt p'"
proof -
  obtain r r' where r: "k_page_refcounts p = Some r" "p' = p\<lparr>k_page_refcounts := Some r'\<rparr>"
    "for_each (\<lambda>offset refs. let index = u32_add (i mod 2 ^ 32) offset
       in if pmm_pages p \<le> index then None
          else do { ref \<leftarrow> arr_get refs index; if ref \<noteq> old then None else arr_set refs index new }) [0..<n] r = Some r'"
    using assms(1) by (auto simp: set_block_refs_def Option.bind_eq_Some_conv)
  have "counts_wt (pmm_pages p) r'"
    by (rule for_each_keeps [OF _ r(3)])
      (use pmm_wt_refs [OF assms(2) r(1)] counts_wt_set assms(3) in
        \<open>auto simp: Let_def Option.bind_eq_Some_conv split: if_splits\<close>)
  then show ?thesis using pmm_wt_refs [OF assms(2) r(1)] r(2) by simp
qed

lemma buddy_release_wt: "buddy_release p i = Some p' \<Longrightarrow> pmm_wt p \<Longrightarrow> pmm_wt p'"
  by (auto simp: buddy_release_def Option.bind_eq_Some_conv)

lemma own_block_wt: "own_block p x = Some p' \<Longrightarrow> pmm_wt p \<Longrightarrow> pmm_wt p'"
  using set_block_refs_wt [of p _ _ 0 1] by (auto simp: own_block_def Option.bind_eq_Some_conv split: if_splits)

lemma release_block_at_wt: "release_block_at p i = Some p' \<Longrightarrow> pmm_wt p \<Longrightarrow> pmm_wt p'"
  using set_block_refs_wt [of p _ _ 1 0] buddy_release_wt
  by (fastforce simp: release_block_at_def Option.bind_eq_Some_conv split: if_splits)

lemma retain_page_wt:
  assumes "retain_page p pa = Some (p', ok)" "pmm_wt p"
  shows "pmm_wt p'"
proof (cases "p' = p")
  case False
  then obtain i r c r' where r: "k_page_refcounts p = Some r" "arr_get r i = Some c" "c \<noteq> UINT16_MAX"
    "arr_set r i (c + 1) = Some r'" "p' = p\<lparr>k_page_refcounts := Some r'\<rparr>"
    using assms(1) by (auto simp: retain_page_def Option.bind_eq_Some_conv split: if_splits)
  note w = pmm_wt_refs [OF assms(2) r(1)]
  have "c < 2 ^ 16" using counts_wt_get [OF r(2)] w by blast
  then have "c + 1 < 2 ^ 16" using r(3) by (simp add: UINT16_MAX_def)
  then show ?thesis using counts_wt_set [OF r(4)] w r(5) by simp
qed (use assms in simp)

text \<open>The two ways a single page loses a reference, in \<open>free_page\<close> and in the batch.\<close>

lemma drop_reference_wt:
  assumes "k_page_refcounts p = Some r" "arr_get r i = Some c" "pmm_wt p"
  shows "arr_set r i (c - 1) = Some r' \<Longrightarrow> pmm_wt (p\<lparr>k_page_refcounts := Some r'\<rparr>)"
    "arr_set r i 0 = Some r' \<Longrightarrow> buddy_release (p\<lparr>k_page_refcounts := Some r'\<rparr>) i = Some p' \<Longrightarrow> pmm_wt p'"
proof -
  note w = pmm_wt_refs [OF assms(3,1)]
  then have "c < 2 ^ 16" using counts_wt_get [OF assms(2)] by blast
  then have c: "c - 1 < 2 ^ 16" by linarith
  show "pmm_wt (p\<lparr>k_page_refcounts := Some r'\<rparr>)" if "arr_set r i (c - 1) = Some r'"
    using counts_wt_set [OF that c] w by simp
  show "pmm_wt p'" if "arr_set r i 0 = Some r'" "buddy_release (p\<lparr>k_page_refcounts := Some r'\<rparr>) i = Some p'"
    using counts_wt_set [OF that(1)] buddy_release_wt [OF that(2)] w by simp
qed

lemma free_page_wt: "free_page p pa = Some p' \<Longrightarrow> pmm_wt p \<Longrightarrow> pmm_wt p'"
proof (unfold free_page_def Option.bind_eq_Some_conv, elim exE conjE, goal_cases)
  case (1 i)
  show ?case
  proof (cases "page_index_in_range p i")
    case False
    then show ?thesis using 1 by simp
  next
    case True
    then obtain b res where q: "pmm_buddy p = Some b" "query_page b (i mod 2 ^ 32) = Some res" "in_range res" "\<not> is_free res"
      using 1 by (auto simp: Option.bind_eq_Some_conv split: if_splits)
    show ?thesis
    proof (cases "1 < block_pages res")
      case block: True
      then obtain p1 where "set_block_refs p i (block_pages res) 1 0 = Some p1" "buddy_release p1 i = Some p'"
        using 1(3) True q by (auto simp: Option.bind_eq_Some_conv split: if_splits)
      then show ?thesis using set_block_refs_wt [of p i _ 1 0 p1] buddy_release_wt 1(1) by simp
    next
      case single: False
      then obtain r c where r: "k_page_refcounts p = Some r" "arr_get r i = Some c"
        using 1(3) True q by (auto simp: Option.bind_eq_Some_conv split: if_splits)
      then show ?thesis using 1(1,3) True q single drop_reference_wt [OF r 1(1)]
        by (auto simp: Option.bind_eq_Some_conv split: if_splits)
    qed
  qed
qed

lemma release_batch_item_wt:
  assumes "release_batch_item p pa = Some p'" "pmm_wt p"
  shows "pmm_wt p'"
proof (cases "p' = p")
  case False
  then obtain i r c where r: "k_page_refcounts p = Some r" "arr_get r i = Some c"
    "(if 1 < c then do { r' \<leftarrow> arr_set r i (c - 1); Some (p\<lparr>k_page_refcounts := Some r'\<rparr>) }
      else do { r' \<leftarrow> arr_set r i 0; buddy_release (p\<lparr>k_page_refcounts := Some r'\<rparr>) i }) = Some p'"
    using assms(1) by (auto simp: release_batch_item_def Option.bind_eq_Some_conv split: if_splits)
  then show ?thesis using drop_reference_wt [OF r(1,2) assms(2)]
    by (auto simp: Option.bind_eq_Some_conv split: if_splits)
qed (use assms in simp)

lemma try_alloc_page_impl_wt:
  assumes "try_alloc_page_impl p clear = Some (p', pa)" "pmm_wt p"
  shows "pmm_wt p'"
proof -
  obtain b x where x: "(let p = p\<lparr>pmm_buddy := Some b\<rparr>
     in if x = -1 then Some (p, 0)
        else if \<not> page_index_in_range p (to_u64 x) then None
        else do {
          refs \<leftarrow> k_page_refcounts p;
          ref \<leftarrow> arr_get refs (nat x);
          if ref \<noteq> 0 then None
          else do {
            refs \<leftarrow> arr_set refs (nat x) 1;
            let pa = pgnm2pa p x;
                p = p\<lparr>k_page_refcounts := Some refs\<rparr>
            in Some (if clear then p\<lparr>pmm_mem := zero_bytes (pmm_mem p) pa PGSIZE\<rparr> else p, pa)
          }
        }) = Some (p', pa)"
    using assms(1) by (auto simp: try_alloc_page_impl_def Option.bind_eq_Some_conv)
  show ?thesis
  proof (cases "x = -1")
    case True
    then show ?thesis using x assms(2) by auto
  next
    case False
    then obtain r r' where r: "k_page_refcounts p = Some r" "arr_set r (nat x) 1 = Some r'"
      "p' = (let p = p\<lparr>pmm_buddy := Some b, k_page_refcounts := Some r'\<rparr>
        in if clear then p\<lparr>pmm_mem := zero_bytes (pmm_mem p) (pgnm2pa (p\<lparr>pmm_buddy := Some b\<rparr>) x) PGSIZE\<rparr> else p)"
      using x by (auto simp: Let_def Option.bind_eq_Some_conv pgnm2pa_def split: if_split_asm)
    then show ?thesis using counts_wt_set [OF r(2)] pmm_wt_refs [OF assms(2) r(1)] by (simp add: Let_def)
  qed
qed

lemma own_or_skip_wt:
  "(if 0 \<le> x then own_block (p\<lparr>pmm_buddy := Some b\<rparr>) x else Some (p\<lparr>pmm_buddy := Some b\<rparr>)) = Some q \<Longrightarrow>
   pmm_wt p \<Longrightarrow> pmm_wt q"
  by (cases "0 \<le> x") (auto dest: own_block_wt)

lemma try_alloc_pages_wt:
  assumes "try_alloc_pages p count = Some (p', pa)" "pmm_wt p"
  shows "pmm_wt p'"
proof (cases "count \<le> 0")
  case False
  then obtain b x q where q:
    "(if 0 \<le> x then own_block (p\<lparr>pmm_buddy := Some b\<rparr>) x else Some (p\<lparr>pmm_buddy := Some b\<rparr>)) = Some q"
    "(if x < 0 then Some (q, 0) else if \<not> page_index_in_range q (to_u64 x) then None
      else let pa = pgnm2pa q x
           in Some (q\<lparr>pmm_mem := zero_bytes (pmm_mem q) pa (u64_mul (to_u64 count) PGSIZE)\<rparr>, pa)) = Some (p', pa)"
    using assms(1) by (auto simp: try_alloc_pages_def Option.bind_eq_Some_conv)
  then show ?thesis using own_or_skip_wt [OF q(1) assms(2)] by (auto simp: Let_def split: if_split_asm)
qed (use assms in \<open>simp add: try_alloc_pages_def\<close>)

lemma kmalloc_impl_wt:
  assumes "kmalloc_impl p sz clear = Some (p', pa)" "pmm_wt p"
  shows "pmm_wt p'"
proof (cases "pmm_pages p < nat (size_to_page_num sz mod 2 ^ 32)")
  case True
  then show ?thesis using assms by (simp add: kmalloc_impl_def)
next
  case False
  then obtain b x q where q:
    "(if 0 \<le> x then own_block (p\<lparr>pmm_buddy := Some b\<rparr>) x else Some (p\<lparr>pmm_buddy := Some b\<rparr>)) = Some q"
    "(if x = -1 then Some (q, 0) else if x < 0 \<or> int (pmm_pages q) \<le> x then Some (q, 0)
      else let pa = pgnm2pa q x
           in Some (if clear
                    then q\<lparr>pmm_mem := zero_bytes (pmm_mem q) pa (u64_mul (to_u64 (size_to_page_num sz)) PGSIZE)\<rparr>
                    else q, pa)) = Some (p', pa)"
    using assms(1) unfolding kmalloc_impl_def Let_def by (auto simp: Option.bind_eq_Some_conv)
  then show ?thesis using own_or_skip_wt [OF q(1) assms(2)] by (auto simp: Let_def split: if_split_asm)
qed

lemma free_page1_wt: "free_page1 p pa sz = Some (p', slab) \<Longrightarrow> pmm_wt p \<Longrightarrow> pmm_wt p'"
  using release_block_at_wt by (auto simp: free_page1_def Option.bind_eq_Some_conv split: if_splits)

lemma pmm_free_pages_wt: "pmm_free_pages p pa = Some p' \<Longrightarrow> pmm_wt p \<Longrightarrow> pmm_wt p'"
  using release_block_at_wt by (auto simp: pmm_free_pages_def Option.bind_eq_Some_conv split: if_splits)

lemma pmm_step_wt: "pmm_step p p' \<Longrightarrow> pmm_wt p \<Longrightarrow> pmm_wt p'"
proof (induction rule: pmm_step.induct)
  case (step_retain_batch p pas n p' bits)
  then show ?case by (rule retain_batch_keeps [where P = pmm_wt]) (rule retain_page_wt)
next
  case (step_release_batch p pas n p')
  then show ?case by (rule release_batch_keeps [where P = pmm_wt]) (rule release_batch_item_wt)
qed (blast intro: try_alloc_page_impl_wt try_alloc_pages_wt kmalloc_impl_wt free_page_wt free_page1_wt pmm_free_pages_wt retain_page_wt)+

text \<open>No call of the manager makes a reference count leave \<open>uint16\<close>, or resizes the table of
  counts. From any state in which the counts have their type, even one where the buddy tree and the
  counts disagree, every sequence of calls that returns ends in such a state, and \<open>page_ref_count\<close>
  reads a 16-bit value there.\<close>

theorem pmm_steps_typed:
  assumes "pmm_step\<^sup>*\<^sup>* p p'" "pmm_wt p"
  shows "pmm_wt p' \<and> (\<forall>pa n. page_ref_count p' pa = Some n \<longrightarrow> n < 2 ^ 16)"
proof -
  have w: "pmm_wt p'" using assms by (induction rule: rtranclp_induct) (auto intro: pmm_step_wt)
  then show ?thesis using pmm_wt_refs [OF w] counts_wt_get
    by (auto simp: page_ref_count_def Option.bind_eq_Some_conv split: if_splits)
qed

text \<open>A page at its limit of references, whose block the buddy tree does not even know.\<close>

theorem pmm_steps_typed_witness:
  "retain_page (demo_pmm\<lparr>k_page_refcounts := Some [65534, 65535, 0, 0, 0, 0]\<rparr>) 0x80200000 =
     Some (demo_pmm\<lparr>k_page_refcounts := Some [65535, 65535, 0, 0, 0, 0]\<rparr>, True) \<and>
   pmm_wt (demo_pmm\<lparr>k_page_refcounts := Some [65535, 65535, 0, 0, 0, 0]\<rparr>)"
proof -
  let ?p = "demo_pmm\<lparr>k_page_refcounts := Some [65534, 65535, 0, 0, 0, 0]\<rparr>"
    and ?q = "demo_pmm\<lparr>k_page_refcounts := Some [65535, 65535, 0, 0, 0, 0]\<rparr>"
  have r: "retain_page ?p 0x80200000 = Some (?q, True)"
    by (simp add: retain_page_def pa2pgnm_def normalize_managed_page_addr_def page_index_in_range_def demo_pmm_def
        u64_sub_def PGSIZE_def arr_get_def arr_set_def UINT16_MAX_def)
  have "pmm_wt ?p" by (simp add: pmm_wt_def counts_wt_def demo_pmm_def)
  then show ?thesis using pmm_steps_typed [of ?p ?q] r by (blast intro: step_retain)
qed

text \<open>\<open>clear_page\<close>, word by word, is the \<open>memset\<close> of a page.\<close>

lemma clear_words:
  assumes "pa + 8 * n \<le> 2 ^ 64"
  shows "fold (\<lambda>i m. zero_bytes m (u64_add pa (8 * i)) 8) [0..<n] m = zero_bytes m pa (8 * n)"
  using assms
proof (induction n)
  case 0
  show ?case by (simp add: zero_bytes_def)
next
  case (Suc n)
  then have IH: "fold (\<lambda>i m. zero_bytes m (u64_add pa (8 * i)) 8) [0..<n] m = zero_bytes m pa (8 * n)"
    and at: "u64_add pa (8 * n) = pa + 8 * n" by (simp_all add: u64_add_def)
  have "zero_bytes (zero_bytes m pa (8 * n)) (pa + 8 * n) 8 a = zero_bytes m pa (8 * Suc n) a" for a
    using Suc.prems zero_bytes_eq [of pa "8 * n" m a] zero_bytes_eq [of "pa + 8 * n" 8 "zero_bytes m pa (8 * n)" a]
      zero_bytes_eq [of pa "8 * Suc n" m a] by auto
  then show ?case by (simp add: IH at fun_eq_iff)
qed

lemma clear_page_eq: "pa + PGSIZE \<le> 2 ^ 64 \<Longrightarrow> clear_page m pa = zero_bytes m pa PGSIZE"
  using clear_words [of pa 512 m] by (simp add: clear_page_def PGSIZE_def)

end
