(* ===== verification/Pmm_Layout.thy ===== *)
theory Pmm_Layout
  imports Pmm_Theorems "HOL-Library.Multiset"
begin

text \<open>
  How \<open>PhysicalMemoryManager::init\<close> of \<open>src/kernel/mem/physical_memory_manager.cc\<close> divides physical
  memory: the largest usable interval of a RAM region between the reserved ranges, the layout of the
  allocator's own metadata, and the split of the tail of the interval into kernel heap and shared
  memory. The pieces are defined in the order of the source; \<open>Pmm_Init\<close> composes them.
\<close>

section \<open>Definitions\<close>

text \<open>The alignments in use are powers of two, so clearing the low bits is rounding down.\<close>

definition pmm_align_up :: "nat \<Rightarrow> nat \<Rightarrow> nat" where
  "pmm_align_up v alignment = u64_add v (alignment - 1) div alignment * alignment"

definition checked_region_top :: "nat \<Rightarrow> nat \<Rightarrow> nat option" where
  "checked_region_top base sz = (if sz = 0 \<or> 2 ^ 64 - 1 - sz < base then None else Some (base + sz))"

text \<open>A reserved range is a pair of its first address and its end; an interval likewise.\<close>

type_synonym ReservedRange = "nat \<times> nat"

record UsableInterval =
  ui_start :: nat
  ui_top :: nat

definition bytes :: "UsableInterval \<Rightarrow> nat" where
  "bytes u = (if ui_start u < ui_top u then ui_top u - ui_start u else 0)"

definition no_interval :: UsableInterval where
  "no_interval = \<lparr>ui_start = 0, ui_top = 0\<rparr>"

definition k_max_reserved_ranges :: nat where
  "k_max_reserved_ranges = 32 + 3"

text \<open>The exchange sort by start address.\<close>

definition sort_exchange :: "nat \<Rightarrow> nat \<Rightarrow> ReservedRange list \<Rightarrow> ReservedRange list" where
  "sort_exchange left right xs =
     (if fst (xs ! right) < fst (xs ! left)
      then xs[left := xs ! right, right := xs ! left] else xs)"

definition sort_ranges :: "ReservedRange list \<Rightarrow> ReservedRange list" where
  "sort_ranges ranges =
     fold (\<lambda>left. fold (sort_exchange left) [Suc left..<length ranges]) [0..<length ranges] ranges"

definition consider_gap :: "UsableInterval \<Rightarrow> nat \<Rightarrow> nat \<Rightarrow> UsableInterval" where
  "consider_gap best gap_start gap_top =
     (let gap_start = pg_up gap_start; gap_top = pg_down gap_top
      in if gap_start < gap_top \<and> bytes best < gap_top - gap_start
         then \<lparr>ui_start = gap_start, ui_top = gap_top\<rparr> else best)"

fun sweep_ranges :: "nat \<Rightarrow> ReservedRange list \<Rightarrow> UsableInterval \<Rightarrow> nat \<Rightarrow> UsableInterval \<times> nat" where
  "sweep_ranges limit [] best cursor = (best, cursor)"
| "sweep_ranges limit ((s, e) # ranges) best cursor =
     (if e \<le> cursor \<or> limit \<le> s then sweep_ranges limit ranges best cursor
      else let reserved_start = pg_down s;
               reserved_end = pg_up e;
               best = (if cursor < reserved_start
                       then consider_gap best cursor (if reserved_start < limit then reserved_start else limit) else best);
               cursor = (if cursor < reserved_end then reserved_end else cursor)
           in if limit \<le> cursor then (best, cursor) else sweep_ranges limit ranges best cursor)"

definition largest_usable_interval :: "nat \<Rightarrow> nat \<Rightarrow> ReservedRange list \<Rightarrow> nat \<Rightarrow> UsableInterval option" where
  "largest_usable_interval raw_start raw_top reserved reserved_count =
     (let start = pg_up raw_start; limit = pg_down raw_top
      in if limit \<le> start then Some no_interval
         else let count = (if k_max_reserved_ranges < reserved_count then k_max_reserved_ranges else reserved_count)
         in if length reserved < count then None
            else let (best, cursor) = sweep_ranges limit (sort_ranges (take count reserved)) no_interval start
                 in Some (consider_gap best cursor limit))"

record PmmMetadataLayout =
  metadata_start :: nat
  metadata_end :: nat
  tree_start :: nat
  tree_bytes :: nat
  refcount_start :: nat
  refcount_bytes :: nat
  managed_start :: nat
  managed_pages :: nat

text \<open>One round of the fixed point iteration, and the loop of at most sixteen rounds; \<^const>\<open>None\<close> is a
  panic.\<close>

definition pmm_layout_for :: "nat \<Rightarrow> nat \<Rightarrow> PmmMetadataLayout" where
  "pmm_layout_for start pages =
     (let ts = pmm_align_up (u64_add start (unat sizeof_BuddySystem)) 8;
          tb = unat (required_tree_bytes (of_nat pages));
          rs = pmm_align_up (u64_add ts tb) 2;
          rb = u64_mul pages 2
      in \<lparr>metadata_start = start, metadata_end = pg_up (u64_add rs rb), tree_start = ts, tree_bytes = tb,
          refcount_start = rs, refcount_bytes = rb, managed_start = 0, managed_pages = 0\<rparr>)"

primrec pmm_layout_loop :: "nat \<Rightarrow> nat \<Rightarrow> nat \<Rightarrow> nat \<Rightarrow> PmmMetadataLayout option" where
  "pmm_layout_loop 0 start limit pages = None"
| "pmm_layout_loop (Suc rounds) start limit pages =
     (let layout = pmm_layout_for start pages
      in if 2 ^ 64 - 1 - refcount_bytes layout < refcount_start layout then None
         else if limit \<le> metadata_end layout then None
         else let next_pages64 = (limit - metadata_end layout) div PGSIZE
              in if 2 ^ 32 - 1 < next_pages64 then None
                 else if next_pages64 = pages
                 then Some (layout\<lparr>managed_start := metadata_end layout, managed_pages := pages\<rparr>)
                 else pmm_layout_loop rounds start limit next_pages64)"

definition calculate_pmm_layout :: "nat \<Rightarrow> nat \<Rightarrow> PmmMetadataLayout option" where
  "calculate_pmm_layout start limit =
     (if limit \<le> u64_add start (PGSIZE * 16) then None
      else let candidate_pages = u64_sub limit start div PGSIZE
           in if 2 ^ 32 - 1 < candidate_pages then None
              else pmm_layout_loop 16 start limit candidate_pages)"

record HeapLayout =
  heap_metadata_bytes :: nat
  allocator_bytes :: nat
  shm_bytes :: nat
  allocator_pages :: nat

definition vm_kernel_heap_size :: nat where
  "vm_kernel_heap_size = 2 ^ 20 * 256"

definition SHM_SIZE :: nat where
  "SHM_SIZE = 2 ^ 20 * 64"

definition storage_bytes :: "nat \<Rightarrow> nat" where
  "storage_bytes pages = pg_up (unat (required_storage_bytes (of_nat pages)))"

primrec heap_layout_loop :: "nat \<Rightarrow> nat \<Rightarrow> nat \<Rightarrow> nat \<Rightarrow> HeapLayout option" where
  "heap_layout_loop 0 area budget pages = None"
| "heap_layout_loop (Suc rounds) area budget pages =
     (let metadata = storage_bytes pages;
          maximum_heap_pages = vm_kernel_heap_size div PGSIZE;
          next_pages64 = (if metadata < budget then (budget - metadata) div PGSIZE else 0);
          next_pages = (if maximum_heap_pages < next_pages64 then maximum_heap_pages else next_pages64)
      in if next_pages = pages
         then let remaining = u64_sub (u64_sub area metadata) (u64_mul pages PGSIZE)
              in Some \<lparr>heap_metadata_bytes = metadata, allocator_bytes = u64_mul pages PGSIZE,
                       shm_bytes = pg_down (if SHM_SIZE < remaining then SHM_SIZE else remaining), allocator_pages = pages\<rparr>
         else heap_layout_loop rounds area budget next_pages)"

definition calculate_heap_layout :: "nat \<Rightarrow> HeapLayout option" where
  "calculate_heap_layout area =
     (let desired_shm = area div 3;
          desired_shm = pg_down (if SHM_SIZE < desired_shm then SHM_SIZE else desired_shm);
          maximum_heap_pages = vm_kernel_heap_size div PGSIZE;
          heap_budget = (if desired_shm < area then area - desired_shm else 0);
          heap_pages = heap_budget div PGSIZE mod 2 ^ 32;
          heap_pages = (if maximum_heap_pages < heap_pages then maximum_heap_pages else heap_pages)
      in heap_layout_loop 16 area heap_budget heap_pages)"

section \<open>Rounding\<close>

lemma pg_down_le: "pg_down a \<le> a"
  by (simp add: pg_down_def div_times_less_eq_dividend)

lemma pg_down_dvd [simp]: "PGSIZE dvd pg_down a"
  by (simp add: pg_down_def)

lemma pg_up_dvd [simp]: "PGSIZE dvd pg_up a"
  by (simp add: pg_up_def)

lemma pg_down_greatest: "PGSIZE dvd b \<Longrightarrow> b \<le> a \<Longrightarrow> b \<le> pg_down a"
  by (metis div_le_mono dvd_div_mult_self mult_le_mono1 pg_down_def)

lemma pg_up_ge: "a + PGSIZE \<le> 2 ^ 64 \<Longrightarrow> a \<le> pg_up a"
proof -
  assume a: "a + PGSIZE \<le> 2 ^ 64"
  then have "pg_up a = (a + (PGSIZE - 1)) div PGSIZE * PGSIZE" by (simp add: pg_up_def u64_add_def PGSIZE_def)
  moreover have "a + (PGSIZE - 1) < (a + (PGSIZE - 1)) div PGSIZE * PGSIZE + PGSIZE"
    using dividend_less_div_times [of PGSIZE "a + (PGSIZE - 1)"] by (simp add: PGSIZE_def)
  ultimately show ?thesis by (simp add: PGSIZE_def)
qed

lemma pg_up_least: "PGSIZE dvd b \<Longrightarrow> a \<le> b \<Longrightarrow> pg_up a \<le> b"
proof -
  assume "PGSIZE dvd b" "a \<le> b"
  then obtain k where k: "b = k * PGSIZE" by (metis dvd_div_mult_self)
  have "u64_add a (PGSIZE - 1) \<le> a + (PGSIZE - 1)" by (simp add: u64_add_def)
  also have "\<dots> < Suc k * PGSIZE" using \<open>a \<le> b\<close> k by (simp add: PGSIZE_def)
  finally have "u64_add a (PGSIZE - 1) div PGSIZE < Suc k" by (simp add: PGSIZE_def div_less_iff_less_mult)
  then show ?thesis unfolding pg_up_def k by simp
qed

lemma pg_up_aligned: "PGSIZE dvd a \<Longrightarrow> a + PGSIZE \<le> 2 ^ 64 \<Longrightarrow> pg_up a = a"
  using pg_up_ge pg_up_least by (metis le_antisym le_refl)

lemma pg_down_aligned: "PGSIZE dvd a \<Longrightarrow> pg_down a = a"
  using pg_down_le pg_down_greatest by (metis le_antisym le_refl)

lemma aligned_room: "PGSIZE dvd a \<Longrightarrow> a < b \<Longrightarrow> b < 2 ^ 64 \<Longrightarrow> a + PGSIZE \<le> 2 ^ 64"
proof -
  assume "PGSIZE dvd a" "a < b" "b < 2 ^ 64"
  moreover have "PGSIZE dvd 2 ^ 64" by (simp add: PGSIZE_def)
  ultimately show ?thesis using dvd_step [of PGSIZE a "2 ^ 64"] by simp
qed

section \<open>The exchange sort\<close>

lemma length_sort_exchange [simp]: "length (sort_exchange l r xs) = length xs"
  by (simp add: sort_exchange_def)

lemma mset_sort_exchange: "l < length xs \<Longrightarrow> r < length xs \<Longrightarrow> mset (sort_exchange l r xs) = mset xs"
  by (simp add: sort_exchange_def mset_swap)

text \<open>One inner loop: the multiset and the elements before \<open>left\<close> stay, and \<open>left\<close> gets a least element.\<close>

lemma sort_inner:
  assumes "left < length xs" "m \<le> length xs" "left < m"
  defines "ys \<equiv> fold (sort_exchange left) [Suc left..<m] xs"
  shows "length ys = length xs \<and> mset ys = mset xs \<and> (\<forall>i<left. ys ! i = xs ! i) \<and>
     (\<forall>j. left \<le> j \<and> j < m \<longrightarrow> fst (ys ! left) \<le> fst (ys ! j)) \<and> (\<forall>j\<ge>m. ys ! j = xs ! j)"
  using assms(2,3) unfolding ys_def
proof (induction m)
  case (Suc m)
  show ?case
  proof (cases "left < m")
    case True
    let ?ys = "fold (sort_exchange left) [Suc left..<m] xs"
    have IH: "length ?ys = length xs" "mset ?ys = mset xs" "\<forall>i<left. ?ys ! i = xs ! i"
      "\<forall>j. left \<le> j \<and> j < m \<longrightarrow> fst (?ys ! left) \<le> fst (?ys ! j)" "\<forall>j\<ge>m. ?ys ! j = xs ! j"
      using Suc True by auto
    have up: "fold (sort_exchange left) [Suc left..<Suc m] xs = sort_exchange left m ?ys" using True by simp
    have lt: "left < length ?ys" "m < length ?ys" using assms(1) Suc.prems IH(1) by auto
    let ?zs = "sort_exchange left m ?ys"
    have nth: "?zs ! j = (if fst (?ys ! m) < fst (?ys ! left) then if j = left then ?ys ! m else if j = m then ?ys ! left else ?ys ! j
        else ?ys ! j)" for j
      using lt True by (auto simp: sort_exchange_def nth_list_update)
    have "fst (?zs ! left) \<le> fst (?zs ! j)" if "left \<le> j" "j < Suc m" for j
    proof (cases "j = m")
      case True
      then show ?thesis using nth [of left] nth [of m] by auto
    next
      case False
      then have "fst (?ys ! left) \<le> fst (?ys ! j)" using IH(4) that by simp
      then show ?thesis using nth [of left] nth [of j] False by auto
    qed
    moreover have "?zs ! j = xs ! j" if "j < left \<or> Suc m \<le> j" for j
      using nth [of j] that IH(3,5) True by auto
    ultimately show ?thesis unfolding up using IH(1,2) mset_sort_exchange [OF lt] by simp
  next
    case False
    then have "m = left" using Suc.prems by simp
    then show ?thesis by (auto simp: less_Suc_eq_le)
  qed
qed simp

lemma sort_outer:
  assumes "k \<le> length xs"
  defines "ys \<equiv> fold (\<lambda>left. fold (sort_exchange left) [Suc left..<length xs]) [0..<k] xs"
  shows "length ys = length xs \<and> mset ys = mset xs \<and> sorted (map fst (take k ys)) \<and>
     (\<forall>i<k. \<forall>j. k \<le> j \<and> j < length xs \<longrightarrow> fst (ys ! i) \<le> fst (ys ! j))"
  using assms(1) unfolding ys_def
proof (induction k)
  case (Suc k)
  let ?f = "\<lambda>left. fold (sort_exchange left) [Suc left..<length xs]"
  define ys where "ys = fold ?f [0..<k] xs"
  define zs where "zs = ?f k ys"
  have IH: "length ys = length xs" "mset ys = mset xs" "sorted (map fst (take k ys))"
    "\<forall>i<k. \<forall>j. k \<le> j \<and> j < length xs \<longrightarrow> fst (ys ! i) \<le> fst (ys ! j)"
    using Suc unfolding ys_def by auto
  have z: "length zs = length xs" "mset zs = mset ys" "\<forall>i<k. zs ! i = ys ! i"
    "\<forall>j. k \<le> j \<and> j < length xs \<longrightarrow> fst (zs ! k) \<le> fst (zs ! j)"
    using sort_inner [of k ys "length xs"] Suc.prems IH(1) unfolding zs_def by auto
  have tk: "take k zs = take k ys" using z(1,3) IH(1) Suc.prems by (intro nth_equalityI) auto
  have "mset (take k zs) + mset (drop k zs) = mset (take k ys) + mset (drop k ys)"
    using z(2) by (metis append_take_drop_id mset_append)
  then have dr: "set (drop k zs) = set (drop k ys)" using tk by (metis add_left_cancel set_mset_mset)
  have le: "fst (zs ! i) \<le> fst (zs ! j)" if "i < k" "k \<le> j" "j < length xs" for i j
  proof -
    have "zs ! j \<in> set (drop k ys)" unfolding dr [symmetric] in_set_conv_nth
      using that z(1) by (intro exI [of _ "j - k"]) simp
    then obtain m where "m < length xs - k" "zs ! j = ys ! (k + m)" using IH(1) by (auto simp: in_set_conv_nth)
    then show ?thesis using IH(4) that(1) z(3) by simp
  qed
  have "sorted (map fst (take (Suc k) zs))"
  proof -
    have "fst x \<le> fst (zs ! k)" if "x \<in> set (take k zs)" for x
      using that le [of _ k] Suc.prems z(1) by (auto simp: in_set_conv_nth)
    then show ?thesis using IH(3) tk Suc.prems z(1) by (auto simp: take_Suc_conv_app_nth sorted_append)
  qed
  moreover have "fold ?f [0..<Suc k] xs = zs" by (simp add: zs_def ys_def)
  ultimately show ?case using z IH(2) le by (auto simp: less_Suc_eq)
qed simp

lemma sort_ranges_sorted: "sorted (map fst (sort_ranges xs))" "mset (sort_ranges xs) = mset xs"
  using sort_outer [of "length xs" xs] by (auto simp: sort_ranges_def)


section \<open>The largest usable interval\<close>

definition clear_of :: "ReservedRange set \<Rightarrow> nat \<Rightarrow> nat \<Rightarrow> bool" where
  "clear_of R a b \<longleftrightarrow> (\<forall>(s, e)\<in>R. b \<le> s \<or> e \<le> a)"

definition usable :: "ReservedRange set \<Rightarrow> nat \<Rightarrow> nat \<Rightarrow> nat \<Rightarrow> nat \<Rightarrow> bool" where
  "usable R start limit a b \<longleftrightarrow> PGSIZE dvd a \<and> PGSIZE dvd b \<and> start \<le> a \<and> b \<le> limit \<and> clear_of R a b"

definition ok_interval :: "ReservedRange set \<Rightarrow> nat \<Rightarrow> nat \<Rightarrow> UsableInterval \<Rightarrow> bool" where
  "ok_interval R start limit u \<longleftrightarrow> bytes u = 0 \<or> usable R start limit (ui_start u) (ui_top u)"

text \<open>Every usable interval is no longer than the best one so far, or begins at the cursor or later.\<close>

definition best_so_far :: "ReservedRange set \<Rightarrow> nat \<Rightarrow> nat \<Rightarrow> UsableInterval \<Rightarrow> nat \<Rightarrow> bool" where
  "best_so_far R start limit u cursor \<longleftrightarrow>
     (\<forall>a b. usable R start limit a b \<and> a < b \<longrightarrow> b - a \<le> bytes u \<or> cursor \<le> a)"

lemma clear_ofD: "clear_of R a b \<Longrightarrow> (s, e) \<in> R \<Longrightarrow> b \<le> s \<or> e \<le> a"
  unfolding clear_of_def by blast

lemma pg_up_less: "pg_up a < 2 ^ 64"
proof -
  have "pg_up a \<le> u64_add a (PGSIZE - 1)" by (simp add: pg_up_def div_times_less_eq_dividend)
  then show ?thesis by (simp add: u64_add_def order.strict_trans1)
qed

lemma consider_gap_aligned:
  assumes "PGSIZE dvd a" "PGSIZE dvd b" "a < 2 ^ 64"
  shows "consider_gap u a b = (if a < b \<and> bytes u < b - a then \<lparr>ui_start = a, ui_top = b\<rparr> else u)"
proof -
  have "a + PGSIZE \<le> 2 ^ 64" using dvd_step [OF assms(1) _ assms(3)] by (simp add: PGSIZE_def)
  then show ?thesis
    using pg_up_aligned [OF assms(1)] pg_down_aligned [OF assms(2)] by (simp add: consider_gap_def)
qed

lemma consider_gap_bytes:
  assumes "PGSIZE dvd a" "PGSIZE dvd b" "a < 2 ^ 64"
  shows "bytes u \<le> bytes (consider_gap u a b)" "b - a \<le> bytes (consider_gap u a b)"
  using consider_gap_aligned [OF assms, of u] by (auto simp: bytes_def)

lemma consider_gap_ok:
  assumes "PGSIZE dvd a" "PGSIZE dvd b" "a < 2 ^ 64" "ok_interval R start limit u"
    and "start \<le> a" "b \<le> limit" "clear_of R a b"
  shows "ok_interval R start limit (consider_gap u a b)"
  using consider_gap_aligned [OF assms(1-3), of u] assms by (auto simp: ok_interval_def usable_def)

lemma best_so_far_step:
  assumes "best_so_far R start limit u cursor" "PGSIZE dvd cursor" "cursor < 2 ^ 64"
    and "(s, e) \<in> R" "e + PGSIZE \<le> 2 ^ 64" "PGSIZE dvd g" "\<And>b. PGSIZE dvd b \<Longrightarrow> b \<le> s \<Longrightarrow> b \<le> limit \<Longrightarrow> b \<le> g"
  shows "best_so_far R start limit (if cursor < g then consider_gap u cursor g else u) (max cursor (pg_up e))"
  unfolding best_so_far_def
proof (intro allI impI)
  fix a b assume ab: "usable R start limit a b \<and> a < b"
  let ?u = "if cursor < g then consider_gap u cursor g else u"
  have grow: "bytes u \<le> bytes ?u" using consider_gap_bytes(1) [OF assms(2,6,3)] by simp
  consider "b - a \<le> bytes u" | "cursor \<le> a" "e \<le> a" | "cursor \<le> a" "b \<le> s"
    using assms(1,4) ab clear_ofD [of R a b s e] unfolding best_so_far_def usable_def by blast
  then show "b - a \<le> bytes ?u \<or> max cursor (pg_up e) \<le> a"
  proof cases
    case 1 then show ?thesis using grow by linarith
  next
    case 2 then show ?thesis using pg_up_least [of a e] ab by (simp add: usable_def)
  next
    case 3
    then have g: "b \<le> g" using assms(7) ab by (simp add: usable_def)
    then have "cursor < g" using 3 ab by linarith
    moreover have "b - a \<le> g - cursor" using g 3 by linarith
    ultimately show ?thesis using consider_gap_bytes(2) [OF assms(2,6,3), of u] by simp
  qed
qed

lemma sweep_ranges_ok:
  assumes "sorted (map fst rs)" "set rs \<subseteq> R" "\<And>s e. (s, e) \<in> R \<Longrightarrow> e + PGSIZE \<le> 2 ^ 64" "PGSIZE dvd limit"
    and "PGSIZE dvd cursor" "cursor < 2 ^ 64" "start \<le> cursor"
    and "\<And>s e. (s, e) \<in> R \<Longrightarrow> (s, e) \<in> set rs \<or> e \<le> cursor \<or> limit \<le> s"
    and "ok_interval R start limit u" "best_so_far R start limit u cursor"
    and "sweep_ranges limit rs u cursor = (u', cursor')"
  shows "ok_interval R start limit u' \<and> best_so_far R start limit u' cursor' \<and> PGSIZE dvd cursor' \<and> cursor' < 2 ^ 64 \<and>
     start \<le> cursor' \<and> (limit \<le> cursor' \<or> clear_of R cursor' limit)"
  using assms(1,2,5-)
proof (induction rs arbitrary: u cursor)
  case Nil
  then show ?case by (auto simp: clear_of_def)
next
  case (Cons x rs)
  obtain s e where x: "x = (s, e)" by force
  have srt: "sorted (map fst rs)" "set rs \<subseteq> R" "(s, e) \<in> R" using Cons.prems(1,2) x by auto
  show ?case
  proof (cases "e \<le> cursor \<or> limit \<le> s")
    case True
    then show ?thesis using Cons.prems x by (intro Cons.IH [OF srt(1,2) Cons.prems(3-5) _ Cons.prems(7,8)]) auto
  next
    case False
    define g where "g = (if pg_down s < limit then pg_down s else limit)"
    define v where "v = (if cursor < g then consider_gap u cursor g else u)"
    define c where "c = max cursor (pg_up e)"
    have e: "e + PGSIZE \<le> 2 ^ 64" using assms(3) srt(3) .
    have g: "PGSIZE dvd g" "g \<le> limit" "g \<le> s" using assms(4) False pg_down_le [of s] by (auto simp: g_def)
    have c: "PGSIZE dvd c" "c < 2 ^ 64" "start \<le> c" "cursor \<le> c" "e \<le> c"
      using Cons.prems(3-5) pg_up_less [of e] pg_up_ge [OF e] by (auto simp: c_def max_def)
    have "clear_of R cursor g" unfolding clear_of_def
    proof clarify
      fix s' e' assume R: "(s', e') \<in> R" "\<not> e' \<le> cursor"
      then have "(s', e') = (s, e) \<or> (s', e') \<in> set rs \<or> limit \<le> s'" using Cons.prems(6) x by auto
      moreover have "s \<le> s'" if "(s', e') \<in> set rs" using Cons.prems(1) x that by force
      ultimately show "g \<le> s'" using g by auto
    qed
    then have ok: "ok_interval R start limit v"
      unfolding v_def using Cons.prems(3-5,7) g consider_gap_ok by simp
    have best: "best_so_far R start limit v c"
      unfolding v_def c_def
      by (rule best_so_far_step [OF Cons.prems(8,3,4) srt(3) e g(1)]) (use pg_down_greatest in \<open>auto simp: g_def\<close>)
    have "cursor < pg_down s \<longleftrightarrow> cursor < g"
      using False pg_down_le [of s] by (auto simp: g_def)
    then have sw: "sweep_ranges limit (x # rs) u cursor = (if limit \<le> c then (v, c) else sweep_ranges limit rs v c)"
      using False unfolding x sweep_ranges.simps Let_def v_def c_def g_def by (simp add: max_def)
    show ?thesis
    proof (cases "limit \<le> c")
      case True
      then show ?thesis using sw Cons.prems(9) ok best c by simp
    next
      case go: False
      have "(s', e') \<in> set rs \<or> e' \<le> c \<or> limit \<le> s'" if "(s', e') \<in> R" for s' e'
        using Cons.prems(6) [OF that] x c(4,5) by auto
      then show ?thesis using Cons.IH [OF srt(1,2) c(1-3) _ ok best] sw go Cons.prems(9) by simp
    qed
  qed
qed


lemma largest_usable_interval_outcome:
  assumes cnt: "length rs \<le> k_max_reserved_ranges" and R: "\<And>s e. (s, e) \<in> set rs \<Longrightarrow> e + PGSIZE \<le> 2 ^ 64"
  obtains u where "largest_usable_interval raw_start raw_top rs (length rs) = Some u"
    "ok_interval (set rs) (pg_up raw_start) (pg_down raw_top) u"
    "\<And>a b. usable (set rs) (pg_up raw_start) (pg_down raw_top) a b \<Longrightarrow> b - a \<le> bytes u"
proof (cases "pg_down raw_top \<le> pg_up raw_start")
  case True
  show ?thesis
    by (rule that [of no_interval]) (use True in \<open>auto simp: largest_usable_interval_def no_interval_def bytes_def ok_interval_def usable_def\<close>)
next
  case False
  let ?start = "pg_up raw_start" and ?limit = "pg_down raw_top"
  obtain v c where vc: "sweep_ranges ?limit (sort_ranges rs) no_interval ?start = (v, c)" by force
  have set_eq: "set (sort_ranges rs) = set rs" using sort_ranges_sorted(2) [of rs] by (rule mset_eq_setD)
  have zero: "bytes no_interval = 0" by (simp add: bytes_def no_interval_def)
  have sw: "ok_interval (set rs) ?start ?limit v \<and> best_so_far (set rs) ?start ?limit v c \<and> PGSIZE dvd c \<and> c < 2 ^ 64 \<and>
     ?start \<le> c \<and> (?limit \<le> c \<or> clear_of (set rs) c ?limit)"
    by (rule sweep_ranges_ok [OF sort_ranges_sorted(1) _ R _ _ _ _ _ _ _ vc])
      (use set_eq pg_up_less zero in \<open>auto simp: ok_interval_def best_so_far_def usable_def\<close>)
  let ?u = "consider_gap v c ?limit"
  have eq: "largest_usable_interval raw_start raw_top rs (length rs) = Some ?u"
    using False cnt vc by (simp add: largest_usable_interval_def)
  have "ok_interval (set rs) ?start ?limit ?u"
  proof (cases "?limit \<le> c")
    case True
    then show ?thesis using sw consider_gap_aligned [of c ?limit v] by simp
  next
    case False
    then show ?thesis using sw consider_gap_ok [of c ?limit "set rs" ?start ?limit v] by simp
  qed
  moreover have "b - a \<le> bytes ?u" if ab: "usable (set rs) ?start ?limit a b" for a b
  proof (cases "a < b")
    case True
    then have "b - a \<le> bytes v \<or> c \<le> a" using sw ab unfolding best_so_far_def by blast
    moreover have "bytes v \<le> bytes ?u" "?limit - c \<le> bytes ?u" using consider_gap_bytes [of c ?limit v] sw by simp_all
    moreover have "b \<le> ?limit" using ab by (simp add: usable_def)
    ultimately show ?thesis by linarith
  qed simp
  ultimately show ?thesis using that [OF eq] by blast
qed

section \<open>The allocator's metadata\<close>

lemma pmm_align_up_bounds:
  assumes "v + alignment \<le> 2 ^ 64" "0 < alignment"
  shows "v \<le> pmm_align_up v alignment" "pmm_align_up v alignment < v + alignment"
proof -
  have eq: "pmm_align_up v alignment = (v + (alignment - 1)) div alignment * alignment"
    using assms by (simp add: pmm_align_up_def u64_add_def)
  show "pmm_align_up v alignment < v + alignment"
    unfolding eq using div_times_less_eq_dividend [of "v + (alignment - 1)" alignment] assms(2) by linarith
  show "v \<le> pmm_align_up v alignment"
    unfolding eq using dividend_less_div_times [OF assms(2), of "v + (alignment - 1)"] assms(2) by linarith
qed

lemma tree_bytes_le:
  assumes "pages \<le> 2 ^ 30"
  shows "unat (required_tree_bytes (of_nat pages)) \<le> 2 ^ 31"
    "unat (of_nat pages :: u32) = pages"
proof -
  show u: "unat (of_nat pages :: u32) = pages" using assms by (simp add: unat_of_nat)
  then have "unat (of_nat pages :: u32) \<le> 2 ^ 30" using assms by simp
  then obtain k where k: "k \<le> 30" "unat (required_tree_bytes (of_nat pages)) = 2 * 2 ^ k - 1"
    by (rule capacity_pages_for_pow2) blast
  have "(2::nat) ^ k \<le> 2 ^ 30" using k(1) by (intro power_increasing) auto
  then show "unat (required_tree_bytes (of_nat pages)) \<le> 2 ^ 31" using k(2) by simp
qed

text \<open>The pieces of the metadata follow each other without overlap.\<close>

lemma pmm_layout_for_order:
  assumes "start + 2 ^ 33 \<le> 2 ^ 64" "pages \<le> 2 ^ 30"
  defines "L \<equiv> pmm_layout_for start pages"
  shows "start + 40 \<le> tree_start L" "tree_start L + tree_bytes L \<le> refcount_start L"
    "refcount_start L + refcount_bytes L \<le> metadata_end L" "refcount_bytes L = 2 * pages"
    "tree_bytes L = unat (required_tree_bytes (of_nat pages))" "metadata_end L < start + 2 ^ 33" "metadata_start L = start"
proof -
  define ts where "ts = pmm_align_up (start + 40) 8"
  define tb where "tb = unat (required_tree_bytes (of_nat pages))"
  define rs where "rs = pmm_align_up (ts + tb) 2"
  have ts: "start + 40 \<le> ts" "ts < start + 48" using pmm_align_up_bounds [of "start + 40" 8] assms(1) by (auto simp: ts_def)
  have tb: "tb \<le> 2 ^ 31" using tree_bytes_le(1) [OF assms(2)] by (simp add: tb_def)
  have rs: "ts + tb \<le> rs" "rs < ts + tb + 2" using pmm_align_up_bounds [of "ts + tb" 2] assms(1) ts tb by (auto simp: rs_def)
  have rb: "u64_mul pages 2 = 2 * pages" using assms(2) by (simp add: u64_mul_def)
  have me: "rs + 2 * pages \<le> pg_up (rs + 2 * pages)" "pg_up (rs + 2 * pages) \<le> rs + 2 * pages + PGSIZE"
    using pg_up_ge [of "rs + 2 * pages"] div_times_less_eq_dividend [of "rs + 2 * pages + (PGSIZE - 1)" PGSIZE] ts rs tb assms(1,2)
    by (simp_all add: PGSIZE_def pg_up_def u64_add_def)
  have eq: "L = \<lparr>metadata_start = start, metadata_end = pg_up (rs + 2 * pages), tree_start = ts, tree_bytes = tb,
          refcount_start = rs, refcount_bytes = 2 * pages, managed_start = 0, managed_pages = 0\<rparr>"
    using assms(1,2) ts rs tb
    by (simp add: L_def pmm_layout_for_def Let_def sizeof_BuddySystem_def rb ts_def rs_def tb_def u64_add_def)
  show "start + 40 \<le> tree_start L" "tree_start L + tree_bytes L \<le> refcount_start L"
    "refcount_start L + refcount_bytes L \<le> metadata_end L" "refcount_bytes L = 2 * pages"
    "tree_bytes L = unat (required_tree_bytes (of_nat pages))" "metadata_end L < start + 2 ^ 33" "metadata_start L = start"
    using ts rs me tb assms(1,2) by (simp_all add: eq tb_def PGSIZE_def)
qed


lemma pmm_layout_for_aligned: "PGSIZE dvd metadata_end (pmm_layout_for start pages)"
  by (simp add: pmm_layout_for_def Let_def)

text \<open>What a layout must satisfy: metadata and pages fit the region in order, without overlap.\<close>

definition pmm_layout_ok :: "nat \<Rightarrow> nat \<Rightarrow> PmmMetadataLayout \<Rightarrow> bool" where
  "pmm_layout_ok start limit L \<longleftrightarrow>
     metadata_start L = start \<and> start + 40 \<le> tree_start L \<and> tree_start L + tree_bytes L \<le> refcount_start L \<and>
     refcount_start L + refcount_bytes L \<le> metadata_end L \<and> metadata_end L = managed_start L \<and>
     tree_bytes L = unat (required_tree_bytes (of_nat (managed_pages L))) \<and> refcount_bytes L = 2 * managed_pages L \<and>
     PGSIZE dvd managed_start L \<and> managed_start L < limit \<and> managed_start L + managed_pages L * PGSIZE \<le> limit \<and>
     limit < managed_start L + Suc (managed_pages L) * PGSIZE"

lemma pmm_layout_loop_ok:
  assumes "pmm_layout_loop rounds start limit pages = Some L" "start + 2 ^ 33 \<le> 2 ^ 64" "pages \<le> 2 ^ 30"
    and "limit \<le> start + 2 ^ 30 * PGSIZE"
  shows "pmm_layout_ok start limit L \<and> managed_pages L \<le> 2 ^ 30"
  using assms(1,3)
proof (induction rounds arbitrary: pages)
  case (Suc rounds)
  define P where "P = pmm_layout_for start pages"
  define nxt where "nxt = (limit - metadata_end P) div PGSIZE"
  note ord = pmm_layout_for_order [OF assms(2) Suc.prems(2), folded P_def]
  have lim: "metadata_end P < limit" using Suc.prems(1) by (auto simp: P_def Let_def split: if_splits)
  have "start \<le> metadata_end P" using ord(1-3) by linarith
  then have "limit - metadata_end P \<le> 2 ^ 30 * PGSIZE" using assms(4) by linarith
  then have nx: "nxt \<le> 2 ^ 30" unfolding nxt_def by (metis div_le_mono div_mult_self_is_m PGSIZE_def zero_less_numeral)
  show ?case
  proof (cases "nxt = pages")
    case True
    then have L: "L = P\<lparr>managed_start := metadata_end P, managed_pages := pages\<rparr>"
      using Suc.prems(1) by (auto simp: P_def nxt_def Let_def split: if_splits)
    have "pages * PGSIZE \<le> limit - metadata_end P" "limit - metadata_end P < Suc pages * PGSIZE"
      using True div_times_less_eq_dividend [of "limit - metadata_end P" PGSIZE]
        dividend_less_div_times [of PGSIZE "limit - metadata_end P"] by (auto simp: nxt_def PGSIZE_def)
    then have "metadata_end P + pages * PGSIZE \<le> limit" "limit < metadata_end P + Suc pages * PGSIZE"
      using lim by linarith+
    then show ?thesis using L lim ord(1-5,7) Suc.prems(2) pmm_layout_for_aligned [of start pages, folded P_def]
      by (simp add: pmm_layout_ok_def)
  next
    case False
    then have "pmm_layout_loop rounds start limit nxt = Some L"
      using Suc.prems(1) by (auto simp: P_def nxt_def Let_def split: if_splits)
    then show ?thesis using Suc.IH nx by blast
  qed
qed simp

lemma calculate_pmm_layout_ok:
  assumes "calculate_pmm_layout start limit = Some L" "start + 2 ^ 33 \<le> 2 ^ 64" "limit \<le> start + 2 ^ 30 * PGSIZE"
  shows "pmm_layout_ok start limit L \<and> managed_pages L \<le> 2 ^ 30"
proof -
  have "start \<le> limit" and loop: "pmm_layout_loop 16 start limit (u64_sub limit start div PGSIZE) = Some L"
    using assms(1,2) by (auto simp: calculate_pmm_layout_def u64_add_def PGSIZE_def Let_def split: if_splits)
  then have "u64_sub limit start \<le> 2 ^ 30 * PGSIZE" using assms(3) by (simp add: u64_sub_def)
  then have "u64_sub limit start div PGSIZE \<le> 2 ^ 30" by (metis div_le_mono div_mult_self_is_m PGSIZE_def zero_less_numeral)
  then show ?thesis by (rule pmm_layout_loop_ok [OF loop assms(2) _ assms(3)])
qed

section \<open>Kernel heap and shared memory\<close>

definition heap_layout_ok :: "nat \<Rightarrow> HeapLayout \<Rightarrow> bool" where
  "heap_layout_ok area H \<longleftrightarrow>
     heap_metadata_bytes H = storage_bytes (allocator_pages H) \<and> allocator_bytes H = allocator_pages H * PGSIZE \<and>
     heap_metadata_bytes H + allocator_bytes H + shm_bytes H \<le> area \<and> shm_bytes H \<le> SHM_SIZE \<and>
     allocator_bytes H \<le> vm_kernel_heap_size \<and> PGSIZE dvd shm_bytes H \<and> PGSIZE dvd heap_metadata_bytes H"

lemma heap_layout_loop_ok:
  assumes "heap_layout_loop rounds area budget pages = Some H" "allocator_pages H \<noteq> 0" "budget \<le> area" "area < 2 ^ 64"
  shows "heap_layout_ok area H"
  using assms(1)
proof (induction rounds arbitrary: pages)
  case (Suc rounds)
  let ?m = "storage_bytes pages"
  define nxt where "nxt = (let n = (if ?m < budget then (budget - ?m) div PGSIZE else 0) in
     if vm_kernel_heap_size div PGSIZE < n then vm_kernel_heap_size div PGSIZE else n)"
  show ?case
  proof (cases "nxt = pages")
    case True
    let ?rem = "u64_sub (u64_sub area ?m) (u64_mul pages PGSIZE)"
    have H: "H = \<lparr>heap_metadata_bytes = ?m, allocator_bytes = u64_mul pages PGSIZE,
        shm_bytes = pg_down (if SHM_SIZE < ?rem then SHM_SIZE else ?rem), allocator_pages = pages\<rparr>"
      using Suc.prems True by (simp add: nxt_def Let_def)
    have "pages \<noteq> 0" using assms(2) H by simp
    then have m: "?m < budget" and le: "pages \<le> (budget - ?m) div PGSIZE" "pages \<le> vm_kernel_heap_size div PGSIZE"
      using True by (auto simp: nxt_def Let_def split: if_splits)
    have pg: "pages * PGSIZE \<le> budget - ?m" "pages * PGSIZE \<le> vm_kernel_heap_size"
      using le by (metis div_times_less_eq_dividend le_trans mult_le_mono1)+
    then have small: "u64_mul pages PGSIZE = pages * PGSIZE" "?rem = area - ?m - pages * PGSIZE"
      using m assms(3,4) by (simp_all add: u64_mul_def u64_sub_def)
    have "pg_down (if SHM_SIZE < ?rem then SHM_SIZE else ?rem) \<le> (if SHM_SIZE < ?rem then SHM_SIZE else ?rem)"
      by (rule pg_down_le)
    then have "pg_down (if SHM_SIZE < ?rem then SHM_SIZE else ?rem) \<le> area - ?m - pages * PGSIZE"
      "pg_down (if SHM_SIZE < ?rem then SHM_SIZE else ?rem) \<le> SHM_SIZE"
      using small by (auto split: if_splits)
    then show ?thesis using H small(1) pg m assms(3) by (simp add: heap_layout_ok_def storage_bytes_def)
  next
    case False
    then have "heap_layout_loop rounds area budget nxt = Some H" using Suc.prems by (auto simp: nxt_def Let_def)
    then show ?thesis by (rule Suc.IH)
  qed
qed simp

lemma calculate_heap_layout_ok:
  assumes "calculate_heap_layout area = Some H" "allocator_pages H \<noteq> 0" "area < 2 ^ 64"
  shows "heap_layout_ok area H"
  using assms(1) unfolding calculate_heap_layout_def Let_def
  by (rule heap_layout_loop_ok [OF _ assms(2) _ assms(3)]) simp


section \<open>A region for which the iteration does not settle\<close>

text \<open>Two page counts that lead to each other keep the loop busy until its rounds are used up.\<close>

lemma pmm_layout_two_cycle:
  assumes "(limit - metadata_end (pmm_layout_for start n)) div PGSIZE = m"
    and "(limit - metadata_end (pmm_layout_for start m)) div PGSIZE = n" "n \<noteq> m"
  shows "pmm_layout_loop rounds start limit n = None \<and> pmm_layout_loop rounds start limit m = None"
  by (induction rounds) (use assms in \<open>auto simp: Let_def\<close>)

lemma pmm_align_up_add:
  assumes "alignment dvd s" "0 < alignment" "s + k + alignment \<le> 2 ^ 64"
  shows "pmm_align_up (s + k) alignment = s + (k + (alignment - 1)) div alignment * alignment"
proof -
  obtain q where q: "s = q * alignment" using assms(1) by (metis dvd_div_mult_self)
  have "pmm_align_up (s + k) alignment = (k + (alignment - 1) + q * alignment) div alignment * alignment"
    using assms by (simp add: pmm_align_up_def u64_add_def q add.assoc add.commute add.left_commute)
  also have "(k + (alignment - 1) + q * alignment) div alignment = q + (k + (alignment - 1)) div alignment"
    by (rule div_mult_self1) (use assms(2) in simp)
  also have "(q + (k + (alignment - 1)) div alignment) * alignment = s + (k + (alignment - 1)) div alignment * alignment"
    by (simp add: add_mult_distrib q)
  finally show ?thesis .
qed

lemma pg_up_align_up: "pg_up = (\<lambda>a. pmm_align_up a PGSIZE)"
  by (simp add: pg_up_def pmm_align_up_def fun_eq_iff)

lemma pmm_layout_for_eq:
  assumes "PGSIZE dvd start" "start + 2 ^ 33 \<le> 2 ^ 64" "pages \<le> 2 ^ 30"
    and "unat (required_tree_bytes (of_nat pages)) = tb" "odd tb"
  shows "pmm_layout_for start pages = \<lparr>metadata_start = start,
     metadata_end = start + (41 + tb + 2 * pages + 4095) div 4096 * 4096, tree_start = start + 40, tree_bytes = tb,
     refcount_start = start + (41 + tb), refcount_bytes = 2 * pages, managed_start = 0, managed_pages = 0\<rparr>"
proof -
  have tb: "tb \<le> 2 ^ 31" using tree_bytes_le(1) [OF assms(3)] assms(4) by simp
  have dvd: "8 dvd start" "2 dvd start" using assms(1) by (auto simp: PGSIZE_def intro: dvd_trans)
  have "pmm_align_up (start + 40) 8 = start + 40" using pmm_align_up_add [OF dvd(1), of 40] assms(2) by simp
  moreover have "pmm_align_up (start + (40 + tb)) 2 = start + (41 + tb)"
    using pmm_align_up_add [OF dvd(2), of "40 + tb"] assms(2,5) tb by (simp add: even_two_times_div_two odd_Suc_minus_one)
  moreover have "pmm_align_up (start + (41 + tb + 2 * pages)) PGSIZE = start + (41 + tb + 2 * pages + 4095) div 4096 * 4096"
    using pmm_align_up_add [OF assms(1), of "41 + tb + 2 * pages"] assms(2,3) tb by (simp add: PGSIZE_def)
  moreover have "u64_add start (unat sizeof_BuddySystem) = start + 40" "u64_add (start + 40) tb = start + (40 + tb)"
    "u64_add (start + (41 + tb)) (2 * pages) = start + (41 + tb + 2 * pages)" "u64_mul pages 2 = 2 * pages"
    using assms(2,3) tb by (simp_all add: sizeof_BuddySystem_def u64_add_def u64_mul_def)
  ultimately show ?thesis
    by (simp only: pmm_layout_for_def Let_def pg_up_align_up assms(4))
qed

lemma tree_bytes_values:
  "unat (required_tree_bytes (of_nat 65610)) = 262143" "unat (required_tree_bytes (of_nat 65546)) = 262143"
  "unat (required_tree_bytes (of_nat 65513)) = 131071"
  by (simp_all add: required_tree_bytes_def capacity_pages_for_def NextPowerOfTwo_def Let_def)

end
