(* ===== verification/Pmm_Init.thy ===== *)
theory Pmm_Init
  imports Pmm_Layout
begin

text \<open>
  \<open>PhysicalMemoryManager::init\<close> of \<open>src/kernel/mem/physical_memory_manager.cc\<close>: from the memory map
  of the firmware to a manager that satisfies its invariant. The link addresses of the kernel, the
  addresses the boot code recorded and the answers of the device tree manager are the record
  \<open>BootInfo\<close>; the platform's conversion to physical addresses is the identity on RISC-V and drops the
  window bits on LoongArch. Prints are left out.
\<close>

section \<open>Definitions\<close>

text \<open>A memory region of the device tree: base and size.\<close>

type_synonym DtbMemoryRegion = "nat \<times> nat"

record BootInfo =
  bi_arch :: Arch
  bi_kernel_start :: nat
  bi_kernel_end :: nat
  bi_initrd :: "nat \<times> nat"
  bi_dtb_initrd :: "nat \<times> nat"
  bi_dtb_addr :: nat
  bi_dtb_size :: nat
  bi_reserved :: "DtbMemoryRegion list"
  bi_regions :: "DtbMemoryRegion list"
  bi_managed_top :: nat

record PmmLayout =
  phys_top :: nat
  kernel_linear_top :: nat
  heap_area_start :: nat
  heap_area_size :: nat
  heap_allocator_size :: nat
  heap_page_count :: nat
  shm_start :: nat
  shm_size :: nat
  k_initrd :: "nat \<times> nat"

definition k_unlimited_physical_top :: nat where
  "k_unlimited_physical_top = 2 ^ 64 - 1"

definition physical_address :: "Arch \<Rightarrow> nat \<Rightarrow> nat" where
  "physical_address ar a = (case ar of RISCV \<Rightarrow> a | LOONGARCH \<Rightarrow> a mod (k_physical_address_mask + 1))"

text \<open>The initrd the boot code recorded, or the one the device tree describes.\<close>

definition boot_initrd :: "BootInfo \<Rightarrow> nat \<times> nat" where
  "boot_initrd bi =
     (if fst (bi_initrd bi) = 0 \<or> snd (bi_initrd bi) \<le> fst (bi_initrd bi) then bi_dtb_initrd bi else bi_initrd bi)"

definition published_initrd :: "BootInfo \<Rightarrow> nat \<times> nat" where
  "published_initrd bi =
     (let (initrd_start, initrd_end) = boot_initrd bi
      in if initrd_start \<noteq> 0 \<and> initrd_start < initrd_end then (initrd_start, initrd_end) else bi_initrd bi)"

text \<open>The firmware's reserved regions: invalid ones are skipped, and the table holds 35 ranges.\<close>

fun add_firmware_reserved :: "DtbMemoryRegion list \<Rightarrow> ReservedRange list \<Rightarrow> ReservedRange list" where
  "add_firmware_reserved [] reserved = reserved"
| "add_firmware_reserved ((base, sz) # rest) reserved =
     (if k_max_reserved_ranges \<le> length reserved then reserved
      else case checked_region_top base sz of
             None \<Rightarrow> add_firmware_reserved rest reserved
           | Some reserved_end \<Rightarrow> add_firmware_reserved rest (reserved @ [(base, reserved_end)]))"

definition collect_reserved :: "BootInfo \<Rightarrow> ReservedRange list option" where
  "collect_reserved bi =
     (let kernel_image_start = pg_down (physical_address (bi_arch bi) (bi_kernel_start bi));
          kernel_image_end = pg_up (physical_address (bi_arch bi) (bi_kernel_end bi));
          (initrd_start, initrd_end) = boot_initrd bi
      in if kernel_image_end \<le> kernel_image_start then None
         else do {
           dtb \<leftarrow> (if bi_dtb_addr bi \<noteq> 0
                  then if bi_dtb_size bi = 0 then None
                       else do { dtb_end \<leftarrow> checked_region_top (bi_dtb_addr bi) (bi_dtb_size bi); Some [(bi_dtb_addr bi, dtb_end)] }
                  else Some []);
           let initrd = (if initrd_start \<noteq> 0 \<and> initrd_start < initrd_end then [(initrd_start, initrd_end)] else [])
           in Some (add_firmware_reserved (bi_reserved bi) ((kernel_image_start, kernel_image_end) # dtb @ initrd))
         })"

text \<open>The platform's limit cuts the regions; an emptied region has size zero.\<close>

definition limit_region :: "nat \<Rightarrow> DtbMemoryRegion \<Rightarrow> DtbMemoryRegion" where
  "limit_region managed_top region =
     (case checked_region_top (fst region) (snd region) of
        None \<Rightarrow> (fst region, 0)
      | Some raw_top \<Rightarrow>
          if managed_top \<le> fst region then (fst region, 0)
          else if managed_top < raw_top then (fst region, managed_top - fst region)
          else region)"

definition managed_regions :: "BootInfo \<Rightarrow> DtbMemoryRegion list" where
  "managed_regions bi =
     (if bi_managed_top bi \<noteq> k_unlimited_physical_top
      then map (limit_region (bi_managed_top bi)) (bi_regions bi) else bi_regions bi)"

definition contains_kernel :: "nat \<Rightarrow> nat \<Rightarrow> nat \<Rightarrow> bool" where
  "contains_kernel kernel_end base region_top \<longleftrightarrow> base < kernel_end \<and> kernel_end \<le> region_top"

text \<open>
  The choice of the region. RISC-V does one pass that also records the top of the kernel's region and
  of the selected one; LoongArch looks for the kernel first and then for the interval. \<open>found\<close> is
  \<open>kernel_region_index >= 0\<close>.
\<close>

primrec select_riscv ::
  "nat \<Rightarrow> ReservedRange list \<Rightarrow> DtbMemoryRegion list \<Rightarrow> bool \<times> nat \<times> nat \<times> UsableInterval \<Rightarrow>
   (bool \<times> nat \<times> nat \<times> UsableInterval) option" where
  "select_riscv kernel_end reserved [] st = Some st"
| "select_riscv kernel_end reserved (region # regions) st =
     (let (found, kernel_region_top, selected_region_top, best) = st
      in case checked_region_top (fst region) (snd region) of
           None \<Rightarrow> select_riscv kernel_end reserved regions st
         | Some region_top \<Rightarrow>
             let ck = contains_kernel kernel_end (fst region) region_top;
                 found = (found \<or> ck);
                 kernel_region_top = (if ck then pg_down region_top else kernel_region_top);
                 candidate_start = (if ck then kernel_end else fst region)
             in do {
               candidate \<leftarrow> largest_usable_interval candidate_start region_top reserved (length reserved);
               select_riscv kernel_end reserved regions
                 (if bytes best < bytes candidate
                  then (found, kernel_region_top, pg_down region_top, candidate)
                  else (found, kernel_region_top, selected_region_top, best))
             })"

primrec find_kernel_loongarch :: "nat \<Rightarrow> DtbMemoryRegion list \<Rightarrow> bool \<times> nat \<Rightarrow> bool \<times> nat" where
  "find_kernel_loongarch kernel_end [] st = st"
| "find_kernel_loongarch kernel_end (region # regions) st =
     find_kernel_loongarch kernel_end regions
       (case checked_region_top (fst region) (snd region) of
          None \<Rightarrow> st
        | Some region_top \<Rightarrow>
            if contains_kernel kernel_end (fst region) region_top
            then (True, to_vir (pg_down region_top)) else st)"

primrec select_loongarch ::
  "nat \<Rightarrow> ReservedRange list \<Rightarrow> DtbMemoryRegion list \<Rightarrow> UsableInterval \<Rightarrow> UsableInterval option" where
  "select_loongarch kernel_end reserved [] best = Some best"
| "select_loongarch kernel_end reserved (region # regions) best =
     (case checked_region_top (fst region) (snd region) of
        None \<Rightarrow> select_loongarch kernel_end reserved regions best
      | Some region_top \<Rightarrow> do {
          candidate \<leftarrow> largest_usable_interval
            (if contains_kernel kernel_end (fst region) region_top then kernel_end else fst region)
            region_top reserved (length reserved);
          select_loongarch kernel_end reserved regions
            (if bytes best < bytes candidate then candidate else best)
        })"

text \<open>The allocator's interval and the top of the kernel's linear mapping.\<close>

definition select_interval :: "BootInfo \<Rightarrow> ReservedRange list \<Rightarrow> (nat \<times> nat \<times> nat) option" where
  "select_interval bi reserved =
     (let kernel_end = pg_up (physical_address (bi_arch bi) (bi_kernel_end bi));
          regions = managed_regions bi
      in case bi_arch bi of
           RISCV \<Rightarrow> do {
             (found, kernel_region_top, selected_region_top, best) \<leftarrow>
               select_riscv kernel_end reserved regions (False, 0, 0, no_interval);
             if \<not> found then None
             else if bytes best = 0 then None
             else Some (ui_start best, ui_top best,
                        if selected_region_top < kernel_region_top then kernel_region_top else selected_region_top)
           }
         | LOONGARCH \<Rightarrow>
             let (found, linear_top) = find_kernel_loongarch kernel_end regions (False, 0)
             in do {
               best \<leftarrow> select_loongarch kernel_end reserved regions no_interval;
               if \<not> found then None
               else if bytes best = 0 then None
               else Some (to_vir (ui_start best), to_vir (ui_top best), linear_top)
             })"

definition heap_region_bytes :: "nat \<Rightarrow> nat" where
  "heap_region_bytes available =
     (let max_region = storage_bytes (vm_kernel_heap_size div PGSIZE) + vm_kernel_heap_size + SHM_SIZE;
          min_region = storage_bytes (2 ^ 20 * 8 div PGSIZE) + 2 ^ 20 * 8 + 2 ^ 20 * 2;
          n = available div 3;
          n = (if n < min_region then min_region else n);
          n = (if max_region < n then max_region else n)
      in if available < u64_add n (PGSIZE * 64) then available div 3 else n)"

definition pmm_init :: "BootInfo \<Rightarrow> (nat \<Rightarrow> u8) \<Rightarrow> (Pmm \<times> PmmLayout) option" where
  "pmm_init bi mem = do {
     reserved \<leftarrow> collect_reserved bi;
     (sel_start, sel_top, linear_top) \<leftarrow> select_interval bi reserved;
     let allocator_start = pg_up sel_start; allocator_top = pg_down sel_top
     in if allocator_top \<le> u64_add allocator_start (PGSIZE * 64) then None
        else let available = allocator_top - allocator_start;
                 heap_start = pg_down (u64_sub allocator_top (heap_region_bytes available));
                 heap_size = u64_sub allocator_top heap_start
             in do {
               L \<leftarrow> calculate_pmm_layout allocator_start heap_start;
               H \<leftarrow> calculate_heap_layout heap_size;
               let shm = u64_add (u64_add heap_start (heap_metadata_bytes H)) (allocator_bytes H)
               in if allocator_pages H = 0 \<or> shm_bytes H = 0 then None
                  else do {
                    b \<leftarrow> Initialize (of_nat (managed_start L)) (of_nat (managed_pages L))
                           (Some (replicate (tree_bytes L) NODE_UNUSED)) (of_nat (tree_bytes L));
                    Some (\<lparr>pmm_arch = bi_arch bi, pmm_buddy = Some b, pa_start = managed_start L,
                           pmm_pages = managed_pages L, k_page_refcounts = Some (replicate (managed_pages L) 0),
                           pmm_mem = zero_bytes mem (metadata_start L) (metadata_end L - metadata_start L)\<rparr>,
                          \<lparr>phys_top = allocator_top, kernel_linear_top = linear_top, heap_area_start = heap_start,
                           heap_area_size = u64_add (u64_add (heap_metadata_bytes H) (allocator_bytes H)) (shm_bytes H),
                           heap_allocator_size = allocator_bytes H, heap_page_count = allocator_pages H,
                           shm_start = shm, shm_size = shm_bytes H, k_initrd = published_initrd bi\<rparr>)
                  }
             }
   }"


section \<open>Reserved ranges and regions\<close>

text \<open>The ranges that must never be handed out: the kernel image, the device tree, the initrd, and every
  valid range the firmware reserves.\<close>

definition must_avoid :: "BootInfo \<Rightarrow> ReservedRange set" where
  "must_avoid bi =
     {(pg_down (physical_address (bi_arch bi) (bi_kernel_start bi)), pg_up (physical_address (bi_arch bi) (bi_kernel_end bi)))} \<union>
     (if bi_dtb_addr bi \<noteq> 0 then {(bi_dtb_addr bi, bi_dtb_addr bi + bi_dtb_size bi)} else {}) \<union>
     (if fst (boot_initrd bi) \<noteq> 0 \<and> fst (boot_initrd bi) < snd (boot_initrd bi) then {boot_initrd bi} else {}) \<union>
     {(base, e) |base e. \<exists>sz. (base, sz) \<in> set (bi_reserved bi) \<and> checked_region_top base sz = Some e}"

lemma checked_region_top_Some: "checked_region_top base sz = Some e \<Longrightarrow> e = base + sz \<and> 0 < sz"
  by (auto simp: checked_region_top_def split: if_splits)

lemma add_firmware_reserved_set:
  assumes "length acc + length rest \<le> k_max_reserved_ranges"
  shows "set (add_firmware_reserved rest acc) =
      set acc \<union> {(base, e) |base e. \<exists>sz. (base, sz) \<in> set rest \<and> checked_region_top base sz = Some e} \<and>
    length (add_firmware_reserved rest acc) \<le> k_max_reserved_ranges"
  using assms
proof (induction rest acc rule: add_firmware_reserved.induct)
  case (2 base sz rest acc)
  then have lt: "\<not> k_max_reserved_ranges \<le> length acc" by simp
  show ?case
  proof (cases "checked_region_top base sz")
    case None
    then show ?thesis using 2(1) [OF lt None] 2(3) lt by auto
  next
    case (Some e)
    then show ?thesis using 2(2) [OF lt Some] 2(3) lt by auto
  qed
qed simp

lemma collect_reserved_set:
  assumes "collect_reserved bi = Some R" "length (bi_reserved bi) \<le> 32"
  shows "set R = must_avoid bi \<and> length R \<le> k_max_reserved_ranges"
proof -
  let ?k = "(pg_down (physical_address (bi_arch bi) (bi_kernel_start bi)), pg_up (physical_address (bi_arch bi) (bi_kernel_end bi)))"
  obtain i0 i1 where ini: "boot_initrd bi = (i0, i1)" by force
  let ?i = "if i0 \<noteq> 0 \<and> i0 < i1 then [(i0, i1)] else []"
  obtain dtb where d: "(if bi_dtb_addr bi \<noteq> 0 then if bi_dtb_size bi = 0 then None
       else do { dtb_end \<leftarrow> checked_region_top (bi_dtb_addr bi) (bi_dtb_size bi); Some [(bi_dtb_addr bi, dtb_end)] }
       else Some []) = Some dtb" and R: "R = add_firmware_reserved (bi_reserved bi) (?k # dtb @ ?i)"
    using assms(1) ini unfolding collect_reserved_def Let_def
    by (cases "bi_dtb_addr bi = 0") (auto simp: Option.bind_eq_Some_conv split: if_splits)
  have dtb: "set dtb = (if bi_dtb_addr bi \<noteq> 0 then {(bi_dtb_addr bi, bi_dtb_addr bi + bi_dtb_size bi)} else {})"
    "length dtb \<le> 1"
    using d by (auto simp: Option.bind_eq_Some_conv dest!: checked_region_top_Some split: if_splits)
  have "length (?k # dtb @ ?i) + length (bi_reserved bi) \<le> k_max_reserved_ranges"
    using dtb(2) assms(2) by (simp add: k_max_reserved_ranges_def)
  from add_firmware_reserved_set [OF this] show ?thesis
    unfolding R must_avoid_def using dtb(1) ini by auto
qed

text \<open>A chosen interval is empty, or lies page aligned in one of the regions and avoids the reserved ranges.\<close>

definition good_choice :: "ReservedRange set \<Rightarrow> DtbMemoryRegion set \<Rightarrow> UsableInterval \<Rightarrow> bool" where
  "good_choice R M u \<longleftrightarrow> bytes u = 0 \<or>
     (\<exists>(base, sz)\<in>M. base \<le> ui_start u \<and> ui_top u \<le> base + sz \<and> PGSIZE dvd ui_start u \<and> PGSIZE dvd ui_top u \<and>
        clear_of R (ui_start u) (ui_top u))"

definition regions_small :: "DtbMemoryRegion set \<Rightarrow> bool" where
  "regions_small M \<longleftrightarrow> (\<forall>(base, sz)\<in>M. base + sz \<le> 2 ^ 47 \<and> sz \<le> 2 ^ 42)"

definition ends_small :: "ReservedRange set \<Rightarrow> bool" where
  "ends_small R \<longleftrightarrow> (\<forall>(s, e)\<in>R. e + PGSIZE \<le> 2 ^ 64)"

lemma candidate_good:
  assumes R: "length rs \<le> k_max_reserved_ranges" "ends_small (set rs)"
    and m: "(base, sz) \<in> M" "checked_region_top base sz = Some t" "regions_small M"
  obtains u where "largest_usable_interval (if contains_kernel k base t then k else base) t rs (length rs) = Some u"
    "good_choice (set rs) M u"
proof -
  define c where "c = (if contains_kernel k base t then k else base)"
  have t: "t = base + sz" "base + sz \<le> 2 ^ 47" using checked_region_top_Some [OF m(2)] m(1,3) by (auto simp: regions_small_def)
  have "base \<le> c" "c \<le> t" using t(1) by (auto simp: c_def contains_kernel_def)
  then have "base \<le> pg_up c" using pg_up_ge [of c] t by (simp add: PGSIZE_def)
  moreover obtain u where u: "largest_usable_interval c t rs (length rs) = Some u"
    "ok_interval (set rs) (pg_up c) (pg_down t) u"
    by (rule largest_usable_interval_outcome [OF R(1)]) (use R(2) in \<open>auto simp: ends_small_def\<close>)
  moreover have "pg_down t \<le> base + sz" using pg_down_le [of t] t(1) by simp
  ultimately have "good_choice (set rs) M u"
    using m(1) unfolding good_choice_def ok_interval_def usable_def by fastforce
  then show ?thesis using that u(1) by (simp add: c_def)
qed

lemma select_riscv_good:
  assumes R: "length rs \<le> k_max_reserved_ranges" "ends_small (set rs)"
    and "select_riscv k rs regions (f, kt, st, u) = Some (f', kt', st', u')" "set regions \<subseteq> M" "regions_small M"
    and "good_choice (set rs) M u"
  shows "good_choice (set rs) M u'"
  using assms(3,4,6)
proof (induction regions arbitrary: f kt st u)
  case (Cons m regions)
  obtain base sz where m: "m = (base, sz)" by force
  show ?case
  proof (cases "checked_region_top base sz")
    case None
    then show ?thesis using Cons m by simp
  next
    case (Some t)
    have "(base, sz) \<in> M" using Cons.prems(2) m by simp
    from candidate_good [OF R this Some assms(5), where k = k] obtain v where
      v: "largest_usable_interval (if contains_kernel k base t then k else base) t rs (length rs) = Some v" "good_choice (set rs) M v"
      by blast
    show ?thesis
      using Cons.prems m Some v Cons.IH by (auto simp: Let_def split: if_splits)
  qed
qed simp

lemma select_loongarch_good:
  assumes R: "length rs \<le> k_max_reserved_ranges" "ends_small (set rs)"
    and "select_loongarch k rs regions u = Some u'" "set regions \<subseteq> M" "regions_small M"
    and "good_choice (set rs) M u"
  shows "good_choice (set rs) M u'"
  using assms(3,4,6)
proof (induction regions arbitrary: u)
  case (Cons m regions)
  obtain base sz where m: "m = (base, sz)" by force
  show ?case
  proof (cases "checked_region_top base sz")
    case None
    then show ?thesis using Cons m by simp
  next
    case (Some t)
    have "(base, sz) \<in> M" using Cons.prems(2) m by simp
    from candidate_good [OF R this Some assms(5), where k = k] obtain v where
      v: "largest_usable_interval (if contains_kernel k base t then k else base) t rs (length rs) = Some v" "good_choice (set rs) M v"
      by blast
    show ?thesis
      using Cons.prems m Some v Cons.IH by (auto split: if_splits)
  qed
qed simp

lemma managed_regions_within:
  "(base, sz) \<in> set (managed_regions bi) \<Longrightarrow> \<exists>sz'\<ge>sz. (base, sz') \<in> set (bi_regions bi)"
proof -
  have "\<exists>sz'\<ge>sz. (base, sz') = m" if "limit_region t m = (base, sz)" for m t
    using that checked_region_top_Some [of "fst m" "snd m"]
    by (cases m) (auto simp: limit_region_def split: option.splits if_splits)
  then show "(base, sz) \<in> set (managed_regions bi) \<Longrightarrow> \<exists>sz'\<ge>sz. (base, sz') \<in> set (bi_regions bi)"
    by (fastforce simp: managed_regions_def split: if_splits)
qed


section \<open>The composition\<close>

text \<open>What the firmware tables satisfy on the supported boards: at most 32 reserved regions, RAM below
  \<open>2 ^ 47\<close> in regions of at most four terabytes, and no reserved range up to the last page of the
  address space.\<close>

definition boot_ok :: "BootInfo \<Rightarrow> bool" where
  "boot_ok bi \<longleftrightarrow> length (bi_reserved bi) \<le> 32 \<and> ends_small (must_avoid bi) \<and> regions_small (set (bi_regions bi))"

text \<open>The distance between a physical address and the address the kernel uses for it.\<close>

definition window :: "Arch \<Rightarrow> nat" where
  "window ar = (case ar of RISCV \<Rightarrow> 0 | LOONGARCH \<Rightarrow> PHYSBASE)"

lemma window_facts: "PGSIZE dvd window ar" "window ar \<le> PHYSBASE"
  by (cases ar; simp add: window_def PHYSBASE_def PGSIZE_def)+

lemma to_vir_small: "a \<le> 2 ^ 47 \<Longrightarrow> to_vir a = a + PHYSBASE"
  by (simp add: to_vir_def k_physical_address_mask_def)

lemma select_interval_good:
  assumes "boot_ok bi" "set R = must_avoid bi" "length R \<le> k_max_reserved_ranges" "select_interval bi R = Some (s, t, lt)"
  obtains u0 u1 base sz where "(base, sz) \<in> set (bi_regions bi)" "base \<le> u0" "u0 < u1" "u1 \<le> base + sz"
    "PGSIZE dvd u0" "PGSIZE dvd u1" "clear_of (must_avoid bi) u0 u1" "s = u0 + window (bi_arch bi)" "t = u1 + window (bi_arch bi)"
proof -
  let ?M = "set (managed_regions bi)"
  have ends: "ends_small (set R)" using assms(1,2) by (simp add: boot_ok_def)
  have small: "regions_small ?M"
    using assms(1) managed_regions_within [of _ _ bi] unfolding boot_ok_def regions_small_def by fastforce
  have none: "good_choice (set R) ?M no_interval" by (simp add: good_choice_def bytes_def no_interval_def)
  obtain u where u: "good_choice (set R) ?M u" "bytes u \<noteq> 0"
    "s = (case bi_arch bi of RISCV \<Rightarrow> ui_start u | LOONGARCH \<Rightarrow> to_vir (ui_start u))"
    "t = (case bi_arch bi of RISCV \<Rightarrow> ui_top u | LOONGARCH \<Rightarrow> to_vir (ui_top u))"
  proof (cases "bi_arch bi")
    case RISCV
    then obtain f kt st u where "select_riscv (pg_up (physical_address RISCV (bi_kernel_end bi))) R (managed_regions bi) (False, 0, 0, no_interval)
        = Some (f, kt, st, u)" "bytes u \<noteq> 0" "s = ui_start u" "t = ui_top u"
      using assms(4) by (auto simp: select_interval_def Option.bind_eq_Some_conv split: if_splits)
    with select_riscv_good [OF assms(3) ends this(1) order.refl small none] show ?thesis using that [of u] RISCV by simp
  next
    case LOONGARCH
    then obtain u where "select_loongarch (pg_up (physical_address LOONGARCH (bi_kernel_end bi))) R (managed_regions bi) no_interval = Some u"
        "bytes u \<noteq> 0" "s = to_vir (ui_start u)" "t = to_vir (ui_top u)"
      using assms(4) by (auto simp: select_interval_def Let_def Option.bind_eq_Some_conv split: if_splits prod.splits)
    with select_loongarch_good [OF assms(3) ends this(1) order.refl small none] show ?thesis using that [of u] LOONGARCH by simp
  qed
  then obtain base sz where m: "(base, sz) \<in> ?M" "base \<le> ui_start u" "ui_top u \<le> base + sz" "PGSIZE dvd ui_start u"
    "PGSIZE dvd ui_top u" "clear_of (set R) (ui_start u) (ui_top u)"
    unfolding good_choice_def by blast
  obtain sz' where sz': "sz \<le> sz'" "(base, sz') \<in> set (bi_regions bi)" using managed_regions_within [OF m(1)] by blast
  have lt: "ui_start u < ui_top u" using u(2) by (auto simp: bytes_def split: if_splits)
  have "base + sz \<le> 2 ^ 47" using small m(1) by (auto simp: regions_small_def)
  then have "s = ui_start u + window (bi_arch bi)" "t = ui_top u + window (bi_arch bi)"
    using u(3,4) m(3) lt to_vir_small by (cases "bi_arch bi"; simp add: window_def)+
  then show ?thesis using that [OF sz'(2) m(2) lt _ m(4,5)] m(3,6) sz'(1) assms(2) by simp
qed

lemma storage_bytes_values: "storage_bytes 65536 = 135168" "storage_bytes 2048 = 8192"
  by (simp_all add: storage_bytes_def required_storage_bytes_def sizeof_BuddySystem_def required_tree_bytes_def
      capacity_pages_for_def NextPowerOfTwo_def Let_def pg_up_def u64_add_def PGSIZE_def)

lemma heap_region_bytes_le: "heap_region_bytes available \<le> available"
  by (auto simp: heap_region_bytes_def Let_def vm_kernel_heap_size_def SHM_SIZE_def PGSIZE_def storage_bytes_values u64_add_def
      split: if_splits)

text \<open>The manager that \<open>Initialize\<close> leaves satisfies the invariant.\<close>

lemma fresh_pmm:
  assumes ok: "pmm_layout_ok start limit L" and pages: "managed_pages L \<le> 2 ^ 30" "PGSIZE dvd limit" "limit < 2 ^ 64"
    and b: "Initialize (of_nat (managed_start L)) (of_nat (managed_pages L)) (Some (replicate (tree_bytes L) NODE_UNUSED))
        (of_nat (tree_bytes L)) = Some b"
    and p: "p = \<lparr>pmm_arch = ar, pmm_buddy = Some b, pa_start = managed_start L, pmm_pages = managed_pages L,
        k_page_refcounts = Some (replicate (managed_pages L) 0), pmm_mem = m\<rparr>"
    and win: "ar = LOONGARCH \<longrightarrow> PHYSBASE \<le> start"
  shows "pmm_inv p \<and> pmm_free p = {0..<pmm_pages p} \<and> pmm_blocks p = {} \<and> 0 < pmm_pages p"
proof -
  have L: "managed_start L < limit" "managed_start L + managed_pages L * PGSIZE \<le> limit" "PGSIZE dvd managed_start L"
    "limit < managed_start L + Suc (managed_pages L) * PGSIZE" "start + 40 \<le> managed_start L"
    "tree_bytes L = unat (required_tree_bytes (of_nat (managed_pages L)))"
    using ok by (auto simp: pmm_layout_ok_def)
  have pos: "0 < managed_pages L"
    using L(1,3,4) dvd_step [OF L(3) pages(2)] by (cases "managed_pages L") auto
  have u: "unat (of_nat (managed_pages L) :: u32) = managed_pages L" by (rule tree_bytes_le(2) [OF pages(1)])
  have tb: "(of_nat (tree_bytes L) :: u64) = required_tree_bytes (of_nat (managed_pages L))" using L(6) by simp
  have "\<not> 2 ^ 29 < managed_pages L"
  proof
    assume "2 ^ 29 < managed_pages L"
    then have "2 ^ 29 < unat (of_nat (managed_pages L) :: u32)" "unat (of_nat (managed_pages L) :: u32) \<le> 2 ^ 31"
      using u pages(1) by simp_all
    from Initialize_too_large [OF this] b show False by simp
  qed
  then have "\<exists>b'. Initialize (of_nat (managed_start L)) (of_nat (managed_pages L)) (Some (replicate (tree_bytes L) NODE_UNUSED))
      (of_nat (tree_bytes L)) = Some b' \<and> buddy_inv b' \<and> page_count b' = max 1 (unat (of_nat (managed_pages L) :: u32)) \<and>
      free_of b' = {0..<page_count b'} \<and> blocks_of b' = {} \<and> base_ptr b' = of_nat (managed_start L)"
    by (intro Initialize_fresh) (use u tb L(6) in simp_all)
  then have b': "buddy_inv b" "page_count b = managed_pages L" "free_of b = {0..<page_count b}" "blocks_of b = {}"
    using b u pos by auto
  have "pmm_rep p b (replicate (managed_pages L) 0)"
    using b' L pages(3) win p by (auto simp: pmm_rep_def)
  then show ?thesis using pmm_invI b' p pos by (auto simp: pmm_free_def pmm_blocks_def)
qed

lemma pmm_init_parts:
  assumes "pmm_init bi mem = Some (p, l)"
  obtains R s t lt hs L H b where "collect_reserved bi = Some R" "select_interval bi R = Some (s, t, lt)"
    "hs = pg_down (u64_sub (pg_down t) (heap_region_bytes (pg_down t - pg_up s)))"
    "calculate_pmm_layout (pg_up s) hs = Some L" "calculate_heap_layout (u64_sub (pg_down t) hs) = Some H"
    "allocator_pages H \<noteq> 0" "shm_bytes H \<noteq> 0"
    "Initialize (of_nat (managed_start L)) (of_nat (managed_pages L)) (Some (replicate (tree_bytes L) NODE_UNUSED))
       (of_nat (tree_bytes L)) = Some b"
    "p = \<lparr>pmm_arch = bi_arch bi, pmm_buddy = Some b, pa_start = managed_start L, pmm_pages = managed_pages L,
       k_page_refcounts = Some (replicate (managed_pages L) 0),
       pmm_mem = zero_bytes mem (metadata_start L) (metadata_end L - metadata_start L)\<rparr>"
    "l = \<lparr>phys_top = pg_down t, kernel_linear_top = lt, heap_area_start = hs,
       heap_area_size = u64_add (u64_add (heap_metadata_bytes H) (allocator_bytes H)) (shm_bytes H),
       heap_allocator_size = allocator_bytes H, heap_page_count = allocator_pages H,
       shm_start = u64_add (u64_add hs (heap_metadata_bytes H)) (allocator_bytes H), shm_size = shm_bytes H,
       k_initrd = published_initrd bi\<rparr>"
  using assms unfolding pmm_init_def Let_def
  by (auto simp: Option.bind_eq_Some_conv split: if_splits)


section \<open>Properties\<close>

text \<open>C6. Whenever \<open>init\<close> returns, the manager satisfies its invariant with every page free; the managed
  pages, the heap area and the shared memory follow each other up to \<open>phys_top\<close> without overlap; and
  the whole range lies in one RAM region of the firmware and meets neither the kernel image, nor the
  device tree, nor the initrd, nor any range the firmware reserves.\<close>

theorem pmm_init_correct:
  assumes "pmm_init bi mem = Some (p, l)" "boot_ok bi"
  shows "pmm_inv p \<and> pmm_free p = {0..<pmm_pages p} \<and> pmm_blocks p = {} \<and> 0 < pmm_pages p \<and>
    pa_start p + pmm_pages p * PGSIZE \<le> heap_area_start l \<and> heap_area_start l + heap_allocator_size l \<le> shm_start l \<and>
    shm_start l + shm_size l = heap_area_start l + heap_area_size l \<and> heap_area_start l + heap_area_size l \<le> phys_top l \<and>
    (\<exists>base sz. (base, sz) \<in> set (bi_regions bi) \<and> base + window (bi_arch bi) \<le> pa_start p \<and>
       phys_top l \<le> base + sz + window (bi_arch bi)) \<and>
    clear_of (must_avoid bi) (pa_start p - window (bi_arch bi)) (phys_top l - window (bi_arch bi))"
proof -
  let ?w = "window (bi_arch bi)"
  obtain R s t lt hs L H b where parts: "collect_reserved bi = Some R" "select_interval bi R = Some (s, t, lt)"
    "hs = pg_down (u64_sub (pg_down t) (heap_region_bytes (pg_down t - pg_up s)))"
    "calculate_pmm_layout (pg_up s) hs = Some L" "calculate_heap_layout (u64_sub (pg_down t) hs) = Some H"
    "allocator_pages H \<noteq> 0"
    and b: "Initialize (of_nat (managed_start L)) (of_nat (managed_pages L)) (Some (replicate (tree_bytes L) NODE_UNUSED))
       (of_nat (tree_bytes L)) = Some b"
    and p: "p = \<lparr>pmm_arch = bi_arch bi, pmm_buddy = Some b, pa_start = managed_start L, pmm_pages = managed_pages L,
       k_page_refcounts = Some (replicate (managed_pages L) 0),
       pmm_mem = zero_bytes mem (metadata_start L) (metadata_end L - metadata_start L)\<rparr>"
    and l: "phys_top l = pg_down t" "heap_area_start l = hs" "heap_allocator_size l = allocator_bytes H" "shm_size l = shm_bytes H"
      "heap_area_size l = u64_add (u64_add (heap_metadata_bytes H) (allocator_bytes H)) (shm_bytes H)"
      "shm_start l = u64_add (u64_add hs (heap_metadata_bytes H)) (allocator_bytes H)"
    by (rule pmm_init_parts [OF assms(1)]) simp
  have R: "set R = must_avoid bi" "length R \<le> k_max_reserved_ranges"
    using collect_reserved_set [OF parts(1)] assms(2) by (simp_all add: boot_ok_def)
  obtain u0 u1 base sz where u: "(base, sz) \<in> set (bi_regions bi)" "base \<le> u0" "u0 < u1" "u1 \<le> base + sz"
    "PGSIZE dvd u0" "PGSIZE dvd u1" "clear_of (must_avoid bi) u0 u1" "s = u0 + ?w" "t = u1 + ?w"
    by (rule select_interval_good [OF assms(2) R parts(2)])
  have m: "base + sz \<le> 2 ^ 47" "sz \<le> 2 ^ 42" using assms(2) u(1) by (auto simp: boot_ok_def regions_small_def)
  have top: "t < 2 ^ 64 - 2 ^ 33" "s < 2 ^ 64 - 2 ^ 33" using u(3,4,8,9) m(1) window_facts(2) [of "bi_arch bi"] by (auto simp: PHYSBASE_def)
  have al: "PGSIZE dvd s" "PGSIZE dvd t" using u(5,6,8,9) window_facts(1) by simp_all
  have st: "pg_up s = s" "pg_down t = t" using pg_up_aligned [OF al(1)] pg_down_aligned [OF al(2)] top by (simp_all add: PGSIZE_def)
  define n where "n = heap_region_bytes (t - s)"
  have n: "n \<le> t - s" "s \<le> t" using heap_region_bytes_le u(3,8,9) by (simp_all add: n_def)
  then have eq: "hs = pg_down (t - n)" using parts(3) st by (simp add: u64_sub_def n_def)
  have hs: "s \<le> hs" "hs \<le> t" "PGSIZE dvd hs"
    unfolding eq using pg_down_greatest [OF al(1), of "t - n"] pg_down_le [of "t - n"] n by simp_all
  have "hs \<le> s + 2 ^ 30 * PGSIZE" using hs(2) u(2-4,8,9) m(2) by (simp add: PGSIZE_def)
  then have L: "pmm_layout_ok s hs L" "managed_pages L \<le> 2 ^ 30"
    using calculate_pmm_layout_ok [of s hs L] parts(4) st top by simp_all
  have H: "heap_layout_ok (t - hs) H"
    using calculate_heap_layout_ok [OF parts(5,6)] st hs(2) top by (simp add: u64_sub_def)
  have win: "bi_arch bi = LOONGARCH \<longrightarrow> PHYSBASE \<le> s" using u(8) by (simp add: window_def)
  have fresh: "pmm_inv p \<and> pmm_free p = {0..<pmm_pages p} \<and> pmm_blocks p = {} \<and> 0 < pmm_pages p"
    by (rule fresh_pmm [OF L hs(3) _ b p win]) (use hs(2) top in simp)
  have a: "heap_metadata_bytes H + allocator_bytes H + shm_bytes H \<le> t - hs" using H by (simp add: heap_layout_ok_def)
  then have sums: "heap_area_size l = heap_metadata_bytes H + allocator_bytes H + shm_bytes H"
    "shm_start l = hs + heap_metadata_bytes H + allocator_bytes H"
    using l(5,6) hs(2) top by (simp_all add: u64_add_def)
  have pa: "s \<le> pa_start p" "pa_start p + pmm_pages p * PGSIZE \<le> hs" using L(1) p by (auto simp: pmm_layout_ok_def)
  have lo: "u0 \<le> pa_start p - ?w" "phys_top l - ?w = u1" using pa(1) u(8,9) l(1) st by simp_all
  then have "clear_of (must_avoid bi) (pa_start p - ?w) (phys_top l - ?w)"
    using u(7) unfolding clear_of_def by fastforce
  moreover have "base + ?w \<le> pa_start p" "phys_top l \<le> base + sz + ?w" using pa(1) u(2,4,8,9) l(1) st by simp_all
  ultimately show ?thesis using fresh pa(2) l(1-4) st sums a hs(2) u(1) by (auto simp: add.assoc)
qed


text \<open>A board with 128 MiB of RAM at \<open>0x80000000\<close>: the firmware at the start of RAM, the kernel image two
  megabytes above it and the device tree near the end.\<close>

definition demo_boot :: BootInfo where
  "demo_boot = \<lparr>bi_arch = RISCV, bi_kernel_start = 0x80200000, bi_kernel_end = 0x80812345, bi_initrd = (0, 0),
     bi_dtb_initrd = (0, 0), bi_dtb_addr = 0x87e00000, bi_dtb_size = 0x1234, bi_reserved = [(0x80000000, 0x40000)],
     bi_regions = [(0x80000000, 0x8000000)], bi_managed_top = k_unlimited_physical_top\<rparr>"

lemma demo_boot_reserved:
  "collect_reserved demo_boot = Some [(0x80200000, 0x80813000), (0x87e00000, 0x87e01234), (0x80000000, 0x80040000)]"
  by (simp add: collect_reserved_def demo_boot_def physical_address_def boot_initrd_def checked_region_top_def
      k_max_reserved_ranges_def pg_up_def pg_down_def u64_add_def PGSIZE_def)

lemma demo_boot_interval:
  "select_interval demo_boot [(0x80200000, 0x80813000), (0x87e00000, 0x87e01234), (0x80000000, 0x80040000)] =
     Some (0x80813000, 0x87e00000, 0x88000000)"
  by (simp add: select_interval_def demo_boot_def physical_address_def managed_regions_def checked_region_top_def
      contains_kernel_def largest_usable_interval_def sort_ranges_def sort_exchange_def consider_gap_def bytes_def no_interval_def
      k_max_reserved_ranges_def pg_up_def pg_down_def u64_add_def PGSIZE_def upt_rec Let_def)

lemma demo_tree_bytes: "required_tree_bytes 20126 = 65535" "required_tree_bytes 20100 = 65535"
  "required_tree_bytes 6709 = 16383" "required_tree_bytes 6704 = 16383"
  by (simp_all add: required_tree_bytes_def capacity_pages_for_def NextPowerOfTwo_def)

lemma demo_tree_bytes_nat: "unat (required_tree_bytes (of_nat 20126)) = 65535" "unat (required_tree_bytes (of_nat 20100)) = 65535"
  "unat sizeof_BuddySystem = 40"
  by (simp_all add: demo_tree_bytes sizeof_BuddySystem_def)

lemma demo_layout_for:
  "metadata_end (pmm_layout_for 0x80813000 20126) = 0x8082d000"
  "refcount_bytes (pmm_layout_for 0x80813000 20126) = 40252" "refcount_start (pmm_layout_for 0x80813000 20126) = 0x80823028"
  "pmm_layout_for 0x80813000 20100 = \<lparr>metadata_start = 0x80813000, metadata_end = 0x8082d000,
     tree_start = 0x80813028, tree_bytes = 65535, refcount_start = 0x80823028, refcount_bytes = 40200,
     managed_start = 0, managed_pages = 0\<rparr>"
  using pmm_layout_for_eq [where start = "0x80813000", OF _ _ _ demo_tree_bytes_nat(1)] pmm_layout_for_eq [where start = "0x80813000", OF _ _ _ demo_tree_bytes_nat(2)]
  by (simp_all add: PGSIZE_def)

lemma sixteen_rounds: "(16::nat) = Suc (Suc 14)"
  by simp

lemma demo_boot_layout:
  "calculate_pmm_layout 0x80813000 0x856b1000 = Some \<lparr>metadata_start = 0x80813000, metadata_end = 0x8082d000,
     tree_start = 0x80813028, tree_bytes = 65535, refcount_start = 0x80823028, refcount_bytes = 40200,
     managed_start = 0x8082d000, managed_pages = 20100\<rparr>"
proof -
  have "pmm_layout_loop 16 0x80813000 0x856b1000 20126 = Some \<lparr>metadata_start = 0x80813000, metadata_end = 0x8082d000,
     tree_start = 0x80813028, tree_bytes = 65535, refcount_start = 0x80823028, refcount_bytes = 40200,
     managed_start = 0x8082d000, managed_pages = 20100\<rparr>"
    unfolding sixteen_rounds pmm_layout_loop.simps Let_def demo_layout_for by (simp add: PGSIZE_def demo_layout_for)
  then show ?thesis by (simp add: calculate_pmm_layout_def u64_add_def u64_sub_def PGSIZE_def)
qed

lemma demo_storage_bytes: "storage_bytes 6709 = 20480" "storage_bytes 6704 = 20480"
  by (simp_all add: storage_bytes_def required_storage_bytes_def sizeof_BuddySystem_def demo_tree_bytes pg_up_def u64_add_def PGSIZE_def)

lemma demo_boot_heap:
  "calculate_heap_layout 41218048 = Some \<lparr>heap_metadata_bytes = 20480, allocator_bytes = 27459584, shm_bytes = 13737984,
     allocator_pages = 6704\<rparr>"
proof -
  have "heap_layout_loop 16 41218048 27480064 6709 = Some \<lparr>heap_metadata_bytes = 20480, allocator_bytes = 27459584, shm_bytes = 13737984,
     allocator_pages = 6704\<rparr>"
    unfolding sixteen_rounds heap_layout_loop.simps Let_def demo_storage_bytes
    by (simp add: demo_storage_bytes vm_kernel_heap_size_def SHM_SIZE_def pg_down_def u64_sub_def u64_mul_def PGSIZE_def)
  then show ?thesis
    by (simp add: calculate_heap_layout_def vm_kernel_heap_size_def SHM_SIZE_def pg_down_def PGSIZE_def)
qed

lemma demo_boot_init: "\<exists>p l. pmm_init demo_boot mem = Some (p, l)"
proof -
  have "\<exists>b. Initialize 0x8082d000 20100 (Some (replicate 65535 NODE_UNUSED)) 65535 = Some b"
    using Initialize_fresh [of 20100 65535 "replicate 65535 NODE_UNUSED", where baseptr = "0x8082d000"] demo_tree_bytes(2) by auto
  moreover have "pg_up 0x80813000 = 0x80813000" "pg_down 0x87e00000 = 0x87e00000"
    "u64_sub 0x87e00000 (heap_region_bytes 0x75ed000) = 0x856b1000" "pg_down 0x856b1000 = 0x856b1000"
    by (simp_all add: pg_up_def pg_down_def u64_add_def u64_sub_def PGSIZE_def heap_region_bytes_def storage_bytes_values
        vm_kernel_heap_size_def SHM_SIZE_def Let_def)
  ultimately show ?thesis
    by (auto simp: pmm_init_def demo_boot_reserved demo_boot_interval demo_boot_layout demo_boot_heap u64_add_def u64_sub_def PGSIZE_def Let_def)
qed

lemma demo_boot_ok: "boot_ok demo_boot"
proof -
  have "set [(0x80200000, 0x80813000), (0x87e00000, 0x87e01234), (0x80000000, 0x80040000)] = must_avoid demo_boot"
    using collect_reserved_set [OF demo_boot_reserved] by (simp add: demo_boot_def)
  then have "ends_small (must_avoid demo_boot)" by (simp add: ends_small_def PGSIZE_def flip: \<open>set _ = must_avoid demo_boot\<close>)
  then show ?thesis by (simp add: boot_ok_def regions_small_def demo_boot_def)
qed

theorem pmm_init_correct_witness:
  "\<exists>p l. pmm_init demo_boot (\<lambda>_. 0) = Some (p, l) \<and> pmm_inv p \<and> pa_start p + pmm_pages p * PGSIZE \<le> heap_area_start l \<and>
     clear_of (must_avoid demo_boot) (pa_start p - window (bi_arch demo_boot)) (phys_top l - window (bi_arch demo_boot))"
proof -
  obtain p l where "pmm_init demo_boot (\<lambda>_. 0) = Some (p, l)" using demo_boot_init by blast
  with pmm_init_correct [OF this demo_boot_ok] show ?thesis by blast
qed


text \<open>C13. \<open>largest_usable_interval\<close> returns a page-aligned part of the region that meets no reserved range,
  and no page-aligned part of the region that meets none is longer.\<close>

theorem largest_usable_interval_correct:
  assumes "length rs \<le> k_max_reserved_ranges" "ends_small (set rs)" "raw_start + PGSIZE \<le> 2 ^ 64"
  shows "\<exists>u. largest_usable_interval raw_start raw_top rs (length rs) = Some u \<and>
    (bytes u = 0 \<or> PGSIZE dvd ui_start u \<and> PGSIZE dvd ui_top u \<and> raw_start \<le> ui_start u \<and> ui_top u \<le> raw_top \<and>
       clear_of (set rs) (ui_start u) (ui_top u)) \<and>
    (\<forall>a b. PGSIZE dvd a \<and> PGSIZE dvd b \<and> raw_start \<le> a \<and> b \<le> raw_top \<and> clear_of (set rs) a b \<longrightarrow> b - a \<le> bytes u)"
proof -
  have "e + PGSIZE \<le> 2 ^ 64" if "(s, e) \<in> set rs" for s e using that assms(2) by (auto simp: ends_small_def)
  then obtain u where u: "largest_usable_interval raw_start raw_top rs (length rs) = Some u"
    "ok_interval (set rs) (pg_up raw_start) (pg_down raw_top) u"
    "\<And>a b. usable (set rs) (pg_up raw_start) (pg_down raw_top) a b \<Longrightarrow> b - a \<le> bytes u"
    using largest_usable_interval_outcome [OF assms(1)] by (metis (no_types))
  have "b - a \<le> bytes u" if "PGSIZE dvd a" "PGSIZE dvd b" "raw_start \<le> a" "b \<le> raw_top" "clear_of (set rs) a b" for a b
    by (rule u(3)) (use that pg_up_least pg_down_greatest in \<open>auto simp: usable_def\<close>)
  moreover have "bytes u = 0 \<or> PGSIZE dvd ui_start u \<and> PGSIZE dvd ui_top u \<and> raw_start \<le> ui_start u \<and> ui_top u \<le> raw_top \<and>
       clear_of (set rs) (ui_start u) (ui_top u)"
    using u(2) pg_up_ge [OF assms(3)] pg_down_le [of raw_top] unfolding ok_interval_def usable_def by linarith
  ultimately show ?thesis using u(1) by blast
qed

theorem largest_usable_interval_correct_witness:
  "\<exists>u. largest_usable_interval 0x1800 0x9000 [(0x6010, 0x6020), (0x3000, 0x3001)] 2 = Some u \<and>
    (bytes u = 0 \<or> PGSIZE dvd ui_start u \<and> PGSIZE dvd ui_top u \<and> 0x1800 \<le> ui_start u \<and> ui_top u \<le> 0x9000 \<and>
       clear_of {(0x6010, 0x6020), (0x3000, 0x3001)} (ui_start u) (ui_top u))"
proof -
  let ?rs = "[(0x6010, 0x6020), (0x3000, 0x3001)] :: ReservedRange list"
  have rs: "length ?rs = 2" "length ?rs \<le> k_max_reserved_ranges" "ends_small (set ?rs)" "0x1800 + PGSIZE \<le> 2 ^ 64"
    by (simp_all add: k_max_reserved_ranges_def ends_small_def PGSIZE_def)
  from largest_usable_interval_correct [OF rs(2-4), of "0x9000", unfolded rs(1)] show ?thesis
    unfolding list.set by blast
qed

text \<open>Whenever \<open>calculate_pmm_layout\<close> returns, the allocator object, its tree, the counts and the
  managed pages follow each other inside the region without overlap, the tree has exactly the bytes
  \<open>Initialize\<close> asks for, there is one 16-bit count per page, and no further page would fit.\<close>

theorem calculate_pmm_layout_correct:
  assumes "calculate_pmm_layout start limit = Some L" "start + 2 ^ 33 \<le> 2 ^ 64" "limit \<le> start + 2 ^ 30 * PGSIZE"
  shows "metadata_start L = start \<and> start + 40 \<le> tree_start L \<and> tree_start L + tree_bytes L \<le> refcount_start L \<and>
    tree_bytes L = unat (required_tree_bytes (of_nat (managed_pages L))) \<and> refcount_bytes L = 2 * managed_pages L \<and>
    refcount_start L + refcount_bytes L \<le> managed_start L \<and> PGSIZE dvd managed_start L \<and>
    managed_start L + managed_pages L * PGSIZE \<le> limit \<and> limit < managed_start L + Suc (managed_pages L) * PGSIZE"
  using calculate_pmm_layout_ok [OF assms] by (auto simp: pmm_layout_ok_def)

theorem calculate_pmm_layout_correct_witness:
  "\<exists>L. calculate_pmm_layout 0x80813000 0x856b1000 = Some L \<and> managed_start L + managed_pages L * PGSIZE \<le> 0x856b1000"
  using calculate_pmm_layout_correct [OF demo_boot_layout] demo_boot_layout by (simp add: PGSIZE_def)

text \<open>C14. The iteration of \<open>calculate_pmm_layout\<close> need not settle: on every page-aligned region of 65610
  pages the page counts 65513 and 65546 lead to each other and the boot panics, although the metadata
  for 65513 pages and these pages fit the region.\<close>

theorem calculate_pmm_layout_oscillates:
  assumes "PGSIZE dvd start" "start + 2 ^ 33 \<le> 2 ^ 64"
  shows "calculate_pmm_layout start (start + 65610 * PGSIZE) = None \<and>
    metadata_end (pmm_layout_for start 65513) + 65513 * PGSIZE \<le> start + 65610 * PGSIZE"
proof -
  let ?limit = "start + 65610 * PGSIZE"
  have me: "metadata_end (pmm_layout_for start 65610) = start + 97 * 4096"
    "metadata_end (pmm_layout_for start 65513) = start + 64 * 4096"
    "metadata_end (pmm_layout_for start 65546) = start + 97 * 4096"
    using pmm_layout_for_eq [OF assms _ tree_bytes_values(1)] pmm_layout_for_eq [OF assms _ tree_bytes_values(3)]
      pmm_layout_for_eq [OF assms _ tree_bytes_values(2)] by simp_all
  have "pmm_layout_loop 15 start ?limit 65513 = None"
    by (rule conjunct1 [OF pmm_layout_two_cycle [of _ _ _ 65546]]) (simp_all add: me PGSIZE_def)
  moreover have "(16::nat) = Suc 15" by simp
  ultimately have "pmm_layout_loop 16 start ?limit 65610 = None"
    by (simp only: pmm_layout_loop.simps Let_def me) (simp add: PGSIZE_def)
  then show ?thesis using me assms(2) by (simp add: calculate_pmm_layout_def u64_add_def u64_sub_def PGSIZE_def)
qed

theorem calculate_pmm_layout_oscillates_witness:
  "calculate_pmm_layout 0x80400000 (0x80400000 + 65610 * PGSIZE) = None"
  using calculate_pmm_layout_oscillates [of "0x80400000"] by (simp add: PGSIZE_def)

end
