(* ===== verification/Pipe.thy ===== *)
theory Pipe
  imports Prelude
begin

text \<open>
  The pipes of \<open>src/kernel/proc/pipe.cc\<close> and \<open>pipe.hh\<close> (class \<open>Pipe\<close>): a ring
  buffer with a read and a write end, the bookkeeping of sleeping readers and writers, and the
  operations of the two ends.

  An operation runs with \<open>_lock\<close> held, except in the windows in which it sleeps
  (\<open>k_pm.sleep\<close>) or releases the lock to fault in user pages. What other threads do to the
  pipe in such a window, and whether the current task was killed or has an unmasked signal pending
  when it holds the lock again, is an element of a list of windows that the operation consumes; an
  operation that needs a window when the list is used up is suspended there. The calls into the
  process manager and the scheduler (wake-ups, signals, yielding) are recorded as events, in order,
  as are the bytes copied into the ring (\<open>Stored\<close>) and out of it to an address (\<open>Copied_out\<close>).
  The killed and pending flags are read once per critical section.
\<close>

section \<open>State\<close>

text \<open>Constants of \<open>pipe.hh\<close>, \<open>syscall_defs.hh\<close> and \<open>signal.hh\<close>.\<close>

definition default_pipe_size :: nat where "default_pipe_size = 4096"
definition privileged_default_pipe_size :: nat where "privileged_default_pipe_size = 65536"
definition min_pipe_size :: nat where "min_pipe_size = 256"
definition max_pipe_size :: nat where "max_pipe_size = 65536"
definition pipe_epollet_write_threshold :: nat where "pipe_epollet_write_threshold = 4096"
definition k_pipe_async_flag :: u32 where "k_pipe_async_flag = 0x2000"
definition SYS_EINTR :: int where "SYS_EINTR = -4"
definition SYS_EAGAIN :: int where "SYS_EAGAIN = -11"
definition SYS_EFAULT :: int where "SYS_EFAULT = -14"
definition SYS_EPIPE :: int where "SYS_EPIPE = -32"
definition SIGPIPE :: int where "SIGPIPE = 13"
definition SIGPOLL :: int where "SIGPOLL = 29"

definition PIPE_ASYNC_OWNER_NONE :: int where "PIPE_ASYNC_OWNER_NONE = 0"
definition PIPE_ASYNC_OWNER_TID :: int where "PIPE_ASYNC_OWNER_TID = 1"
definition PIPE_ASYNC_OWNER_PID :: int where "PIPE_ASYNC_OWNER_PID = 2"
definition PIPE_ASYNC_OWNER_PGRP :: int where "PIPE_ASYNC_OWNER_PGRP = 3"

text \<open>Tasks (\<open>Pcb *\<close>) are numbers; \<^const>\<open>None\<close> is the null pointer.\<close>

record Pipe =
  p_buffer :: "u8 list"
  p_size :: nat
  p_head :: nat
  p_tail :: nat
  p_count :: nat
  read_is_open :: bool
  write_is_open :: bool
  read_waiter :: "nat option"
  write_waiter :: "nat option"
  read_waiter_count :: nat
  write_waiter_count :: nat
  pipe_flags :: u32
  async_owner_type :: int
  async_owner_id :: int
  async_signal :: int

text \<open>
  The constructor. \<open>new_bytes n\<close> stands for \<open>new uint8[n]\<close>: the block with its unspecified
  contents, or \<^const>\<open>None\<close> for a null pointer; a pipe without a buffer has the empty one, on which
  every access faults.
\<close>

type_synonym new_bytes = "nat \<Rightarrow> u8 list option"

definition Pipe_init :: "new_bytes \<Rightarrow> Pipe" where
  "Pipe_init new_bytes =
     \<lparr>p_buffer = (case new_bytes default_pipe_size of None \<Rightarrow> [] | Some bytes \<Rightarrow> bytes),
      p_size = default_pipe_size, p_head = 0, p_tail = 0, p_count = 0,
      read_is_open = False, write_is_open = False, read_waiter = None, write_waiter = None,
      read_waiter_count = 0, write_waiter_count = 0, pipe_flags = 0,
      async_owner_type = PIPE_ASYNC_OWNER_NONE, async_owner_id = 0, async_signal = 0\<rparr>"

datatype pipe_chan = Read_sleep | Write_sleep

datatype pipe_event =
    Wakeup_one nat pipe_chan
  | Wakeup pipe_chan
  | Tkill int int
  | Kill_signal int int
  | Add_signal nat int
  | Yield
  | Stored "u8 list"
  | Copied_out u64 "u8 list"

text \<open>What happens to the current operation while it does not hold the lock.\<close>

record pipe_window =
  w_pipe :: "Pipe \<Rightarrow> Pipe"
  w_killed :: bool
  w_pending :: bool

text \<open>An operation returns a value, or is suspended without the lock after \<open>i\<close> bytes.\<close>

datatype pipe_result = Returned Pipe "pipe_event list" int | Suspended Pipe "pipe_event list" nat

section \<open>Waiters and notifications\<close>

definition notify_async_reader_locked :: "Pipe \<Rightarrow> pipe_event list" where
  "notify_async_reader_locked p =
     (if pipe_flags p AND k_pipe_async_flag = 0 \<or> async_owner_type p = PIPE_ASYNC_OWNER_NONE then []
      else let signo = (if 0 < async_signal p then async_signal p else SIGPOLL)
           in if async_owner_type p = PIPE_ASYNC_OWNER_TID then [Tkill (async_owner_id p) signo]
              else if async_owner_type p = PIPE_ASYNC_OWNER_PID then [Kill_signal (async_owner_id p) signo]
              else if async_owner_type p = PIPE_ASYNC_OWNER_PGRP then [Kill_signal (- async_owner_id p) signo]
              else [])"

text \<open>\<open>note_waiter_locked\<close> and \<open>forget_waiter_locked\<close> work on the pair (single waiter, count) of
  one end; the two references of the source select the end.\<close>

definition note_waiter :: "nat \<Rightarrow> nat option \<times> nat \<Rightarrow> nat option \<times> nat" where
  "note_waiter w = (\<lambda>(single, n).
     (if n = 0 then Some w else if single \<noteq> Some w then None else single, n + 1))"

definition forget_waiter :: "nat \<Rightarrow> nat option \<times> nat \<Rightarrow> nat option \<times> nat" where
  "forget_waiter w = (\<lambda>(single, n).
     if n = 0 then (None, 0)
     else (if n - 1 = 0 \<or> single = Some w then None else single, n - 1))"

definition note_waiter_locked :: "bool \<Rightarrow> nat \<Rightarrow> Pipe \<Rightarrow> Pipe" where
  "note_waiter_locked waiting_for_read w p =
     (if waiting_for_read
      then let (s, n) = note_waiter w (read_waiter p, read_waiter_count p)
           in p\<lparr>read_waiter := s, read_waiter_count := n\<rparr>
      else let (s, n) = note_waiter w (write_waiter p, write_waiter_count p)
           in p\<lparr>write_waiter := s, write_waiter_count := n\<rparr>)"

definition forget_waiter_locked :: "bool \<Rightarrow> nat \<Rightarrow> Pipe \<Rightarrow> Pipe" where
  "forget_waiter_locked waiting_for_read w p =
     (if waiting_for_read
      then let (s, n) = forget_waiter w (read_waiter p, read_waiter_count p)
           in p\<lparr>read_waiter := s, read_waiter_count := n\<rparr>
      else let (s, n) = forget_waiter w (write_waiter p, write_waiter_count p)
           in p\<lparr>write_waiter := s, write_waiter_count := n\<rparr>)"

definition wake_waiters_locked :: "bool \<Rightarrow> Pipe \<Rightarrow> pipe_event list \<times> bool" where
  "wake_waiters_locked wake_readers p =
     (let chan = (if wake_readers then Read_sleep else Write_sleep);
          single = (if wake_readers then read_waiter p else write_waiter p);
          n = (if wake_readers then read_waiter_count p else write_waiter_count p)
      in if n = 0 then ([], False)
         else if n = 1 \<and> single \<noteq> None then ([Wakeup_one (the single) chan], True)
         else ([Wakeup chan], True))"

section \<open>The ring buffer\<close>

definition is_full :: "Pipe \<Rightarrow> bool" where
  "is_full p \<longleftrightarrow> p_size p \<le> p_count p"

definition is_empty :: "Pipe \<Rightarrow> bool" where
  "is_empty p \<longleftrightarrow> p_count p = 0"

text \<open>\<open>_pipe_size\<close> is a divisor in the index arithmetic: zero is a fault.\<close>

definition ring_mod :: "nat \<Rightarrow> nat \<Rightarrow> nat option" where
  "ring_mod i sz = (if sz = 0 then None else Some (i mod sz))"

definition push :: "u8 \<Rightarrow> Pipe \<Rightarrow> Pipe option" where
  "push data p =
     (if is_full p then Some p
      else do {
        buf \<leftarrow> arr_set (p_buffer p) (p_tail p) data;
        t \<leftarrow> ring_mod (p_tail p + 1) (p_size p);
        Some (p\<lparr>p_buffer := buf, p_tail := t, p_count := p_count p + 1\<rparr>)
      })"

definition pop :: "Pipe \<Rightarrow> (u8 \<times> Pipe) option" where
  "pop p =
     (if is_empty p then Some (0, p)
      else do {
        data \<leftarrow> arr_get (p_buffer p) (p_head p);
        h \<leftarrow> ring_mod (p_head p + 1) (p_size p);
        Some (data, p\<lparr>p_head := h, p_count := p_count p - 1\<rparr>)
      })"

text \<open>The length of the next contiguous piece: what remains, what fits, what is left up to the end
  of the array.\<close>

definition write_chunk :: "Pipe \<Rightarrow> nat \<Rightarrow> nat" where
  "write_chunk p remaining =
     (let writable = u32_sub (p_size p) (p_count p);
          chunk = (if remaining < writable then remaining else writable);
          tail_room = u32_sub (p_size p) (p_tail p)
      in if tail_room < chunk then tail_room else chunk)"

definition read_chunk :: "Pipe \<Rightarrow> nat \<Rightarrow> nat" where
  "read_chunk p remaining =
     (let readable = p_count p;
          chunk = (if remaining < readable then remaining else readable);
          head_room = u32_sub (p_size p) (p_head p)
      in if head_room < chunk then head_room else chunk)"

definition store_chunk :: "u8 list \<Rightarrow> Pipe \<Rightarrow> Pipe option" where
  "store_chunk bytes p = do {
     buf \<leftarrow> blit (p_buffer p) (p_tail p) bytes;
     t \<leftarrow> ring_mod (p_tail p + length bytes) (p_size p);
     Some (p\<lparr>p_buffer := buf, p_tail := t, p_count := p_count p + length bytes\<rparr>)
   }"

definition take_chunk :: "nat \<Rightarrow> Pipe \<Rightarrow> Pipe option" where
  "take_chunk chunk p = do {
     h \<leftarrow> ring_mod (p_head p + chunk) (p_size p);
     Some (p\<lparr>p_head := h, p_count := u32_sub (p_count p) chunk\<rparr>)
   }"

section \<open>The write end\<close>

text \<open>The shared tail of the three writes: wake the readers, notify, hand over the CPU after a short
  message.\<close>

definition write_finish :: "int \<Rightarrow> nat \<Rightarrow> pipe_event list \<Rightarrow> Pipe \<Rightarrow> pipe_result" where
  "write_finish n i evs p =
     (let (wake, woke_reader) = wake_waiters_locked True p;
          should_handoff_reader = (n \<le> 8 \<and> woke_reader);
          evs = evs @ wake @ (if 0 < i then notify_async_reader_locked p else [])
                  @ (if 0 < i \<and> should_handoff_reader then [Yield] else [])
      in Returned p evs (int i))"

text \<open>The exit of a write whose readers are gone or whose task was killed.\<close>

definition write_broken :: "nat \<Rightarrow> bool \<Rightarrow> pipe_event list \<Rightarrow> Pipe \<Rightarrow> pipe_result" where
  "write_broken pr killed evs p =
     (if \<not> read_is_open p \<and> \<not> killed then Returned p (evs @ [Add_signal pr SIGPIPE]) SYS_EPIPE
      else Returned p evs (-1))"

text \<open>\<open>i > 0 ? i : err\<close>\<close>

definition count_or :: "nat \<Rightarrow> int \<Rightarrow> int" where
  "count_or i err = (if 0 < i then int i else err)"

text \<open>\<open>Pipe::write\<close>, byte by byte; \<open>copy_in a n\<close> stands for \<open>k_vmm.copy_in\<close> of \<open>n\<close> bytes
  from user address \<open>a\<close>, with \<^const>\<open>None\<close> for its failure.\<close>

type_synonym copy_in = "u64 \<Rightarrow> nat \<Rightarrow> u8 list option"

function pipe_write_loop ::
  "copy_in \<Rightarrow> u64 \<Rightarrow> int \<Rightarrow> bool \<Rightarrow> nat \<Rightarrow> pipe_window list \<Rightarrow> bool \<Rightarrow> nat \<Rightarrow> pipe_event list \<Rightarrow> Pipe \<Rightarrow>
   pipe_result option" where
  "pipe_write_loop copy_in addr n nonblock pr ws killed i evs p =
     (if \<not> int i < n then Some (write_finish n i evs p)
      else if \<not> read_is_open p \<or> killed then Some (write_broken pr killed evs p)
      else if p_size p \<le> p_count p then
        (if nonblock then Some (Returned p evs (count_or i SYS_EAGAIN))
         else let evs = evs @ fst (wake_waiters_locked True p);
                  p = note_waiter_locked False pr p
              in case ws of
                   [] \<Rightarrow> Some (Suspended p evs i)
                 | w # ws \<Rightarrow>
                     pipe_write_loop copy_in addr n nonblock pr ws (w_killed w) i evs
                       (forget_waiter_locked False pr (w_pipe w p)))
      else case copy_in (addr + of_nat i) 1 of
             None \<Rightarrow> Some (write_finish n i evs p)
           | Some bytes \<Rightarrow> do {
               ch \<leftarrow> arr_get bytes 0;
               p \<leftarrow> push ch p;
               pipe_write_loop copy_in addr n nonblock pr ws killed (i + 1) (evs @ [Stored [ch]]) p
             })"
  by pat_completeness auto
termination
  by (relation "measures [\<lambda>(cin, addr, n, nb, pr, ws, k, i, evs, p). length ws,
        \<lambda>(cin, addr, n, nb, pr, ws, k, i, evs, p). nat n - i]") auto

definition pipe_write ::
  "copy_in \<Rightarrow> u64 \<Rightarrow> int \<Rightarrow> bool \<Rightarrow> nat \<Rightarrow> pipe_window list \<Rightarrow> bool \<Rightarrow> Pipe \<Rightarrow> pipe_result option" where
  "pipe_write copy_in addr n nonblock pr ws killed p = pipe_write_loop copy_in addr n nonblock pr ws killed 0 [] p"

text \<open>\<open>Pipe::write_in_kernel\<close>, in contiguous pieces from kernel memory.\<close>

definition bytes_at :: "(u64 \<Rightarrow> u8) \<Rightarrow> u64 \<Rightarrow> nat \<Rightarrow> u8 list" where
  "bytes_at mem a n = map (\<lambda>j. mem (a + of_nat j)) [0..<n]"

lemma length_bytes_at [simp]: "length (bytes_at mem a n) = n"
  by (simp add: bytes_at_def)

text \<open>Progress of the piecewise loops: an empty piece only happens with the index at (or beyond) the
  end of the array, and moves the index back into it.\<close>

lemma write_chunk_zero: "p_count p < p_size p \<Longrightarrow> 0 < r \<Longrightarrow> write_chunk p r = 0 \<Longrightarrow> p_size p \<le> p_tail p"
  by (auto simp: write_chunk_def u32_sub_def Let_def split: if_splits)

lemma read_chunk_zero: "0 < p_count p \<Longrightarrow> 0 < r \<Longrightarrow> read_chunk p r = 0 \<Longrightarrow> p_size p \<le> p_head p"
  by (auto simp: read_chunk_def u32_sub_def Let_def split: if_splits)

lemma write_chunk_le: "write_chunk p r \<le> r"
  by (auto simp: write_chunk_def Let_def)

lemma read_chunk_le: "read_chunk p r \<le> r"
  by (auto simp: read_chunk_def Let_def)

lemma store_chunk_tail: "store_chunk bytes p = Some p' \<Longrightarrow> p_tail p' < p_size p' \<and> p_size p' = p_size p"
  by (auto simp: store_chunk_def ring_mod_def split: if_splits Option.bind_splits)

lemma take_chunk_head: "take_chunk n p = Some p' \<Longrightarrow> p_head p' < p_size p' \<and> p_size p' = p_size p"
  by (auto simp: take_chunk_def ring_mod_def split: if_splits)

lemma write_chunk_progress:
  assumes "int i < n" "\<not> p_size p \<le> p_count p" "p_tail p < p_size p"
  shows "nat n - (i + write_chunk p (nat n - i)) < nat n - i"
proof -
  have "i < nat n" using assms(1) by linarith
  then show ?thesis using assms write_chunk_zero [of p "nat n - i"] by (cases "write_chunk p (nat n - i) = 0") auto
qed

lemma read_chunk_progress:
  assumes "int i < n" "0 < p_count p" "p_head p < p_size p"
  shows "nat n - (i + read_chunk p (nat n - i)) < nat n - i"
proof -
  have "i < nat n" using assms(1) by linarith
  then show ?thesis using assms read_chunk_zero [of p "nat n - i"] by (cases "read_chunk p (nat n - i) = 0") auto
qed

lemma diff_add_neq_less: "(a::nat) - (b + c) \<noteq> a - b \<Longrightarrow> a - (b + c) < a - b"
  by simp

function write_in_kernel_loop ::
  "(u64 \<Rightarrow> u8) \<Rightarrow> u64 \<Rightarrow> int \<Rightarrow> bool \<Rightarrow> nat \<Rightarrow> pipe_window list \<Rightarrow> bool \<Rightarrow> bool \<Rightarrow> nat \<Rightarrow> pipe_event list \<Rightarrow> Pipe \<Rightarrow>
   pipe_result option" where
  "write_in_kernel_loop mem addr n nonblock pr ws killed pending i evs p =
     (if \<not> int i < n then Some (write_finish n i evs p)
      else if \<not> read_is_open p \<or> killed then Some (write_broken pr killed evs p)
      else if p_size p \<le> p_count p then
        (if pending then Some (Returned p evs (count_or i SYS_EINTR))
         else if nonblock then Some (Returned p evs (count_or i SYS_EAGAIN))
         else let evs = evs @ fst (wake_waiters_locked True p);
                  p = note_waiter_locked False pr p
              in case ws of
                   [] \<Rightarrow> Some (Suspended p evs i)
                 | w # ws \<Rightarrow>
                     write_in_kernel_loop mem addr n nonblock pr ws (w_killed w) (w_pending w) i evs
                       (forget_waiter_locked False pr (w_pipe w p)))
      else let chunk = write_chunk p (nat n - i);
               bytes = bytes_at mem (addr + of_nat i) chunk
           in do {
             p \<leftarrow> store_chunk bytes p;
             write_in_kernel_loop mem addr n nonblock pr ws killed pending (i + chunk) (evs @ [Stored bytes]) p
           })"
  by pat_completeness auto
termination
  by (relation "measures [\<lambda>(mem, addr, n, nb, pr, ws, k, s, i, evs, p). length ws,
        \<lambda>(mem, addr, n, nb, pr, ws, k, s, i, evs, p). nat n - i,
        \<lambda>(mem, addr, n, nb, pr, ws, k, s, i, evs, p). if p_tail p < p_size p then 0 else 1]")
     (auto dest: store_chunk_tail intro: write_chunk_progress diff_add_neq_less)

definition write_in_kernel ::
  "(u64 \<Rightarrow> u8) \<Rightarrow> u64 \<Rightarrow> int \<Rightarrow> bool \<Rightarrow> nat \<Rightarrow> pipe_window list \<Rightarrow> bool \<Rightarrow> bool \<Rightarrow> Pipe \<Rightarrow> pipe_result option" where
  "write_in_kernel mem addr n nonblock pr ws killed pending p =
     write_in_kernel_loop mem addr n nonblock pr ws killed pending 0 [] p"

text \<open>\<open>Pipe::write_from_user\<close>: the lock is released while the user pages are faulted in
  (\<open>ensure_user_read_range\<close>), then the pieces are computed again.\<close>

function write_from_user_loop ::
  "(u64 \<Rightarrow> nat \<Rightarrow> bool) \<Rightarrow> copy_in \<Rightarrow> u64 \<Rightarrow> int \<Rightarrow> bool \<Rightarrow> nat \<Rightarrow> pipe_window list \<Rightarrow> bool \<Rightarrow> bool \<Rightarrow> nat \<Rightarrow>
   pipe_event list \<Rightarrow> Pipe \<Rightarrow> pipe_result option" where
  "write_from_user_loop ensure copy_in addr n nonblock pr ws killed pending i evs p =
     (if \<not> int i < n then Some (write_finish n i evs p)
      else if \<not> read_is_open p \<or> killed then Some (write_broken pr killed evs p)
      else if p_size p \<le> p_count p then
        (if pending then Some (Returned p evs (count_or i SYS_EINTR))
         else if nonblock then Some (Returned p evs (count_or i SYS_EAGAIN))
         else let evs = evs @ fst (wake_waiters_locked True p);
                  p = note_waiter_locked False pr p
              in case ws of
                   [] \<Rightarrow> Some (Suspended p evs i)
                 | w # ws \<Rightarrow>
                     write_from_user_loop ensure copy_in addr n nonblock pr ws (w_killed w) (w_pending w) i evs
                       (forget_waiter_locked False pr (w_pipe w p)))
      else let chunk = write_chunk p (nat n - i)
           in case ws of
                [] \<Rightarrow> Some (Suspended p evs i)
              | w # ws \<Rightarrow>
                  let p = w_pipe w p
                  in if \<not> ensure (addr + of_nat i) chunk then
                       (if 0 < i
                        then Some (Returned p (evs @ fst (wake_waiters_locked True p) @ notify_async_reader_locked p) (int i))
                        else Some (Returned p evs SYS_EFAULT))
                     else if \<not> read_is_open p \<or> w_killed w \<or> p_size p \<le> p_count p then
                       write_from_user_loop ensure copy_in addr n nonblock pr ws (w_killed w) (w_pending w) i evs p
                     else let chunk = write_chunk p (nat n - i)
                          in case copy_in (addr + of_nat i) chunk of
                               None \<Rightarrow> Some (Returned p evs (count_or i SYS_EFAULT))
                             | Some bytes \<Rightarrow> do {
                                 p \<leftarrow> store_chunk bytes p;
                                 write_from_user_loop ensure copy_in addr n nonblock pr ws (w_killed w) (w_pending w)
                                   (i + chunk) (evs @ [Stored bytes]) p
                               })"
  by pat_completeness auto
termination
  by (relation "measure (\<lambda>(ens, cin, addr, n, nb, pr, ws, k, s, i, evs, p). length ws)") auto

definition write_from_user ::
  "(u64 \<Rightarrow> nat \<Rightarrow> bool) \<Rightarrow> copy_in \<Rightarrow> u64 \<Rightarrow> int \<Rightarrow> bool \<Rightarrow> nat \<Rightarrow> pipe_window list \<Rightarrow> bool \<Rightarrow> bool \<Rightarrow> Pipe \<Rightarrow>
   pipe_result option" where
  "write_from_user ensure copy_in addr n nonblock pr ws killed pending p =
     write_from_user_loop ensure copy_in addr n nonblock pr ws killed pending 0 [] p"

section \<open>The read end\<close>

text \<open>The wait of the two reads for the first byte: the loop ends with a result, or with the lock
  held and data or an end of file there.\<close>

fun read_wait ::
  "bool \<Rightarrow> nat \<Rightarrow> pipe_window list \<Rightarrow> bool \<Rightarrow> bool \<Rightarrow> Pipe \<Rightarrow>
   pipe_result + (pipe_window list \<times> bool \<times> bool \<times> Pipe)" where
  "read_wait nonblock pr ws killed pending p =
     (if p_count p = 0 \<and> write_is_open p then
        (if killed then Inl (Returned p [] (-1))
         else if nonblock then Inl (Returned p [] SYS_EAGAIN)
         else if pending then Inl (Returned p [] SYS_EINTR)
         else let p = note_waiter_locked True pr p
              in case ws of
                   [] \<Rightarrow> Inl (Suspended p [] 0)
                 | w # ws \<Rightarrow> read_wait nonblock pr ws (w_killed w) (w_pending w)
                     (forget_waiter_locked True pr (w_pipe w p)))
      else Inr (ws, killed, pending, p))"

text \<open>The copy loop of \<open>Pipe::read\<close>, into a kernel buffer.\<close>

function read_copy :: "u64 \<Rightarrow> int \<Rightarrow> nat \<Rightarrow> pipe_event list \<Rightarrow> Pipe \<Rightarrow> (nat \<times> pipe_event list \<times> Pipe) option" where
  "read_copy addr n i evs p =
     (if int i < n \<and> 0 < p_count p then
        let chunk = read_chunk p (nat n - i)
        in do {
          bytes \<leftarrow> slice (p_buffer p) (p_head p) chunk;
          p \<leftarrow> take_chunk chunk p;
          read_copy addr n (i + chunk) (evs @ [Copied_out (addr + of_nat i) bytes]) p
        }
      else Some (i, evs, p))"
  by pat_completeness auto
termination
  by (relation "measures [\<lambda>(addr, n, i, evs, p). nat n - i, \<lambda>(addr, n, i, evs, p). if p_head p < p_size p then 0 else 1]")
     (auto dest: take_chunk_head intro: read_chunk_progress diff_add_neq_less)

definition pipe_read ::
  "u64 \<Rightarrow> int \<Rightarrow> bool \<Rightarrow> nat \<Rightarrow> pipe_window list \<Rightarrow> bool \<Rightarrow> bool \<Rightarrow> Pipe \<Rightarrow> pipe_result option" where
  "pipe_read addr n nonblock pr ws killed pending p =
     (case read_wait nonblock pr ws killed pending p of
        Inl r \<Rightarrow> Some r
      | Inr (ws, killed, pending, p) \<Rightarrow> do {
          (i, evs, p) \<leftarrow> read_copy addr n 0 [] p;
          Some (Returned p (evs @ fst (wake_waiters_locked False p)) (int i))
        })"

text \<open>\<open>Pipe::read_to_user\<close>: \<open>ensure\<close> stands for \<open>ensure_user_write_range\<close>, called
  without the lock, and \<open>copy_out a bytes\<close> for the success of \<open>k_vmm.copy_out\<close>.\<close>

function read_to_user_loop ::
  "(u64 \<Rightarrow> nat \<Rightarrow> bool) \<Rightarrow> (u64 \<Rightarrow> u8 list \<Rightarrow> bool) \<Rightarrow> u64 \<Rightarrow> int \<Rightarrow> bool \<Rightarrow> nat \<Rightarrow> pipe_window list \<Rightarrow> bool \<Rightarrow> bool \<Rightarrow> nat \<Rightarrow>
   pipe_event list \<Rightarrow> Pipe \<Rightarrow> pipe_result option" where
  "read_to_user_loop ensure copy_out addr n nonblock pr ws killed pending i evs p =
     (let finish = Some (Returned p (evs @ fst (wake_waiters_locked False p)) (int i))
      in if \<not> int i < n then finish
         else if p_count p = 0 \<and> write_is_open p \<and> i = 0 then
           (if killed then Some (Returned p evs (-1))
            else if nonblock then Some (Returned p evs SYS_EAGAIN)
            else if pending then Some (Returned p evs SYS_EINTR)
            else let p = note_waiter_locked True pr p
                 in case ws of
                      [] \<Rightarrow> Some (Suspended p evs i)
                    | w # ws \<Rightarrow>
                        read_to_user_loop ensure copy_out addr n nonblock pr ws (w_killed w) (w_pending w) i evs
                          (forget_waiter_locked True pr (w_pipe w p)))
         else if p_count p = 0 then finish
         else let chunk = read_chunk p (nat n - i)
              in case ws of
                   [] \<Rightarrow> Some (Suspended p evs i)
                 | w # ws \<Rightarrow>
                     let p = w_pipe w p
                     in if \<not> ensure (addr + of_nat i) chunk then Some (Returned p evs (count_or i SYS_EFAULT))
                        else if p_count p = 0 then
                          read_to_user_loop ensure copy_out addr n nonblock pr ws (w_killed w) (w_pending w) i evs p
                        else let chunk = read_chunk p (nat n - i)
                             in do {
                               bytes \<leftarrow> slice (p_buffer p) (p_head p) chunk;
                               if \<not> copy_out (addr + of_nat i) bytes
                               then Some (Returned p evs (count_or i SYS_EFAULT))
                               else do {
                                 p \<leftarrow> take_chunk chunk p;
                                 read_to_user_loop ensure copy_out addr n nonblock pr ws (w_killed w) (w_pending w)
                                   (i + chunk) (evs @ [Copied_out (addr + of_nat i) bytes]) p
                               }
                             })"
  by pat_completeness auto
termination
  by (relation "measure (\<lambda>(ens, cout, addr, n, nb, pr, ws, k, s, i, evs, p). length ws)") auto

definition read_to_user ::
  "(u64 \<Rightarrow> nat \<Rightarrow> bool) \<Rightarrow> (u64 \<Rightarrow> u8 list \<Rightarrow> bool) \<Rightarrow> u64 \<Rightarrow> int \<Rightarrow> bool \<Rightarrow> nat \<Rightarrow> pipe_window list \<Rightarrow> bool \<Rightarrow> bool \<Rightarrow> Pipe \<Rightarrow>
   pipe_result option" where
  "read_to_user ensure copy_out addr n nonblock pr ws killed pending p =
     (case read_wait nonblock pr ws killed pending p of
        Inl r \<Rightarrow> Some r
      | Inr (ws, killed, pending, p) \<Rightarrow> read_to_user_loop ensure copy_out addr n nonblock pr ws killed pending 0 [] p)"

section \<open>Life cycle, readiness and resizing\<close>

text \<open>\<open>Pipe::alloc\<close>: \<open>euid\<close> is the effective user of the current task (\<^const>\<open>None\<close> without
  one); the result carries the modes and directions of the two files.\<close>

definition pipe_alloc :: "new_bytes \<Rightarrow> int option \<Rightarrow> Pipe \<Rightarrow> Pipe \<times> (nat \<times> bool) \<times> (nat \<times> bool) \<times> int" where
  "pipe_alloc new_bytes euid p =
     (let p = (if euid = Some 0 \<and> p_size p < privileged_default_pipe_size
               then case new_bytes privileged_default_pipe_size of
                      None \<Rightarrow> p
                    | Some new_buffer \<Rightarrow> p\<lparr>p_buffer := new_buffer, p_size := privileged_default_pipe_size\<rparr>
               else p);
          p = p\<lparr>read_is_open := True, write_is_open := True, p_head := 0, p_tail := 0, p_count := 0\<rparr>
      in (p, (505, False), (506, True), 0))"

definition can_read_without_blocking :: "Pipe \<Rightarrow> bool" where
  "can_read_without_blocking p \<longleftrightarrow> 0 < p_count p \<or> \<not> write_is_open p"

definition can_write_without_blocking :: "Pipe \<Rightarrow> bool" where
  "can_write_without_blocking p \<longleftrightarrow> \<not> read_is_open p \<or> p_count p < p_size p"

definition can_write_for_epollet :: "Pipe \<Rightarrow> bool" where
  "can_write_for_epollet p \<longleftrightarrow>
     (let free_space = u32_sub (p_size p) (p_count p);
          writable_threshold = (if p_size p < pipe_epollet_write_threshold then p_size p else pipe_epollet_write_threshold)
      in \<not> read_is_open p \<or> writable_threshold \<le> free_space)"

text \<open>\<open>Pipe::close\<close>: \<^const>\<open>None\<close> is the pipe deleted, after its second end was closed.\<close>

definition pipe_close :: "bool \<Rightarrow> Pipe \<Rightarrow> Pipe option \<times> pipe_event list" where
  "pipe_close is_write p =
     (let p = (if is_write then p\<lparr>write_is_open := False\<rparr> else p\<lparr>read_is_open := False\<rparr>);
          evs = fst (wake_waiters_locked is_write p)
      in (if \<not> read_is_open p \<and> \<not> write_is_open p then None else Some p, evs))"

text \<open>The copy loop of \<open>set_pipe_size\<close>: the state is the new buffer and \<open>temp_head\<close>.\<close>

definition resize_step :: "u8 list \<Rightarrow> nat \<Rightarrow> nat \<Rightarrow> u8 list \<times> nat \<Rightarrow> (u8 list \<times> nat) option" where
  "resize_step buf sz copied = (\<lambda>(new_buffer, temp_head). do {
     b \<leftarrow> arr_get buf temp_head;
     new_buffer \<leftarrow> arr_set new_buffer copied b;
     temp_head \<leftarrow> ring_mod (temp_head + 1) sz;
     Some (new_buffer, temp_head)
   })"

definition set_pipe_size :: "new_bytes \<Rightarrow> nat \<Rightarrow> Pipe \<Rightarrow> (Pipe \<times> int) option" where
  "set_pipe_size new_bytes new_size p =
     (if new_size < min_pipe_size \<or> max_pipe_size < new_size then Some (p, -1)
      else if new_size < p_count p then Some (p, -1)
      else case new_bytes new_size of
             None \<Rightarrow> Some (p, -1)
           | Some new_buffer \<Rightarrow> do {
               (new_buffer, tail) \<leftarrow>
                 (if 0 < p_count p then do {
                    (new_buffer, _) \<leftarrow> for_each (resize_step (p_buffer p) (p_size p)) [0..<p_count p] (new_buffer, p_head p);
                    Some (new_buffer, p_count p)
                  }
                  else Some (new_buffer, 0));
               Some (p\<lparr>p_head := 0, p_tail := tail, p_buffer := new_buffer, p_size := new_size\<rparr>, int new_size)
             })"

declare pipe_write_loop.simps [simp del]
declare write_in_kernel_loop.simps [simp del]
declare write_from_user_loop.simps [simp del]
declare read_wait.simps [simp del]
declare read_copy.simps [simp del]
declare read_to_user_loop.simps [simp del]

end
