(* ===== verification/Pipe_Correct.thy ===== *)
theory Pipe_Correct
  imports Pipe
begin

text \<open>
  The ring buffer of a pipe as a queue of bytes: the invariant of the indices, the byte sequence a
  pipe holds, and what each step of the operations does to it.
\<close>

section \<open>Invariant and contents\<close>

text \<open>\<open>_tail\<close> may be one past the end (\<open>set_pipe_size\<close> leaves it there when the data just
  fits), where it stands for index 0.\<close>

definition pipe_inv :: "Pipe \<Rightarrow> bool" where
  "pipe_inv p \<longleftrightarrow>
     length (p_buffer p) = p_size p \<and> 0 < p_size p \<and> p_size p < 2 ^ 32 \<and> p_head p < p_size p \<and>
     p_tail p \<le> p_size p \<and> p_count p \<le> p_size p \<and>
     p_tail p mod p_size p = (p_head p + p_count p) mod p_size p"

definition contents :: "Pipe \<Rightarrow> u8 list" where
  "contents p = map (\<lambda>j. p_buffer p ! ((p_head p + j) mod p_size p)) [0..<p_count p]"

lemma length_contents [simp]: "length (contents p) = p_count p"
  by (simp add: contents_def)

lemma nth_contents: "j < p_count p \<Longrightarrow> contents p ! j = p_buffer p ! ((p_head p + j) mod p_size p)"
  by (simp add: contents_def)

lemma contents_waiters [simp]:
  "contents (note_waiter_locked r w p) = contents p" "contents (forget_waiter_locked r w p) = contents p"
  "pipe_inv (note_waiter_locked r w p) = pipe_inv p" "pipe_inv (forget_waiter_locked r w p) = pipe_inv p"
  by (simp_all add: contents_def pipe_inv_def note_waiter_locked_def forget_waiter_locked_def split: prod.splits)

lemma waiters_frame [simp]:
  "p_count (note_waiter_locked r w p) = p_count p" "p_count (forget_waiter_locked r w p) = p_count p"
  "p_size (note_waiter_locked r w p) = p_size p" "p_size (forget_waiter_locked r w p) = p_size p"
  "read_is_open (note_waiter_locked r w p) = read_is_open p" "read_is_open (forget_waiter_locked r w p) = read_is_open p"
  "write_is_open (note_waiter_locked r w p) = write_is_open p" "write_is_open (forget_waiter_locked r w p) = write_is_open p"
  by (simp_all add: note_waiter_locked_def forget_waiter_locked_def split: prod.splits)

text \<open>Ring arithmetic: a wrapped index is the index or one ring less.\<close>

lemma mod_ring: "(a::nat) < 2 * s \<Longrightarrow> a mod s = (if a < s then a else a - s)"
  by (simp add: mod_if)

lemma blit_nth:
  assumes "at + length ys \<le> length xs" "i < length xs"
  shows "(take at xs @ ys @ drop (at + length ys) xs) ! i =
    (if at \<le> i \<and> i < at + length ys then ys ! (i - at) else xs ! i)"
  using assms by (auto simp: nth_append min_def)

lemma store_chunk_ok:
  assumes inv: "pipe_inv p" and fit: "length bytes \<le> p_size p - p_count p" "length bytes \<le> p_size p - p_tail p"
  shows "\<exists>p'. store_chunk bytes p = Some p' \<and> pipe_inv p' \<and> contents p' = contents p @ bytes \<and>
     (\<exists>buf t. p' = p\<lparr>p_buffer := buf, p_tail := t, p_count := p_count p + length bytes\<rparr>)"
proof -
  define s where "s = p_size p"
  have i: "length (p_buffer p) = s" "0 < s" "s < 2 ^ 32" "p_head p < s" "p_tail p \<le> s" "p_count p \<le> s"
    "p_tail p mod s = (p_head p + p_count p) mod s"
    using inv by (auto simp: pipe_inv_def s_def)
  let ?n = "length bytes"
  let ?buf = "take (p_tail p) (p_buffer p) @ bytes @ drop (p_tail p + ?n) (p_buffer p)"
  let ?p = "p\<lparr>p_buffer := ?buf, p_tail := (p_tail p + ?n) mod s, p_count := p_count p + ?n\<rparr>"
  have fit': "?n \<le> s - p_count p" "?n \<le> s - p_tail p" using fit by (auto simp: s_def)
  have st: "store_chunk bytes p = Some ?p"
    using fit' i by (simp add: store_chunk_def array_simps ring_mod_def s_def [symmetric])
  have idx: "p_tail p = (if p_head p + p_count p < s then p_head p + p_count p else p_head p + p_count p - s) \<or> p_tail p = s"
    using i mod_ring [of "p_head p + p_count p" s] by (cases "p_tail p = s") auto
  have "(p_tail p + ?n) mod s = (p_head p + (p_count p + ?n)) mod s"
    using i(7) by (metis add.assoc mod_add_left_eq)
  then have "pipe_inv ?p" using i fit' by (simp add: pipe_inv_def s_def [symmetric])
  moreover have "contents ?p = contents p @ bytes"
  proof (rule nth_equalityI)
    fix j assume "j < length (contents ?p)"
    then have j: "j < p_count p + ?n" by simp
    have lt: "(p_head p + j) mod s < s" using i(2) by simp
    have e: "contents ?p ! j = ?buf ! ((p_head p + j) mod s)"
      using j by (simp add: nth_contents s_def)
    have m: "(p_head p + j) mod s = (if p_head p + j < s then p_head p + j else p_head p + j - s)"
      using mod_ring [of "p_head p + j" s] i j fit' by simp
    have nb: "?buf ! ((p_head p + j) mod s) =
      (if p_tail p \<le> (p_head p + j) mod s \<and> (p_head p + j) mod s < p_tail p + ?n
       then bytes ! ((p_head p + j) mod s - p_tail p) else p_buffer p ! ((p_head p + j) mod s))"
      by (rule blit_nth) (use i fit' lt in auto)
    show "contents ?p ! j = (contents p @ bytes) ! j"
    proof (cases "j < p_count p")
      case True
      then have "\<not> (p_tail p \<le> (p_head p + j) mod s \<and> (p_head p + j) mod s < p_tail p + ?n)"
        using idx m i fit' by (auto split: if_splits)
      then show ?thesis
        unfolding e nb using True by (simp only: if_False nth_append length_contents if_True nth_contents s_def)
    next
      case False
      then obtain k where k: "j = p_count p + k" by (metis le_Suc_ex not_less)
      then have "(p_head p + j) mod s = p_tail p + k"
        using idx m i fit' j by (auto split: if_splits)
      then show ?thesis
        unfolding e nb using k j by (simp add: nth_append)
    qed
  qed simp
  ultimately show ?thesis using st by blast
qed

lemma take_chunk_ok:
  assumes inv: "pipe_inv p" and fit: "n \<le> p_count p" "n \<le> p_size p - p_head p"
  shows "slice (p_buffer p) (p_head p) n = Some (take n (contents p)) \<and>
    (\<exists>p'. take_chunk n p = Some p' \<and> pipe_inv p' \<and> contents p' = drop n (contents p) \<and>
       (\<exists>h. p' = p\<lparr>p_head := h, p_count := p_count p - n\<rparr>))"
proof -
  define s where "s = p_size p"
  have i: "length (p_buffer p) = s" "0 < s" "s < 2 ^ 32" "p_head p < s" "p_tail p \<le> s" "p_count p \<le> s"
    "p_tail p mod s = (p_head p + p_count p) mod s"
    using inv by (auto simp: pipe_inv_def s_def)
  have fit': "n \<le> p_count p" "n \<le> s - p_head p" using fit by (auto simp: s_def)
  have "take n (drop (p_head p) (p_buffer p)) = take n (contents p)"
    by (rule nth_equalityI) (use i fit' in \<open>auto simp: nth_contents s_def [symmetric]\<close>)
  then have sl: "slice (p_buffer p) (p_head p) n = Some (take n (contents p))"
    using i fit' by (simp add: array_simps)
  let ?p = "p\<lparr>p_head := (p_head p + n) mod s, p_count := p_count p - n\<rparr>"
  have st: "take_chunk n p = Some ?p"
    using i fit' by (simp add: take_chunk_def ring_mod_def u32_sub_def s_def [symmetric])
  have "((p_head p + n) mod s + (p_count p - n)) mod s = (p_head p + p_count p) mod s"
    using fit' by (metis add.assoc le_add_diff_inverse mod_add_left_eq)
  then have "pipe_inv ?p" using i fit' by (simp add: pipe_inv_def s_def [symmetric])
  moreover have "contents ?p = drop n (contents p)"
    by (rule nth_equalityI) (use fit' in \<open>auto simp: nth_contents s_def [symmetric] mod_add_left_eq add.assoc\<close>)
  ultimately show ?thesis using sl st by blast
qed

section \<open>Pieces\<close>

text \<open>The pieces the loops choose fit.\<close>

lemma write_chunk_fits:
  assumes "pipe_inv p"
  shows "write_chunk p r \<le> p_size p - p_count p" "write_chunk p r \<le> p_size p - p_tail p"
  using assms by (auto simp: write_chunk_def u32_sub_def pipe_inv_def Let_def)

lemma read_chunk_fits:
  assumes "pipe_inv p"
  shows "read_chunk p r \<le> p_count p" "read_chunk p r \<le> p_size p - p_head p"
  using assms by (auto simp: read_chunk_def u32_sub_def pipe_inv_def Let_def)

lemma bytes_at_append: "bytes_at mem a (i + c) = bytes_at mem a i @ bytes_at mem (a + of_nat i) c"
  by (auto simp: bytes_at_def add.assoc intro!: nth_equalityI simp: nth_append)

lemma bytes_at_0 [simp]: "bytes_at mem a 0 = []"
  by (simp add: bytes_at_def)

text \<open>The bytes an execution put into the pipe and took out of it.\<close>

fun stored :: "pipe_event list \<Rightarrow> u8 list" where
  "stored [] = []"
| "stored (Stored bs # evs) = bs @ stored evs"
| "stored (_ # evs) = stored evs"

fun copied :: "pipe_event list \<Rightarrow> u8 list" where
  "copied [] = []"
| "copied (Copied_out a bs # evs) = bs @ copied evs"
| "copied (_ # evs) = copied evs"

lemma stored_append [simp]: "stored (xs @ ys) = stored xs @ stored ys"
  by (induction xs rule: stored.induct) simp_all

lemma copied_append [simp]: "copied (xs @ ys) = copied xs @ copied ys"
  by (induction xs rule: copied.induct) simp_all

lemma wake_events [simp]:
  "stored (fst (wake_waiters_locked r p)) = []" "copied (fst (wake_waiters_locked r p)) = []"
  by (simp_all add: wake_waiters_locked_def Let_def)

lemma notify_events [simp]:
  "stored (notify_async_reader_locked p) = []" "copied (notify_async_reader_locked p) = []"
  by (simp_all add: notify_async_reader_locked_def Let_def)

lemma write_finish_Returned:
  "\<exists>evs'. write_finish n i evs p = Returned p evs' (int i) \<and> stored evs' = stored evs"
  by (simp add: write_finish_def Let_def split: prod.splits) (metis append.right_neutral fst_conv wake_events(1))

lemma write_broken_Returned:
  "\<exists>evs' v. write_broken pr killed evs p = Returned p evs' v \<and> stored evs' = stored evs \<and> v \<in> {SYS_EPIPE, -1} \<and>
     (v = SYS_EPIPE \<longleftrightarrow> \<not> read_is_open p \<and> \<not> killed)"
  by (simp add: write_broken_def SYS_EPIPE_def)

end
