(* ===== verification/Pipe_Spec.thy ===== *)
theory Pipe_Spec
  imports Pipe_Correct "HOL-Library.Multiset"
begin

text \<open>
  Specifications of the pipe operations over the byte queue: what the writes put in, what the reads
  take out, on every branch and whatever other threads do while the lock is released.
\<close>

section \<open>Writes\<close>

text \<open>Other threads keep the invariant of the pipe.\<close>

definition windows_ok :: "pipe_window list \<Rightarrow> bool" where
  "windows_ok ws \<longleftrightarrow> (\<forall>w\<in>set ws. \<forall>p. pipe_inv p \<longrightarrow> pipe_inv (w_pipe w p))"

lemma windows_ok_Cons [simp]:
  "windows_ok (w # ws) \<longleftrightarrow> (\<forall>p. pipe_inv p \<longrightarrow> pipe_inv (w_pipe w p)) \<and> windows_ok ws"
  by (simp add: windows_ok_def)

text \<open>What a write of \<open>data\<close> guarantees: the bytes stored are a prefix of the data, in order; a
  non-negative result is the length of that prefix; \<open>EAGAIN\<close>, \<open>EINTR\<close> and \<open>EFAULT\<close> mean
  that nothing was stored.\<close>

definition write_post :: "u8 list \<Rightarrow> pipe_result \<Rightarrow> bool" where
  "write_post data r \<longleftrightarrow>
     (case r of
        Returned p evs v \<Rightarrow> pipe_inv p \<and>
          (\<exists>k\<le>length data. stored evs = take k data \<and>
             (v = int k \<or> v \<in> {SYS_EPIPE, -1} \<or> k = 0 \<and> v \<in> {SYS_EAGAIN, SYS_EINTR, SYS_EFAULT}))
      | Suspended p evs k \<Rightarrow> pipe_inv p \<and> k < length data \<and> stored evs = take k data)"

lemma write_post_finish:
  assumes "pipe_inv p" "i \<le> length data" "stored evs = take i data"
  shows "write_post data (write_finish n i evs p)"
  using write_finish_Returned [of n i evs p] assms unfolding write_post_def by force

lemma write_post_broken:
  assumes "pipe_inv p" "i \<le> length data" "stored evs = take i data"
  shows "write_post data (write_broken pr killed evs p)"
  using write_broken_Returned [of pr killed evs p] assms unfolding write_post_def by force

lemma write_post_count_or:
  assumes "pipe_inv p" "i \<le> length data" "stored evs = take i data" "e \<in> {SYS_EAGAIN, SYS_EINTR, SYS_EFAULT}"
  shows "write_post data (Returned p evs (count_or i e))"
  using assms unfolding write_post_def by (auto simp: count_or_def intro!: exI [of _ i])

lemma write_post_all: "write_post data (Returned p evs (int (length data))) \<Longrightarrow> stored evs = data"
  by (auto simp: write_post_def SYS_EPIPE_def SYS_EAGAIN_def SYS_EINTR_def SYS_EFAULT_def)

lemma take_bytes_at: "k \<le> n \<Longrightarrow> take k (bytes_at mem a n) = bytes_at mem a k"
  by (simp add: bytes_at_def take_map)

lemma write_in_kernel_loop_safe:
  assumes "pipe_inv p" "windows_ok ws" "i \<le> nat n" "stored evs = bytes_at mem addr i"
  shows "\<exists>r. write_in_kernel_loop mem addr n nonblock pr ws killed pending i evs p = Some r \<and>
    write_post (bytes_at mem addr (nat n)) r"
  using assms
proof (induction mem addr n nonblock pr ws killed pending i evs p rule: write_in_kernel_loop.induct)
  case (1 mem addr n nonblock pr ws killed pending i evs p)
  note prem = "1.prems"
  let ?data = "bytes_at mem addr (nat n)"
  have pre: "pipe_inv p" "i \<le> length ?data" "stored evs = take i ?data"
    using prem by (simp_all add: take_bytes_at)
  consider "\<not> int i < n \<or> \<not> read_is_open p \<or> killed"
    | "int i < n" "read_is_open p" "\<not> killed" "p_size p \<le> p_count p"
    | "int i < n" "read_is_open p" "\<not> killed" "\<not> p_size p \<le> p_count p" by blast
  then show ?case
  proof cases
    case 1
    then show ?thesis
      using write_post_finish [OF pre] write_post_broken [OF pre] by (subst write_in_kernel_loop.simps) auto
  next
    case 2
    show ?thesis
    proof (cases "pending \<or> nonblock")
      case True
      then show ?thesis using 2 write_post_count_or [OF pre] by (subst write_in_kernel_loop.simps) auto
    next
      case False
      let ?evs = "evs @ fst (wake_waiters_locked True p)" and ?p = "note_waiter_locked False pr p"
      show ?thesis
      proof (cases ws)
        case Nil
        then show ?thesis
          using 2 False pre by (subst write_in_kernel_loop.simps) (auto simp: write_post_def Let_def)
      next
        case (Cons w ws')
        have "\<exists>r. write_in_kernel_loop mem addr n nonblock pr ws' (w_killed w) (w_pending w) i ?evs
            (forget_waiter_locked False pr (w_pipe w ?p)) = Some r \<and> write_post ?data r"
          using "1.IH"(1) [OF _ _ 2(4) _ _ refl refl Cons] 2 False prem Cons by auto
        then show ?thesis using 2 False Cons by (subst write_in_kernel_loop.simps) (auto simp: Let_def)
      qed
    qed
  next
    case 3
    define c where "c = write_chunk p (nat n - i)"
    let ?bytes = "bytes_at mem (addr + of_nat i) c"
    have "length ?bytes \<le> p_size p - p_count p" "length ?bytes \<le> p_size p - p_tail p"
      using write_chunk_fits [OF prem(1)] by (simp_all add: c_def)
    from store_chunk_ok [OF prem(1) this] obtain p' where p': "store_chunk ?bytes p = Some p'" "pipe_inv p'" by blast
    have le: "i + c \<le> nat n" using write_chunk_le [of p "nat n - i"] prem(3) by (simp add: c_def)
    have "\<exists>r. write_in_kernel_loop mem addr n nonblock pr ws killed pending (i + c) (evs @ [Stored ?bytes]) p' = Some r \<and>
        write_post ?data r"
      using "1.IH"(2) [OF _ _ 3(4) refl refl, of p'] 3 p' prem le by (simp add: c_def bytes_at_append)
    then show ?thesis using 3 p'(1) by (subst write_in_kernel_loop.simps) (simp add: Let_def c_def [symmetric])
  qed
qed
text \<open>Without blocking, a write to a pipe with readers stores exactly what fits.\<close>

lemma min_diff_step: "(c::nat) \<le> a \<Longrightarrow> c \<le> b \<Longrightarrow> c + min (a - c) (b - c) = min a b"
  by (auto simp: min_def)

lemma write_in_kernel_loop_nonblock:
  assumes "pipe_inv p" "read_is_open p" "i \<le> nat n"
  defines "k \<equiv> min (nat n - i) (p_size p - p_count p)"
  shows "\<exists>p' evs'. write_in_kernel_loop mem addr n True pr ws False pending i evs p =
      Some (Returned p' evs' (if i + k = nat n then int (i + k)
        else count_or (i + k) (if pending then SYS_EINTR else SYS_EAGAIN))) \<and>
    pipe_inv p' \<and> contents p' = contents p @ bytes_at mem (addr + of_nat i) k \<and> p_size p' = p_size p \<and>
    read_is_open p' \<and> write_is_open p' = write_is_open p"
  using assms(1-3) unfolding k_def
proof (induction mem addr n "True" pr ws "False" pending i evs p rule: write_in_kernel_loop.induct)
  case (1 mem addr n pr ws pending i evs p)
  note prem = "1.prems"
  consider "\<not> int i < n" | "int i < n" "p_size p \<le> p_count p" | "int i < n" "\<not> p_size p \<le> p_count p" by blast
  then show ?case
  proof cases
    case 1
    then have "nat n = i" using prem(3) by linarith
    with 1 show ?thesis
      using write_finish_Returned [of n i evs p] prem by (subst write_in_kernel_loop.simps) auto
  next
    case 2
    then have "nat n \<noteq> i" by linarith
    with 2 show ?thesis using prem by (subst write_in_kernel_loop.simps) (simp add: min_def)
  next
    case 3
    define c where "c = write_chunk p (nat n - i)"
    let ?bytes = "bytes_at mem (addr + of_nat i) c"
    have fit: "length ?bytes \<le> p_size p - p_count p" "length ?bytes \<le> p_size p - p_tail p"
      using write_chunk_fits [OF prem(1)] by (simp_all add: c_def)
    from store_chunk_ok [OF prem(1) this] obtain p' where p': "store_chunk ?bytes p = Some p'" "pipe_inv p'"
      "contents p' = contents p @ ?bytes" "p_size p' = p_size p" "p_count p' = p_count p + c"
      "read_is_open p' = read_is_open p" "write_is_open p' = write_is_open p"
      by auto
    have le: "c \<le> nat n - i" using write_chunk_le [of p "nat n - i"] by (simp add: c_def)
    then have k: "c + min (nat n - (i + c)) (p_size p' - p_count p') = min (nat n - i) (p_size p - p_count p)"
      using min_diff_step [OF le, of "p_size p - p_count p"] fit(1) unfolding p'(4,5) by simp
    have le': "i + c \<le> nat n" using le prem(3) by simp
    let ?k = "min (nat n - (i + c)) (p_size p' - p_count p')"
    have run: "write_in_kernel_loop mem addr n True pr ws False pending i evs p =
        write_in_kernel_loop mem addr n True pr ws False pending (i + c) (evs @ [Stored ?bytes]) p'"
      using 3 p'(1) prem(2) by (subst write_in_kernel_loop.simps) (simp add: Let_def c_def [symmetric])
    have ik: "i + min (nat n - i) (p_size p - p_count p) = i + c + ?k" unfolding add.assoc k ..
    have bytes_eq: "bytes_at mem (addr + of_nat i) (min (nat n - i) (p_size p - p_count p)) =
        ?bytes @ bytes_at mem (addr + of_nat (i + c)) ?k"
      unfolding k [symmetric] bytes_at_append by (simp add: add.assoc)
    show ?thesis
      using "1.hyps"(2) [OF _ _ 3(2) refl refl, of p', folded c_def] 3 p' prem le'
      unfolding run ik bytes_eq by simp
  qed
qed

text \<open>A window after which a sleeping writer can go on: space, readers, no kill and no signal.\<close>

definition drains :: "pipe_window \<Rightarrow> bool" where
  "drains w \<longleftrightarrow> \<not> w_killed w \<and> \<not> w_pending w \<and>
     (\<forall>p. pipe_inv p \<longrightarrow> pipe_inv (w_pipe w p) \<and> read_is_open (w_pipe w p) \<and> p_count (w_pipe w p) < p_size (w_pipe w p))"

lemma write_in_kernel_loop_completes:
  assumes "pipe_inv p" "read_is_open p" "i \<le> nat n" "\<forall>w\<in>set ws. drains w"
    "nat n - i + (if p_count p < p_size p then 0 else 1) \<le> length ws"
  shows "\<exists>p' evs'. write_in_kernel_loop mem addr n False pr ws False False i evs p =
    Some (Returned p' evs' (int (nat n))) \<and> pipe_inv p'"
  using assms
proof (induction mem addr n "False" pr ws "False" "False" i evs p rule: write_in_kernel_loop.induct)
  case (1 mem addr n pr ws i evs p)
  note prem = "1.prems"
  consider "\<not> int i < n" | "int i < n" "p_size p \<le> p_count p" | "int i < n" "\<not> p_size p \<le> p_count p" by blast
  then show ?case
  proof cases
    case 1
    then have "nat n = i" using prem(3) by linarith
    with 1 show ?thesis
      using write_finish_Returned [of n i evs p] prem by (subst write_in_kernel_loop.simps) auto
  next
    case 2
    then obtain w ws' where ws: "ws = w # ws'" "nat n - i \<le> length ws'" using prem(5) by (cases ws) auto
    let ?p = "forget_waiter_locked False pr (w_pipe w (note_waiter_locked False pr p))"
    have w: "\<not> w_killed w" "\<not> w_pending w" "pipe_inv ?p" "read_is_open ?p" "p_count ?p < p_size ?p"
      using prem(1,4) ws(1) by (auto simp: drains_def)
    have "\<exists>p' evs'. write_in_kernel_loop mem addr n False pr ws' False False i
        (evs @ fst (wake_waiters_locked True p)) ?p = Some (Returned p' evs' (int (nat n))) \<and> pipe_inv p'"
      using "1.hyps"(1) [OF _ _ 2(2) _ _ refl refl ws(1)] w 2 prem ws by simp
    with 2 show ?thesis using prem ws w by (subst write_in_kernel_loop.simps) (simp add: Let_def)
  next
    case 3
    define c where "c = write_chunk p (nat n - i)"
    let ?bytes = "bytes_at mem (addr + of_nat i) c"
    have fit: "length ?bytes \<le> p_size p - p_count p" "length ?bytes \<le> p_size p - p_tail p"
      using write_chunk_fits [OF prem(1)] by (simp_all add: c_def)
    from store_chunk_ok [OF prem(1) this] obtain p' where p': "store_chunk ?bytes p = Some p'" "pipe_inv p'"
      "p_size p' = p_size p" "p_count p' = p_count p + c" "read_is_open p' = read_is_open p"
      by auto
    have le: "i + c \<le> nat n" using write_chunk_le [of p "nat n - i"] prem(3) by (simp add: c_def)
    have len: "nat n - (i + c) + (if p_count p' < p_size p' then 0 else 1) \<le> length ws"
      using prem(5) 3(2) p'(3,4) le by (cases "c = 0") auto
    have "write_in_kernel_loop mem addr n False pr ws False False i evs p =
        write_in_kernel_loop mem addr n False pr ws False False (i + c) (evs @ [Stored ?bytes]) p'"
      using 3 p'(1) prem(2) by (subst write_in_kernel_loop.simps) (simp add: Let_def c_def [symmetric])
    then show ?thesis
      using "1.hyps"(2) [OF _ _ 3(2) refl refl, of p', folded c_def] 3 p' prem le len by simp
  qed
qed

text \<open>The same for the user space write; \<open>copy_in\<close>, when it succeeds, delivers the bytes of user
  memory.\<close>

lemma write_from_user_loop_safe:
  assumes "pipe_inv p" "windows_ok ws" "i \<le> nat n" "stored evs = bytes_at umem addr i"
    and cin: "\<And>a k bs. copy_in a k = Some bs \<Longrightarrow> bs = bytes_at umem a k"
  shows "\<exists>r. write_from_user_loop ensure copy_in addr n nonblock pr ws killed pending i evs p = Some r \<and>
    write_post (bytes_at umem addr (nat n)) r"
  using assms(1-4)
proof (induction ws arbitrary: killed pending i evs p)
  case Nil
  let ?data = "bytes_at umem addr (nat n)"
  have pre: "pipe_inv p" "i \<le> length ?data" "stored evs = take i ?data"
    using Nil.prems by (simp_all add: take_bytes_at)
  have "write_post ?data (Suspended (note_waiter_locked False pr p) (evs @ fst (wake_waiters_locked True p)) i)"
    "write_post ?data (Suspended p evs i)" if "int i < n"
    using that pre by (auto simp: write_post_def)
  then show ?case
    using write_post_finish [OF pre] write_post_broken [OF pre] write_post_count_or [OF pre]
    by (subst write_from_user_loop.simps) (auto simp: Let_def)
next
  case (Cons w ws)
  let ?data = "bytes_at umem addr (nat n)"
  let ?evs = "evs @ fst (wake_waiters_locked True p)"
  have pre: "pipe_inv p" "i \<le> length ?data" "stored evs = take i ?data"
    using Cons.prems by (simp_all add: take_bytes_at)
  have q: "pipe_inv (w_pipe w p)" and ws: "windows_ok ws" using Cons.prems(1,2) by auto
  have sleep: "\<exists>r. write_from_user_loop ensure copy_in addr n nonblock pr ws (w_killed w) (w_pending w) i ?evs
      (forget_waiter_locked False pr (w_pipe w (note_waiter_locked False pr p))) = Some r \<and> write_post ?data r"
    by (rule Cons.IH) (use Cons.prems in auto)
  have again: "\<exists>r. write_from_user_loop ensure copy_in addr n nonblock pr ws (w_killed w) (w_pending w) i evs (w_pipe w p)
      = Some r \<and> write_post ?data r"
    by (rule Cons.IH) (use Cons.prems in auto)
  have fault: "write_post ?data (Returned (w_pipe w p) (evs @ fst (wake_waiters_locked True (w_pipe w p)) @
      notify_async_reader_locked (w_pipe w p)) (int i))"
    "write_post ?data (Returned (w_pipe w p) evs (count_or i SYS_EFAULT))"
    "i = 0 \<Longrightarrow> write_post ?data (Returned (w_pipe w p) evs SYS_EFAULT)"
    using q pre by (auto simp: write_post_def count_or_def intro!: exI [of _ i])
  have copy: "\<exists>r. (do { p' \<leftarrow> store_chunk bs (w_pipe w p);
        write_from_user_loop ensure copy_in addr n nonblock pr ws (w_killed w) (w_pending w)
          (i + write_chunk (w_pipe w p) (nat n - i)) (evs @ [Stored bs]) p' }) = Some r \<and> write_post ?data r"
    if bs: "copy_in (addr + of_nat i) (write_chunk (w_pipe w p) (nat n - i)) = Some bs" for bs
  proof -
    have b: "bs = bytes_at umem (addr + of_nat i) (write_chunk (w_pipe w p) (nat n - i))" using cin [OF bs] .
    then obtain p' where p': "store_chunk bs (w_pipe w p) = Some p'" "pipe_inv p'"
      using store_chunk_ok [OF q, of bs] write_chunk_fits [OF q] by auto
    have "i + write_chunk (w_pipe w p) (nat n - i) \<le> nat n"
      using write_chunk_le [of "w_pipe w p" "nat n - i"] Cons.prems(3) by simp
    then show ?thesis
      using Cons.IH [OF p'(2) ws, of "i + write_chunk (w_pipe w p) (nat n - i)" "evs @ [Stored bs]"] p'(1) Cons.prems(4) b
      by (simp add: bytes_at_append)
  qed
  note posts = write_post_finish [OF pre] write_post_broken [OF pre] write_post_count_or [OF pre]
  consider "\<not> int i < n \<or> \<not> read_is_open p \<or> killed"
    | "int i < n" "read_is_open p" "\<not> killed" "p_size p \<le> p_count p"
    | "int i < n" "read_is_open p" "\<not> killed" "\<not> p_size p \<le> p_count p" by blast
  then show ?case
  proof cases
    case 1
    then show ?thesis using posts by (subst write_from_user_loop.simps) auto
  next
    case 2
    then show ?thesis using posts sleep
      by (subst write_from_user_loop.simps) (cases nonblock; simp add: Let_def)
  next
    case 3
    let ?q = "w_pipe w p"
    consider "\<not> ensure (addr + of_nat i) (write_chunk p (nat n - i))"
      | "ensure (addr + of_nat i) (write_chunk p (nat n - i))" "\<not> read_is_open ?q \<or> w_killed w \<or> p_size ?q \<le> p_count ?q"
      | "ensure (addr + of_nat i) (write_chunk p (nat n - i))" "\<not> (\<not> read_is_open ?q \<or> w_killed w \<or> p_size ?q \<le> p_count ?q)"
      by blast
    then show ?thesis
    proof cases
      case 1
      with 3 show ?thesis using fault(1,3) by (subst write_from_user_loop.simps) (simp add: Let_def)
    next
      case 2
      with 3 show ?thesis using again by (subst write_from_user_loop.simps) (simp add: Let_def)
    next
      case go: 3
      show ?thesis
        using 3 go copy fault(2) by (subst write_from_user_loop.simps) (simp add: Let_def split: option.split)
    qed
  qed
qed

section \<open>Reads\<close>

lemma read_copy_ok:
  assumes "pipe_inv p" "i \<le> nat n"
  defines "k \<equiv> min (nat n - i) (p_count p)"
  shows "\<exists>evs' p'. read_copy addr n i evs p = Some (i + k, evs', p') \<and> pipe_inv p' \<and>
    contents p' = drop k (contents p) \<and> copied evs' = copied evs @ take k (contents p) \<and>
    p_size p' = p_size p \<and> p_tail p' = p_tail p \<and> read_is_open p' = read_is_open p \<and> write_is_open p' = write_is_open p"
  using assms(1,2) unfolding k_def
proof (induction addr n i evs p rule: read_copy.induct)
  case (1 addr n i evs p)
  note prem = "1.prems"
  show ?case
  proof (cases "int i < n \<and> 0 < p_count p")
    case False
    then have "min (nat n - i) (p_count p) = 0" by auto
    with False show ?thesis using prem by (subst read_copy.simps) auto
  next
    case True
    define c where "c = read_chunk p (nat n - i)"
    have fit: "c \<le> p_count p" "c \<le> p_size p - p_head p" and le: "c \<le> nat n - i"
      using read_chunk_fits [OF prem(1)] read_chunk_le by (simp_all add: c_def)
    from take_chunk_ok [OF prem(1) fit] obtain p' where sl: "slice (p_buffer p) (p_head p) c = Some (take c (contents p))"
      and p': "take_chunk c p = Some p'" "pipe_inv p'" "contents p' = drop c (contents p)" "p_size p' = p_size p"
      "p_count p' = p_count p - c" "read_is_open p' = read_is_open p" "write_is_open p' = write_is_open p"
      "p_tail p' = p_tail p"
      by auto
    let ?k = "min (nat n - (i + c)) (p_count p')"
    have k: "c + ?k = min (nat n - i) (p_count p)"
      using min_diff_step [OF le fit(1)] unfolding p'(5) by simp
    let ?evs = "evs @ [Copied_out (addr + of_nat i) (take c (contents p))]"
    have run: "read_copy addr n i evs p = read_copy addr n (i + c) ?evs p'"
      using True sl p'(1) by (subst read_copy.simps) (simp add: Let_def c_def [symmetric])
    have le': "i + c \<le> nat n" using le prem(2) by simp
    have split: "take (c + ?k) (contents p) = take c (contents p) @ take ?k (drop c (contents p))"
      "drop (c + ?k) (contents p) = drop ?k (drop c (contents p))"
      by (simp_all add: take_add add.commute)
    from "1.IH" [OF True refl, of "take c (contents p)" p', folded c_def, OF sl p'(1,2) le']
    show ?thesis unfolding run k [symmetric] split using p'(3,4,6,7,8) by (simp add: add.assoc)
  qed
qed

lemma read_wait_safe:
  assumes "pipe_inv p" "windows_ok ws"
  shows "case read_wait nonblock pr ws killed pending p of
      Inl (Returned p' evs v) \<Rightarrow> pipe_inv p' \<and> evs = [] \<and> v \<in> {-1, SYS_EAGAIN, SYS_EINTR}
    | Inl (Suspended p' evs k) \<Rightarrow> pipe_inv p' \<and> evs = [] \<and> k = 0
    | Inr (ws', killed', pending', p') \<Rightarrow> pipe_inv p' \<and> windows_ok ws' \<and> (0 < p_count p' \<or> \<not> write_is_open p')"
  using assms
proof (induction ws arbitrary: nonblock killed pending p)
  case Nil
  then show ?case by (subst read_wait.simps) (auto simp: Let_def)
next
  case (Cons w ws)
  have "pipe_inv (forget_waiter_locked True pr (w_pipe w (note_waiter_locked True pr p)))" "windows_ok ws"
    using Cons.prems by auto
  from Cons.IH [OF this] Cons.prems show ?case
    by (subst read_wait.simps) (simp add: Let_def)
qed

lemma read_wait_ready:
  "0 < p_count p \<or> \<not> write_is_open p \<Longrightarrow> read_wait nonblock pr ws killed pending p = Inr (ws, killed, pending, p)"
  by (subst read_wait.simps) auto

lemma read_wait_no_zero: "read_wait nonblock pr ws killed pending p \<noteq> Inl (Returned p' evs 0)"
  by (induction ws arbitrary: nonblock killed pending p)
    (subst read_wait.simps, simp add: Let_def SYS_EAGAIN_def SYS_EINTR_def)+

text \<open>A read never reports an end of file while the write end is open.\<close>

lemma read_to_user_loop_zero:
  assumes "read_to_user_loop ensure copy_out addr n nonblock pr ws killed pending i evs p = Some (Returned p' evs' 0)" "0 < n"
  shows "p_count p' = 0 \<and> \<not> write_is_open p'"
  using assms
proof (induction ws arbitrary: nonblock killed pending i evs p)
  case Nil
  then show ?case
    by (subst (asm) read_to_user_loop.simps)
      (auto simp: Let_def count_or_def SYS_EAGAIN_def SYS_EINTR_def SYS_EFAULT_def split: if_splits)
next
  case (Cons w ws)
  from Cons.prems show ?case
    by (subst (asm) read_to_user_loop.simps)
      (auto simp: Let_def count_or_def SYS_EAGAIN_def SYS_EINTR_def SYS_EFAULT_def
        split: if_splits Option.bind_splits dest: Cons.IH)
qed

lemma read_to_user_loop_safe:
  assumes "pipe_inv p" "windows_ok ws"
  shows "\<exists>r. read_to_user_loop ensure copy_out addr n nonblock pr ws killed pending i evs p = Some r \<and>
    (case r of Returned p' _ _ \<Rightarrow> pipe_inv p' | Suspended p' _ _ \<Rightarrow> pipe_inv p')"
  using assms
proof (induction ws arbitrary: nonblock killed pending i evs p)
  case Nil
  then show ?case by (subst read_to_user_loop.simps) (auto simp: Let_def)
next
  case (Cons w ws)
  let ?q = "w_pipe w p"
  have q: "pipe_inv ?q" "windows_ok ws"
    and s: "pipe_inv (forget_waiter_locked True pr (w_pipe w (note_waiter_locked True pr p)))"
    using Cons.prems by auto
  obtain bs p' where c: "slice (p_buffer ?q) (p_head ?q) (read_chunk ?q (nat n - i)) = Some bs"
    "take_chunk (read_chunk ?q (nat n - i)) ?q = Some p'" "pipe_inv p'"
    using take_chunk_ok [OF q(1)] read_chunk_fits [OF q(1)] by blast
  show ?case
    using Cons.IH [OF q] Cons.IH [OF s q(2)] Cons.IH [OF c(3) q(2)] c(1,2) Cons.prems(1) q(1)
    by (subst read_to_user_loop.simps) (simp add: Let_def)
qed

text \<open>A window in which nothing happens.\<close>

definition quiet :: pipe_window where
  "quiet = \<lparr>w_pipe = (\<lambda>p. p), w_killed = False, w_pending = False\<rparr>"

lemma read_to_user_loop_quiet:
  assumes "pipe_inv p" "i \<le> nat n" "0 < p_count p \<or> \<not> write_is_open p \<or> 0 < i"
    and "min (nat n - i) (p_count p) \<le> m"
  defines "k \<equiv> min (nat n - i) (p_count p)"
  shows "\<exists>p' evs'. read_to_user_loop (\<lambda>_ _. True) (\<lambda>_ _. True) addr n nonblock pr (replicate m quiet) killed pending i evs p =
      Some (Returned p' evs' (int (i + k))) \<and> pipe_inv p' \<and> contents p' = drop k (contents p) \<and>
      copied evs' = copied evs @ take k (contents p)"
  using assms(1-4) unfolding k_def
proof (induction m arbitrary: killed pending i evs p)
  case 0
  then show ?case by (subst read_to_user_loop.simps) (auto simp: Let_def min_def split: if_splits)
next
  case (Suc m)
  show ?case
  proof (cases "int i < n \<and> 0 < p_count p")
    case False
    then have "min (nat n - i) (p_count p) = 0" by auto
    with False show ?thesis using Suc.prems by (subst read_to_user_loop.simps) (auto simp: Let_def)
  next
    case True
    define c where "c = read_chunk p (nat n - i)"
    have fit: "c \<le> p_count p" "c \<le> p_size p - p_head p" and le: "c \<le> nat n - i"
      using read_chunk_fits [OF Suc.prems(1)] read_chunk_le by (simp_all add: c_def)
    have pos: "0 < c"
      using read_chunk_progress [of i n p] True Suc.prems(1) by (cases "c = 0") (auto simp: c_def pipe_inv_def)
    from take_chunk_ok [OF Suc.prems(1) fit] obtain p' where sl: "slice (p_buffer p) (p_head p) c = Some (take c (contents p))"
      and p': "take_chunk c p = Some p'" "pipe_inv p'" "contents p' = drop c (contents p)" "p_count p' = p_count p - c"
      by auto
    let ?k = "min (nat n - (i + c)) (p_count p')"
    have k: "c + ?k = min (nat n - i) (p_count p)"
      using min_diff_step [OF le fit(1)] unfolding p'(4) by simp
    let ?evs = "evs @ [Copied_out (addr + of_nat i) (take c (contents p))]"
    let ?loop = "read_to_user_loop (\<lambda>_ _. True) (\<lambda>_ _. True) addr n nonblock pr"
    have run: "?loop (replicate (Suc m) quiet) killed pending i evs p = ?loop (replicate m quiet) False False (i + c) ?evs p'"
      using True sl p'(1) by (subst read_to_user_loop.simps) (simp add: Let_def quiet_def c_def [symmetric])
    have pre: "i + c \<le> nat n" "?k \<le> m" using le Suc.prems(2) Suc.prems(4) [folded k] pos by linarith+
    have split: "take (c + ?k) (contents p) = take c (contents p) @ take ?k (drop c (contents p))"
      "drop (c + ?k) (contents p) = drop ?k (drop c (contents p))"
      by (simp_all add: take_add add.commute)
    show ?thesis
      unfolding run k [symmetric] split using Suc.IH [OF p'(2) pre(1) _ pre(2), of False False ?evs] pos p'(3)
      by (simp add: add.assoc)
  qed
qed

section \<open>Resizing\<close>

lemma resize_loop:
  assumes "0 < sz" "h < sz" "length buf = sz" "m \<le> length nb"
  shows "\<exists>nb'. for_each (resize_step buf sz) [0..<m] (nb, h) = Some (nb', (h + m) mod sz) \<and> length nb' = length nb \<and>
    (\<forall>j<m. nb' ! j = buf ! ((h + j) mod sz))"
  using assms(4)
proof (induction m)
  case 0
  then show ?case using assms(1,2) by simp
next
  case (Suc m)
  then obtain nb' where nb': "for_each (resize_step buf sz) [0..<m] (nb, h) = Some (nb', (h + m) mod sz)"
    "length nb' = length nb" "\<forall>j<m. nb' ! j = buf ! ((h + j) mod sz)" by auto
  have "resize_step buf sz m (nb', (h + m) mod sz) = Some (nb'[m := buf ! ((h + m) mod sz)], (h + Suc m) mod sz)"
    using assms Suc.prems nb'(2) by (simp add: resize_step_def array_simps ring_mod_def mod_Suc_eq)
  then show ?case using nb' Suc.prems by (auto simp: for_each_append less_Suc_eq)
qed

lemma set_pipe_size_ok:
  assumes inv: "pipe_inv p" and new: "new_bytes new_size = Some nb" "length nb = new_size"
    and sz: "min_pipe_size \<le> new_size" "new_size \<le> max_pipe_size" "p_count p \<le> new_size"
  shows "\<exists>p'. set_pipe_size new_bytes new_size p = Some (p', int new_size) \<and> pipe_inv p' \<and> contents p' = contents p \<and>
    p_size p' = new_size \<and> p_tail p' = p_count p \<and> p_count p' = p_count p \<and> read_is_open p' = read_is_open p"
proof -
  have i: "length (p_buffer p) = p_size p" "0 < p_size p" "p_head p < p_size p" using inv by (auto simp: pipe_inv_def)
  obtain nb' where nb': "for_each (resize_step (p_buffer p) (p_size p)) [0..<p_count p] (nb, p_head p) =
      Some (nb', (p_head p + p_count p) mod p_size p)" "length nb' = new_size"
    "\<forall>j<p_count p. nb' ! j = p_buffer p ! ((p_head p + j) mod p_size p)"
    using resize_loop [OF i(2,3,1), of "p_count p" nb] new(2) sz(3) by auto
  let ?p = "p\<lparr>p_head := 0, p_tail := p_count p, p_buffer := (if 0 < p_count p then nb' else nb), p_size := new_size\<rparr>"
  have pos: "0 < new_size" "new_size < 2 ^ 32" using sz by (auto simp: min_pipe_size_def max_pipe_size_def)
  have "set_pipe_size new_bytes new_size p = Some (?p, int new_size)"
    using nb'(1) new(1) sz by (auto simp: set_pipe_size_def)
  moreover have "pipe_inv ?p" using inv pos nb'(2) new(2) sz(3) by (simp add: pipe_inv_def)
  moreover have "contents ?p = contents p"
  proof (rule nth_equalityI)
    fix j assume "j < length (contents ?p)"
    then have j: "j < p_count p" "j < new_size" using sz(3) by auto
    then show "contents ?p ! j = contents p ! j" using nb'(3) by (simp add: nth_contents)
  qed simp
  ultimately show ?thesis by (intro exI [of _ ?p]) simp
qed

end
