(* ===== verification/Fifo_Interface.thy ===== *)
theory Fifo_Interface
  imports Prelude
begin

text \<open>
  The contract of a bounded byte queue whose calls may transfer only a part: \<open>put\<close> appends a
  prefix of its payload and reports how much, \<open>get\<close> removes a prefix of the contents and returns
  it. Whatever the sequence of calls, what was read followed by what is still queued is what was
  there followed by what was accepted: nothing is lost, duplicated or reordered.
\<close>

datatype ('w, 'r) fifo_op = Put 'w | Get 'r

primrec run_fifo ::
  "('w \<Rightarrow> 's \<Rightarrow> ('s \<times> nat) option) \<Rightarrow> ('r \<Rightarrow> 's \<Rightarrow> ('s \<times> 'b list) option) \<Rightarrow> ('w \<Rightarrow> 'b list) \<Rightarrow>
   ('w, 'r) fifo_op list \<Rightarrow> 's \<Rightarrow> ('s \<times> 'b list \<times> 'b list) option" where
  "run_fifo put get payload [] s = Some (s, [], [])"
| "run_fifo put get payload (op # ops) s =
     (case op of
        Put w \<Rightarrow> do {
          (s, k) \<leftarrow> put w s;
          (s, ins, outs) \<leftarrow> run_fifo put get payload ops s;
          Some (s, take k (payload w) @ ins, outs)
        }
      | Get r \<Rightarrow> do {
          (s, bs) \<leftarrow> get r s;
          (s, ins, outs) \<leftarrow> run_fifo put get payload ops s;
          Some (s, ins, bs @ outs)
        })"

locale partial_fifo =
  fixes inv :: "'s \<Rightarrow> bool"
    and cont :: "'s \<Rightarrow> 'b list"
    and room :: "'s \<Rightarrow> nat"
    and payload :: "'w \<Rightarrow> 'b list"
    and want :: "'r \<Rightarrow> nat"
    and put :: "'w \<Rightarrow> 's \<Rightarrow> ('s \<times> nat) option"
    and get :: "'r \<Rightarrow> 's \<Rightarrow> ('s \<times> 'b list) option"
  assumes put_law: "inv s \<Longrightarrow> \<exists>s'. put w s = Some (s', min (length (payload w)) (room s)) \<and> inv s' \<and>
      cont s' = cont s @ take (min (length (payload w)) (room s)) (payload w)"
    and get_law: "inv s \<Longrightarrow> \<exists>s'. get r s = Some (s', take (want r) (cont s)) \<and> inv s' \<and> cont s' = drop (want r) (cont s)"
begin

lemma run_fifo_order:
  assumes "inv s"
  shows "\<exists>s' ins outs. run_fifo put get payload ops s = Some (s', ins, outs) \<and> inv s' \<and> outs @ cont s' = cont s @ ins"
  using assms
proof (induction ops arbitrary: s)
  case Nil
  then show ?case by simp
next
  case (Cons op ops)
  show ?case
  proof (cases op)
    case (Put w)
    from put_law [OF Cons.prems, of w] obtain s' where s': "put w s = Some (s', min (length (payload w)) (room s))" "inv s'"
      "cont s' = cont s @ take (min (length (payload w)) (room s)) (payload w)" by blast
    from Cons.IH [OF s'(2)] Put s' show ?thesis by auto
  next
    case (Get r)
    from get_law [OF Cons.prems, of r] obtain s' where s': "get r s = Some (s', take (want r) (cont s))" "inv s'"
      "cont s' = drop (want r) (cont s)" by blast
    from Cons.IH [OF s'(2)] obtain t ins outs where
      t: "run_fifo put get payload ops s' = Some (t, ins, outs)" "inv t" "outs @ cont t = cont s' @ ins" by blast
    have "take (want r) (cont s) @ outs @ cont t = cont s @ ins" using t(3) s'(3) by simp
    with Get s' t show ?thesis by auto
  qed
qed

end

end
