(* ===== verification/Pipe_Theorems.thy ===== *)
theory Pipe_Theorems
  imports Pipe_Spec Fifo_Interface
begin

text \<open>
  What the pipes of \<open>src/kernel/proc/pipe.cc\<close> guarantee, with the interpretation of the partial
  queue contract on the non-blocking write and read, and concrete instances on a four-byte ring that
  wraps around.
\<close>

text \<open>A ring of four bytes holding \<open>4, 1\<close> across its end, and the same ring filled up.\<close>

definition demo_pipe :: Pipe where
  "demo_pipe = \<lparr>p_buffer = [1, 2, 3, 4], p_size = 4, p_head = 3, p_tail = 1, p_count = 2,
     read_is_open = True, write_is_open = True, read_waiter = None, write_waiter = None,
     read_waiter_count = 0, write_waiter_count = 0, pipe_flags = 0, async_owner_type = 0,
     async_owner_id = 0, async_signal = 0\<rparr>"

definition demo_full :: Pipe where
  "demo_full = demo_pipe\<lparr>p_tail := 3, p_count := 4\<rparr>"

lemma demo_pipe_inv: "pipe_inv demo_pipe" "pipe_inv demo_full"
  by (simp_all add: pipe_inv_def demo_pipe_def demo_full_def)

text \<open>C25. Whatever other threads do while it sleeps, \<open>write_in_kernel\<close> never leaves the buffer
  bounds and keeps the ring well-formed; the bytes it stored are a prefix of the caller's data, in
  order, a non-negative result is their number, and \<open>EAGAIN\<close> or \<open>EINTR\<close> mean that none
  was stored.\<close>

theorem write_in_kernel_correct:
  assumes "pipe_inv p" "windows_ok ws"
  shows "\<exists>r. write_in_kernel mem addr n nonblock pr ws killed pending p = Some r \<and>
    write_post (bytes_at mem addr (nat n)) r"
  unfolding write_in_kernel_def using write_in_kernel_loop_safe [OF assms, of 0] by simp

theorem write_in_kernel_correct_witness:
  "\<exists>r. write_in_kernel (\<lambda>a. ucast a) 100 6 False 7 [\<lparr>w_pipe = (\<lambda>p. demo_pipe), w_killed = False, w_pending = False\<rparr>]
      False False demo_pipe = Some r \<and> write_post (bytes_at (\<lambda>a. ucast a) 100 (nat 6)) r"
  by (rule write_in_kernel_correct) (simp_all add: demo_pipe_inv windows_ok_def)

text \<open>A non-blocking \<open>write_in_kernel\<close> to a pipe with a reader appends exactly as many bytes
  as fit and returns their number; when none fits it returns \<open>EINTR\<close> or \<open>EAGAIN\<close>.\<close>

theorem write_in_kernel_nonblock:
  assumes "pipe_inv p" "read_is_open p"
  shows "let k = min (nat n) (p_size p - p_count p)
    in \<exists>p' evs. write_in_kernel mem addr n True pr ws False pending p =
         Some (Returned p' evs (if k = nat n then int k else count_or k (if pending then SYS_EINTR else SYS_EAGAIN))) \<and>
       pipe_inv p' \<and> contents p' = contents p @ bytes_at mem addr k \<and> p_size p' = p_size p"
  using write_in_kernel_loop_nonblock [OF assms, of 0 n mem addr pr ws pending "[]"]
  by (auto simp: write_in_kernel_def Let_def)

theorem write_in_kernel_nonblock_witness:
  "let k = min (nat 6) (p_size demo_pipe - p_count demo_pipe)
    in \<exists>p' evs. write_in_kernel (\<lambda>a. ucast a) 100 6 True 7 [] False False demo_pipe =
         Some (Returned p' evs (if k = nat 6 then int k else count_or k (if False then SYS_EINTR else SYS_EAGAIN))) \<and>
       pipe_inv p' \<and> contents p' = contents demo_pipe @ bytes_at (\<lambda>a. ucast a) 100 k \<and> p_size p' = p_size demo_pipe"
  by (rule write_in_kernel_nonblock [OF demo_pipe_inv(1)]) (simp add: demo_pipe_def)

text \<open>C27. A blocking \<open>write_in_kernel\<close> completes: if each time it sleeps the readers leave it some
  space (and it is neither killed nor interrupted), it returns after at most one sleep per byte and one
  more, having written everything.\<close>

theorem write_in_kernel_completes:
  assumes "pipe_inv p" "read_is_open p" "\<forall>w\<in>set ws. drains w" "nat n + 1 \<le> length ws"
  shows "\<exists>p' evs. write_in_kernel mem addr n False pr ws False False p = Some (Returned p' evs (int (nat n))) \<and> pipe_inv p' \<and>
    stored evs = bytes_at mem addr (nat n)"
proof -
  have ok: "windows_ok ws" using assms(3) by (auto simp: windows_ok_def drains_def)
  obtain p' evs where r: "write_in_kernel mem addr n False pr ws False False p = Some (Returned p' evs (int (nat n)))" "pipe_inv p'"
    using write_in_kernel_loop_completes [OF assms(1,2) _ assms(3), of 0 n mem addr pr "[]"] assms(4)
    unfolding write_in_kernel_def by (cases "p_count p < p_size p") auto
  have "write_post (bytes_at mem addr (nat n)) (Returned p' evs (int (length (bytes_at mem addr (nat n)))))"
    using write_in_kernel_loop_safe [OF assms(1) ok, of 0 n "[]" mem addr False pr False False] r(1)
    by (simp add: write_in_kernel_def)
  then have "stored evs = bytes_at mem addr (nat n)" by (rule write_post_all)
  with r show ?thesis by blast
qed

theorem write_in_kernel_completes_witness:
  "\<exists>p' evs. write_in_kernel (\<lambda>a. ucast a) 100 3 False 7
      (replicate 4 \<lparr>w_pipe = (\<lambda>p. demo_pipe), w_killed = False, w_pending = False\<rparr>) False False demo_full =
      Some (Returned p' evs (int (nat 3))) \<and> pipe_inv p' \<and> stored evs = bytes_at (\<lambda>a. ucast a) 100 (nat 3)"
  by (rule write_in_kernel_completes [OF demo_pipe_inv(2)])
    (simp_all add: drains_def demo_pipe_inv demo_full_def demo_pipe_def pipe_inv_def)

text \<open>C26. The same guarantee for \<open>write_from_user\<close>, which also gives up the lock while user
  pages are faulted in: whatever happens in these windows and wherever the copy from user memory fails,
  the buffer bounds and the ring invariant hold and the bytes stored are a prefix of the user data.\<close>

theorem write_from_user_correct:
  assumes "pipe_inv p" "windows_ok ws" "\<forall>a k bs. copy_in a k = Some bs \<longrightarrow> bs = bytes_at umem a k"
  shows "\<exists>r. write_from_user ensure copy_in addr n nonblock pr ws killed pending p = Some r \<and>
    write_post (bytes_at umem addr (nat n)) r"
  unfolding write_from_user_def
  using write_from_user_loop_safe [OF assms(1,2), of 0 n "[]" umem addr copy_in ensure nonblock pr killed pending] assms(3)
  by auto

theorem write_from_user_correct_witness:
  "\<exists>r. write_from_user (\<lambda>a k. a < 103) (\<lambda>a k. Some (bytes_at (\<lambda>a. ucast a) a k)) 100 6 False 7 (replicate 5 quiet)
      False False demo_pipe = Some r \<and> write_post (bytes_at (\<lambda>a. ucast a) 100 (nat 6)) r"
  by (rule write_from_user_correct) (simp_all add: demo_pipe_inv windows_ok_def quiet_def)

text \<open>C28. \<open>read\<close> takes the oldest bytes, as many as asked for and available, in order, and leaves
  the rest; at the end of file it returns 0; on an empty pipe with writers it returns \<open>-1\<close> if killed,
  \<open>EAGAIN\<close> if it must not block, \<open>EINTR\<close> if a signal is pending, and otherwise goes to sleep
  registered as a waiting reader.\<close>

theorem pipe_read_correct:
  assumes "pipe_inv p"
  shows "if 0 < p_count p \<or> \<not> write_is_open p
    then \<exists>p' evs. pipe_read addr n nonblock pr ws killed pending p =
           Some (Returned p' evs (int (min (nat n) (p_count p)))) \<and> pipe_inv p' \<and>
         contents p' = drop (nat n) (contents p) \<and> copied evs = take (nat n) (contents p)
    else pipe_read addr n nonblock pr [] killed pending p =
           Some (if killed then Returned p [] (-1) else if nonblock then Returned p [] SYS_EAGAIN
                 else if pending then Returned p [] SYS_EINTR
                 else Suspended (note_waiter_locked True pr p) [] 0)"
proof (cases "0 < p_count p \<or> \<not> write_is_open p")
  case True
  obtain evs p' where "read_copy addr n 0 [] p = Some (min (nat n) (p_count p), evs, p')" "pipe_inv p'"
    "contents p' = drop (min (nat n) (p_count p)) (contents p)" "copied evs = take (min (nat n) (p_count p)) (contents p)"
    using read_copy_ok [OF assms, of 0 n addr "[]"] by auto
  moreover have "take (min (nat n) (p_count p)) (contents p) = take (nat n) (contents p)"
    "drop (min (nat n) (p_count p)) (contents p) = drop (nat n) (contents p)"
    by (simp_all add: min_def)
  ultimately show ?thesis using True by (simp add: pipe_read_def read_wait_ready)
next
  case False
  then show ?thesis by (auto simp: pipe_read_def read_wait.simps Let_def)
qed

theorem pipe_read_correct_witness:
  "if 0 < p_count demo_pipe \<or> \<not> write_is_open demo_pipe
    then \<exists>p' evs. pipe_read 200 3 False 9 [] False False demo_pipe =
           Some (Returned p' evs (int (min (nat 3) (p_count demo_pipe)))) \<and> pipe_inv p' \<and>
         contents p' = drop (nat 3) (contents demo_pipe) \<and> copied evs = take (nat 3) (contents demo_pipe)
    else pipe_read 200 3 False 9 [] False False demo_pipe =
           Some (if False then Returned demo_pipe [] (-1) else if False then Returned demo_pipe [] SYS_EAGAIN
                 else if False then Returned demo_pipe [] SYS_EINTR
                 else Suspended (note_waiter_locked True 9 demo_pipe) [] 0)"
  by (rule pipe_read_correct [OF demo_pipe_inv(1)])

text \<open>\<open>read_to_user\<close> returns 0 for a non-empty request only at the end of file, also when other
  readers take the data in the windows without the lock.\<close>

theorem read_to_user_zero_is_eof:
  assumes "read_to_user ensure copy_out addr n nonblock pr ws killed pending p = Some (Returned p' evs 0)" "0 < n"
  shows "p_count p' = 0 \<and> \<not> write_is_open p'"
proof (cases "read_wait nonblock pr ws killed pending p")
  case (Inl r)
  then show ?thesis using assms read_wait_no_zero [of nonblock pr ws killed pending p p' evs] by (simp add: read_to_user_def)
next
  case (Inr s)
  then show ?thesis using assms by (cases s) (auto simp: read_to_user_def dest: read_to_user_loop_zero)
qed

theorem read_to_user_zero_is_eof_witness:
  "p_count (demo_pipe\<lparr>p_head := 1, p_count := 0, write_is_open := False\<rparr>) = 0 \<and>
   \<not> write_is_open (demo_pipe\<lparr>p_head := 1, p_count := 0, write_is_open := False\<rparr>)"
proof (rule read_to_user_zero_is_eof)
  show "read_to_user (\<lambda>_ _. True) (\<lambda>_ _. True) 200 3 False 9
      [\<lparr>w_pipe = (\<lambda>p. p\<lparr>p_head := 1, p_count := 0, write_is_open := False\<rparr>), w_killed = False, w_pending = False\<rparr>]
      False False demo_pipe =
    Some (Returned (demo_pipe\<lparr>p_head := 1, p_count := 0, write_is_open := False\<rparr>) [] 0)"
    by code_simp
qed simp

text \<open>Undisturbed and without faults, \<open>read_to_user\<close> delivers the oldest bytes in order, as
  many as asked for and available.\<close>

theorem read_to_user_quiet:
  assumes "pipe_inv p" "0 < p_count p" "p_count p \<le> m"
  shows "\<exists>p' evs. read_to_user (\<lambda>_ _. True) (\<lambda>_ _. True) addr n nonblock pr (replicate m quiet) killed pending p =
      Some (Returned p' evs (int (min (nat n) (p_count p)))) \<and> pipe_inv p' \<and>
      contents p' = drop (min (nat n) (p_count p)) (contents p) \<and>
      copied evs = take (min (nat n) (p_count p)) (contents p)"
  using read_to_user_loop_quiet [OF assms(1), of 0 n m addr nonblock pr killed pending "[]"] assms(2,3)
  by (simp add: read_to_user_def read_wait_ready)

theorem read_to_user_quiet_witness:
  "\<exists>p' evs. read_to_user (\<lambda>_ _. True) (\<lambda>_ _. True) 200 5 False 9 (replicate 2 quiet) False False demo_pipe =
      Some (Returned p' evs (int (min (nat 5) (p_count demo_pipe)))) \<and> pipe_inv p' \<and>
      contents p' = drop (min (nat 5) (p_count demo_pipe)) (contents demo_pipe) \<and>
      copied evs = take (min (nat 5) (p_count demo_pipe)) (contents demo_pipe)"
  by (rule read_to_user_quiet [OF demo_pipe_inv(1)]) (simp_all add: demo_pipe_def)

text \<open>C30. \<open>set_pipe_size\<close> keeps the queued bytes and their order in a ring of the new size; it
  refuses sizes out of range or smaller than the queue, and a failed allocation, without a change.\<close>

theorem set_pipe_size_correct:
  assumes "pipe_inv p" "\<forall>n bs. new_bytes n = Some bs \<longrightarrow> length bs = n"
  shows "if min_pipe_size \<le> new_size \<and> new_size \<le> max_pipe_size \<and> p_count p \<le> new_size \<and> new_bytes new_size \<noteq> None
    then \<exists>p'. set_pipe_size new_bytes new_size p = Some (p', int new_size) \<and> pipe_inv p' \<and> contents p' = contents p \<and>
           p_size p' = new_size
    else set_pipe_size new_bytes new_size p = Some (p, -1)"
proof (cases "min_pipe_size \<le> new_size \<and> new_size \<le> max_pipe_size \<and> p_count p \<le> new_size \<and> new_bytes new_size \<noteq> None")
  case True
  then obtain nb where "new_bytes new_size = Some nb" by auto
  with set_pipe_size_ok [OF assms(1), of new_bytes new_size nb] assms(2) True show ?thesis by auto
next
  case False
  then show ?thesis by (auto simp: set_pipe_size_def)
qed

theorem set_pipe_size_correct_witness:
  "if min_pipe_size \<le> 300 \<and> 300 \<le> max_pipe_size \<and> p_count demo_pipe \<le> 300 \<and> (\<lambda>n. Some (replicate n (0::u8))) (300::nat) \<noteq> None
    then \<exists>p'. set_pipe_size (\<lambda>n. Some (replicate n 0)) 300 demo_pipe = Some (p', int 300) \<and> pipe_inv p' \<and>
           contents p' = contents demo_pipe \<and> p_size p' = 300
    else set_pipe_size (\<lambda>n. Some (replicate n 0)) 300 demo_pipe = Some (demo_pipe, -1)"
  by (rule set_pipe_size_correct [OF demo_pipe_inv(1)]) simp

text \<open>The non-blocking calls as a partial queue: a write of \<open>n\<close> bytes at \<open>addr\<close>, a read of
  \<open>n\<close> bytes.\<close>

definition pipe_put :: "(u64 \<Rightarrow> u8) \<times> u64 \<times> int \<Rightarrow> Pipe \<Rightarrow> (Pipe \<times> nat) option" where
  "pipe_put = (\<lambda>(mem, addr, n) p.
     case write_in_kernel mem addr n True 0 [] False False p of
       Some (Returned p' evs v) \<Rightarrow> Some (p', nat v)
     | _ \<Rightarrow> None)"

definition pipe_get :: "u64 \<times> int \<Rightarrow> Pipe \<Rightarrow> (Pipe \<times> u8 list) option" where
  "pipe_get = (\<lambda>(addr, n) p.
     case pipe_read addr n True 0 [] False False p of
       Some (Returned p' evs v) \<Rightarrow> Some (p', copied evs)
     | _ \<Rightarrow> None)"

definition pipe_payload :: "(u64 \<Rightarrow> u8) \<times> u64 \<times> int \<Rightarrow> u8 list" where
  "pipe_payload = (\<lambda>(mem, addr, n). bytes_at mem addr (nat n))"

interpretation pipe_fifo: partial_fifo "\<lambda>p. pipe_inv p \<and> read_is_open p" contents "\<lambda>p. p_size p - p_count p"
  pipe_payload "\<lambda>(addr, n). nat n" pipe_put pipe_get
proof unfold_locales
  fix p :: Pipe and w :: "(u64 \<Rightarrow> u8) \<times> u64 \<times> int" and r :: "u64 \<times> int"
  assume inv: "pipe_inv p \<and> read_is_open p"
  obtain mem addr n where w: "w = (mem, addr, n)" by (cases w)
  define k where "k = min (nat n) (p_size p - p_count p)"
  obtain p' evs where p': "write_in_kernel mem addr n True 0 [] False False p =
      Some (Returned p' evs (if k = nat n then int k else count_or k SYS_EAGAIN))"
    "pipe_inv p'" "contents p' = contents p @ bytes_at mem addr k" "read_is_open p'"
    using write_in_kernel_loop_nonblock [of p 0 n mem addr 0 "[]" False "[]"] inv
    by (auto simp: write_in_kernel_def k_def)
  have "nat (if k = nat n then int k else count_or k SYS_EAGAIN) = k"
    by (simp add: count_or_def SYS_EAGAIN_def)
  then show "\<exists>s'. pipe_put w p = Some (s', min (length (pipe_payload w)) (p_size p - p_count p)) \<and>
      (pipe_inv s' \<and> read_is_open s') \<and>
      contents s' = contents p @ take (min (length (pipe_payload w)) (p_size p - p_count p)) (pipe_payload w)"
    using p' by (auto simp: w pipe_put_def pipe_payload_def take_bytes_at k_def)
  obtain addr n where r: "r = (addr, n)" by (cases r)
  show "\<exists>s'. pipe_get r p = Some (s', take (case r of (addr, n) \<Rightarrow> nat n) (contents p)) \<and> (pipe_inv s' \<and> read_is_open s') \<and>
      contents s' = drop (case r of (addr, n) \<Rightarrow> nat n) (contents p)"
  proof (cases "0 < p_count p \<or> \<not> write_is_open p")
    case True
    obtain evs p' where "read_copy addr n 0 [] p = Some (min (nat n) (p_count p), evs, p')" "pipe_inv p'" "read_is_open p'"
      "contents p' = drop (min (nat n) (p_count p)) (contents p)" "copied evs = take (min (nat n) (p_count p)) (contents p)"
      using read_copy_ok [of p 0 n addr "[]"] inv by auto
    then show ?thesis using True by (simp add: r pipe_get_def pipe_read_def read_wait_ready min_def)
  next
    case False
    then have "contents p = []" by (simp add: contents_def)
    with False inv show ?thesis by (simp add: r pipe_get_def pipe_read_def read_wait.simps)
  qed
qed

text \<open>C24. A pipe is a queue: over any sequence of non-blocking writes and reads, however the
  transfers are cut short, the bytes read followed by the bytes still queued are the bytes queued before
  followed by the bytes accepted, in order.\<close>

theorem pipe_is_fifo:
  assumes "pipe_inv p" "read_is_open p"
  shows "\<exists>p' ins outs. run_fifo pipe_put pipe_get pipe_payload ops p = Some (p', ins, outs) \<and> pipe_inv p' \<and>
    outs @ contents p' = contents p @ ins"
  using pipe_fifo.run_fifo_order [of p ops] assms by auto

theorem pipe_is_fifo_witness:
  "\<exists>p' ins outs. run_fifo pipe_put pipe_get pipe_payload
      [Put (\<lambda>a. ucast a, 10, 3), Get (0, 1), Put (\<lambda>a. ucast a, 20, 3), Get (0, 9)] demo_pipe = Some (p', ins, outs) \<and>
    pipe_inv p' \<and> outs @ contents p' = contents demo_pipe @ ins"
  by (rule pipe_is_fifo [OF demo_pipe_inv(1)]) (simp add: demo_pipe_def)

text \<open>The tasks asleep on one end, as a multiset, and what the recorded pair says about them.\<close>

definition waiters_ok :: "nat multiset \<Rightarrow> nat option \<times> nat \<Rightarrow> bool" where
  "waiters_ok W = (\<lambda>(single, n). n = size W \<and> (\<forall>w. single = Some w \<longrightarrow> set_mset W \<subseteq> {w}))"

definition wakes :: "pipe_event list \<Rightarrow> pipe_chan \<Rightarrow> nat \<Rightarrow> bool" where
  "wakes evs chan w \<longleftrightarrow> Wakeup chan \<in> set evs \<or> Wakeup_one w chan \<in> set evs"

definition end_waiters :: "bool \<Rightarrow> Pipe \<Rightarrow> nat option \<times> nat" where
  "end_waiters r p = (if r then (read_waiter p, read_waiter_count p) else (write_waiter p, write_waiter_count p))"

text \<open>C29. No wake-up is lost by the single-waiter shortcut: with the bookkeeping of
  \<open>note_waiter_locked\<close> and \<open>forget_waiter_locked\<close>, every task asleep on an end is covered by the
  wake-up that \<open>wake_waiters_locked\<close> sends to that end.\<close>

theorem no_lost_wakeup:
  assumes "waiters_ok W (end_waiters r p)"
  shows "waiters_ok (add_mset w W) (end_waiters r (note_waiter_locked r w p)) \<and>
    (w \<in># W \<longrightarrow> waiters_ok (W - {#w#}) (end_waiters r (forget_waiter_locked r w p))) \<and>
    (\<forall>v\<in>#W. wakes (fst (wake_waiters_locked r p)) (if r then Read_sleep else Write_sleep) v)"
proof -
  obtain single n where s: "end_waiters r p = (single, n)" by fastforce
  have W: "n = size W" "\<And>v. single = Some v \<Longrightarrow> set_mset W \<subseteq> {v}" using assms s by (auto simp: waiters_ok_def)
  have ops: "end_waiters r (note_waiter_locked r w p) = note_waiter w (single, n)"
    "end_waiters r (forget_waiter_locked r w p) = forget_waiter w (single, n)"
    using s by (auto simp: end_waiters_def note_waiter_locked_def forget_waiter_locked_def split: prod.splits if_splits)
  have "waiters_ok (add_mset w W) (note_waiter w (single, n))"
    using W by (auto simp: waiters_ok_def note_waiter_def)
  moreover have "waiters_ok (W - {#w#}) (forget_waiter w (single, n))" if "w \<in># W"
    using W that by (auto simp: waiters_ok_def forget_waiter_def size_Diff_singleton dest: in_diffD split: if_splits)
  moreover have "wakes (fst (wake_waiters_locked r p)) (if r then Read_sleep else Write_sleep) v" if "v \<in># W" for v
  proof -
    have "n \<noteq> 0" using that W(1) by auto
    moreover have "single = Some v" if "single \<noteq> None" using that W(2) \<open>v \<in># W\<close> by auto
    ultimately show ?thesis
      using s by (auto simp: end_waiters_def wakes_def wake_waiters_locked_def Let_def split: if_splits)
  qed
  ultimately show ?thesis unfolding ops by blast
qed

theorem no_lost_wakeup_witness:
  "waiters_ok {#5, 4#} (end_waiters True (note_waiter_locked True 5 (note_waiter_locked True 4 demo_pipe))) \<and>
   wakes (fst (wake_waiters_locked True (note_waiter_locked True 4 demo_pipe))) Read_sleep 4"
proof -
  have "waiters_ok {#4#} (end_waiters True (note_waiter_locked True 4 demo_pipe))"
    by (simp add: waiters_ok_def end_waiters_def note_waiter_locked_def note_waiter_def demo_pipe_def)
  from no_lost_wakeup [OF this, of 5] show ?thesis by simp
qed

text \<open>C31. Resizing a pipe to exactly the number of bytes it holds leaves \<open>_tail\<close> one past the end
  of the new buffer; after the next read, the byte-wise \<open>write\<close> then stores out of bounds.\<close>

theorem resize_then_write_overflows:
  assumes "pipe_inv p" "read_is_open p" "\<forall>n bs. new_bytes n = Some bs \<longrightarrow> length bs = n" "new_bytes (p_count p) \<noteq> None"
    and "min_pipe_size \<le> p_count p" "p_count p \<le> max_pipe_size" "copy_in addr 1 = Some [ch]"
  shows "\<exists>p' p'' evs. set_pipe_size new_bytes (p_count p) p = Some (p', int (p_count p)) \<and>
    pipe_read dst 1 True pr [] False False p' = Some (Returned p'' evs 1) \<and>
    pipe_write copy_in addr 1 True pr [] False p'' = None"
proof -
  obtain nb where "new_bytes (p_count p) = Some nb" using assms(4) by auto
  then obtain p' where p': "set_pipe_size new_bytes (p_count p) p = Some (p', int (p_count p))" "pipe_inv p'"
    "p_size p' = p_count p" "p_tail p' = p_count p" "p_count p' = p_count p" "read_is_open p'"
    using set_pipe_size_ok [OF assms(1), of new_bytes "p_count p" nb] assms by auto
  have pos: "0 < p_count p" using assms(5) by (simp add: min_pipe_size_def)
  obtain evs p'' where q: "read_copy dst 1 0 [] p' = Some (1, evs, p'')" "pipe_inv p''" "contents p'' = drop 1 (contents p')"
    "p_size p'' = p_size p'" "p_tail p'' = p_tail p'" "read_is_open p''"
    using read_copy_ok [OF p'(2), of 0 1 dst "[]"] p' pos by (auto simp: min_def)
  have cnt: "p_count p'' < p_count p" using q(3) p'(5) pos by (metis diff_less length_contents length_drop zero_less_one)
  have "pipe_read dst 1 True pr [] False False p' = Some (Returned p'' (evs @ fst (wake_waiters_locked False p'')) 1)"
    using q(1) p'(5) pos by (simp add: pipe_read_def read_wait_ready)
  moreover have "push ch p'' = None"
    using q(2,4,5) cnt p'(3,4) by (simp add: push_def is_full_def arr_set_def pipe_inv_def)
  then have "pipe_write copy_in addr 1 True pr [] False p'' = None"
    using q(4,6) cnt p'(3) pos assms(7) by (simp add: pipe_write_def pipe_write_loop.simps arr_get_def)
  ultimately show ?thesis using p'(1) by blast
qed

theorem resize_then_write_overflows_witness:
  "\<exists>p' p'' evs. set_pipe_size (\<lambda>n. Some (replicate n 0)) (p_count (demo_pipe\<lparr>p_buffer := replicate 256 7, p_size := 256,
        p_head := 0, p_tail := 0, p_count := 256\<rparr>)) (demo_pipe\<lparr>p_buffer := replicate 256 7, p_size := 256,
        p_head := 0, p_tail := 0, p_count := 256\<rparr>) = Some (p', int (p_count (demo_pipe\<lparr>p_buffer := replicate 256 7, p_size := 256,
        p_head := 0, p_tail := 0, p_count := 256\<rparr>))) \<and>
    pipe_read 500 1 True 3 [] False False p' = Some (Returned p'' evs 1) \<and>
    pipe_write (\<lambda>_ _. Some [9]) 100 1 True 3 [] False p'' = None"
  by (rule resize_then_write_overflows)
    (simp_all add: pipe_inv_def demo_pipe_def min_pipe_size_def max_pipe_size_def)

text \<open>C32. When a user page fault stops \<open>read_to_user\<close> after it took some bytes, it returns their
  number without waking the writers, although it made room for them.\<close>

theorem read_to_user_fault_no_wakeup:
  assumes "pipe_inv p" "c = read_chunk p (nat n)" "0 < c" "c < nat n" "c < p_count p"
    and "ensure addr c" "\<forall>k. \<not> ensure (addr + of_nat c) k" "\<forall>bs. copy_out addr bs"
  shows "\<exists>p' evs. read_to_user ensure copy_out addr n nonblock pr [quiet, quiet] killed pending p =
      Some (Returned p' evs (int c)) \<and> p_count p' = p_count p - c \<and> (\<forall>w. \<not> wakes evs Write_sleep w)"
proof -
  have "c \<le> p_count p" "c \<le> p_size p - p_head p" using read_chunk_fits [OF assms(1)] assms(2) by auto
  from take_chunk_ok [OF assms(1) this] obtain p' where p': "slice (p_buffer p) (p_head p) c = Some (take c (contents p))"
    "take_chunk c p = Some p'" "p_count p' = p_count p - c" by auto
  let ?evs = "[Copied_out addr (take c (contents p))]"
  have n: "0 < n" "int c < n" using assms(4) by linarith+
  have "read_to_user ensure copy_out addr n nonblock pr [quiet, quiet] killed pending p =
      read_to_user_loop ensure copy_out addr n nonblock pr [quiet] False False c ?evs p'"
    using assms p' n by (simp add: read_to_user_def read_wait_ready read_to_user_loop.simps [where i = 0] Let_def quiet_def)
  also have "\<dots> = Some (Returned p' ?evs (int c))"
    using assms(3,5,7) p'(3) n(2) by (simp add: read_to_user_loop.simps [where i = c] Let_def quiet_def count_or_def)
  finally show ?thesis using p'(3) by (simp add: wakes_def)
qed

theorem read_to_user_fault_no_wakeup_witness:
  "\<exists>p' evs. read_to_user (\<lambda>a k. a = 200) (\<lambda>_ _. True) 200 3 False 9 [quiet, quiet] False False demo_full =
      Some (Returned p' evs (int 1)) \<and> p_count p' = p_count demo_full - 1 \<and> (\<forall>w. \<not> wakes evs Write_sleep w)"
  by (rule read_to_user_fault_no_wakeup [OF demo_pipe_inv(2)])
    (simp_all add: read_chunk_def u32_sub_def demo_full_def demo_pipe_def)

end
