(* ===== verification/Time.thy ===== *)
theory Time
  imports Prelude
begin

text \<open>
  Time keeping: the conversions between hardware cycles and time units of \<open>src/kernel/tm/time.hh\<close>
  and the clocks of \<open>src/kernel/tm/timer_manager.cc\<close> (class \<open>TimerManager\<close>). The platform's
  counter (\<open>platform::clock_backend\<close>: its frequency and its current value) is an argument, as are
  the fields of the current task that the clocks read.
\<close>

section \<open>Types and constants\<close>

record timespec =
  tv_sec :: int
  tv_nsec :: int

record itimerspec =
  it_interval :: timespec
  it_value :: timespec

record timeval =
  tval_sec :: nat
  tval_usec :: nat

text \<open>The enumeration \<open>SystemClockId\<close>; \<open>CLOCK_OTHER\<close> stands for the values outside it, which
  user space can pass.\<close>

datatype SystemClockId =
    CLOCK_REALTIME | CLOCK_MONOTONIC | CLOCK_PROCESS_CPUTIME_ID | CLOCK_THREAD_CPUTIME_ID
  | CLOCK_MONOTONIC_RAW | CLOCK_REALTIME_COARSE | CLOCK_MONOTONIC_COARSE | CLOCK_BOOTTIME
  | CLOCK_REALTIME_ALARM | CLOCK_BOOTTIME_ALARM | CLOCK_SGI_CYCLE | CLOCK_TAI | CLOCK_OTHER

definition K_dec :: nat where "K_dec = 1000"
definition M_dec :: nat where "M_dec = K_dec * K_dec"
definition G_dec :: nat where "G_dec = M_dec * K_dec"
definition tick_period_us :: nat where "tick_period_us = 10 * K_dec"
definition k_nsec_per_sec :: int where "k_nsec_per_sec = 1000000000"

record hw_clock =
  frequency_hz :: nat
  read_ticks :: nat

text \<open>The fields of \<open>Pcb\<close> that the clocks read.\<close>

record task_times =
  user_ticks :: nat
  stime :: nat
  monotonic_offset_ns :: int
  boottime_offset_ns :: int

record TimerManager =
  g_realtime_offset_ns :: int
  trap_ticks :: nat

section \<open>Conversions\<close>

definition cycles_to_units :: "nat \<Rightarrow> nat \<Rightarrow> nat \<Rightarrow> nat" where
  "cycles_to_units freq cycles units_per_second =
     u64_add (u64_mul (cycles div freq) units_per_second) (u64_mul (cycles mod freq) units_per_second div freq)"

definition cycles_to_seconds :: "nat \<Rightarrow> nat \<Rightarrow> nat" where
  "cycles_to_seconds freq cycles = cycles_to_units freq cycles 1"

definition cycles_to_milliseconds :: "nat \<Rightarrow> nat \<Rightarrow> nat" where
  "cycles_to_milliseconds freq cycles = cycles_to_units freq cycles K_dec"

definition cycles_to_microseconds :: "nat \<Rightarrow> nat \<Rightarrow> nat" where
  "cycles_to_microseconds freq cycles = cycles_to_units freq cycles M_dec"

definition cycles_to_nanoseconds :: "nat \<Rightarrow> nat \<Rightarrow> nat" where
  "cycles_to_nanoseconds freq cycles = cycles_to_units freq cycles G_dec"

definition microseconds_to_cycles :: "nat \<Rightarrow> nat \<Rightarrow> nat" where
  "microseconds_to_cycles freq usec =
     u64_add (u64_mul (usec div M_dec) freq) (u64_mul (usec mod M_dec) freq div M_dec)"

definition time_stamp_to_usec :: "nat \<Rightarrow> nat \<Rightarrow> nat" where
  "time_stamp_to_usec freq ts = cycles_to_microseconds freq ts"

definition usec_to_time_stamp :: "nat \<Rightarrow> nat \<Rightarrow> nat" where
  "usec_to_time_stamp freq us = microseconds_to_cycles freq us"

text \<open>\<open>(x + 3) & ~3\<close> clears the two low bits.\<close>

definition cycles_per_tick :: "nat \<Rightarrow> nat" where
  "cycles_per_tick freq =
     (let x = u64_add (microseconds_to_cycles freq tick_period_us) 3 in x - x mod 4)"

definition cycles_to_ns :: "nat \<Rightarrow> nat \<Rightarrow> int" where
  "cycles_to_ns freq cycles =
     to_s64 (u64_add (u64_mul (cycles div freq) (nat k_nsec_per_sec))
                     (u64_mul (cycles mod freq) (nat k_nsec_per_sec) div freq))"

definition ns_to_timespec :: "int \<Rightarrow> timespec" where
  "ns_to_timespec ns =
     (let sec = cdiv ns k_nsec_per_sec; nsec = cmod ns k_nsec_per_sec
      in if nsec < 0 then \<lparr>tv_sec = sec - 1, tv_nsec = nsec + k_nsec_per_sec\<rparr>
         else \<lparr>tv_sec = sec, tv_nsec = nsec\<rparr>)"

text \<open>The inner \<^const>\<open>None\<close> is the result \<open>false\<close>, the outer one the signed overflow of the sum.\<close>

definition timespec_to_ns_checked :: "timespec \<Rightarrow> int option option" where
  "timespec_to_ns_checked ts =
     (if tv_sec ts < 0 \<or> tv_nsec ts < 0 \<or> k_nsec_per_sec \<le> tv_nsec ts then Some None
      else if (2 ^ 63 - 1) div k_nsec_per_sec < tv_sec ts then Some None
      else do {
        ns \<leftarrow> s64_add (tv_sec ts * k_nsec_per_sec) (tv_nsec ts);
        Some (Some ns)
      })"

definition realtime_now_ns_locked :: "hw_clock \<Rightarrow> TimerManager \<Rightarrow> int option" where
  "realtime_now_ns_locked hw tm = s64_add (cycles_to_ns (frequency_hz hw) (read_ticks hw)) (g_realtime_offset_ns tm)"

definition apply_time_namespace_offset :: "'a task_times_scheme option \<Rightarrow> SystemClockId \<Rightarrow> int \<Rightarrow> int option" where
  "apply_time_namespace_offset pcb clockid ns =
     (case pcb of
        None \<Rightarrow> Some ns
      | Some p \<Rightarrow>
          if clockid \<in> {CLOCK_MONOTONIC, CLOCK_MONOTONIC_RAW, CLOCK_MONOTONIC_COARSE}
          then s64_add ns (monotonic_offset_ns p)
          else if clockid \<in> {CLOCK_BOOTTIME, CLOCK_BOOTTIME_ALARM}
          then s64_add ns (boottime_offset_ns p)
          else Some ns)"

definition cycles_to_timespec :: "nat \<Rightarrow> nat \<Rightarrow> nat \<Rightarrow> timespec" where
  "cycles_to_timespec freq cycles sec_base =
     \<lparr>tv_sec = to_s64 (u64_add sec_base (cycles div freq)),
      tv_nsec = to_s64 (u64_mul (cycles mod freq) G_dec div freq)\<rparr>"

section \<open>The clocks\<close>

definition tm_init :: "TimerManager \<Rightarrow> TimerManager" where
  "tm_init tm = tm\<lparr>trap_ticks := 0\<rparr>"

text \<open>The CPU time of a task, as \<open>clock_gettime\<close> and the POSIX timers compute it.\<close>

definition cpu_time :: "nat \<Rightarrow> 'a task_times_scheme \<Rightarrow> timespec" where
  "cpu_time freq p =
     (let user_time_cycles = u64_mul (user_ticks p) (cycles_per_tick freq);
          user_time_sec = user_time_cycles div freq;
          user_time_nsec = u64_mul (user_time_cycles mod freq) 1000000000 div freq;
          total_sec = u64_add user_time_sec (stime p div 1000000);
          total_nsec = u64_add user_time_nsec (u64_mul (stime p mod 1000000) 1000);
          (total_sec, total_nsec) =
            (if 1000000000 \<le> total_nsec
             then (u64_add total_sec (total_nsec div 1000000000), total_nsec mod 1000000000)
             else (total_sec, total_nsec));
          total_nsec = (if total_sec = 0 \<and> total_nsec = 0 then 1 else total_nsec)
      in \<lparr>tv_sec = to_s64 total_sec, tv_nsec = to_s64 total_nsec\<rparr>)"

text \<open>\<open>clock_gettime\<close>: the return code, and the time when it is 0. \<open>tp_null\<close>: the output
  pointer is null. A signed overflow is \<^const>\<open>None\<close>.\<close>

definition clock_gettime ::
  "hw_clock \<Rightarrow> 'a task_times_scheme option \<Rightarrow> TimerManager \<Rightarrow> SystemClockId \<Rightarrow> bool \<Rightarrow> (int \<times> timespec option) option" where
  "clock_gettime hw cur tm cid tp_null =
     (if tp_null then Some (-1, None)
      else if cid \<in> {CLOCK_REALTIME, CLOCK_REALTIME_COARSE, CLOCK_REALTIME_ALARM, CLOCK_TAI} then do {
        ns \<leftarrow> realtime_now_ns_locked hw tm;
        Some (0, Some (ns_to_timespec ns))
      }
      else if cid \<in> {CLOCK_MONOTONIC, CLOCK_MONOTONIC_RAW, CLOCK_MONOTONIC_COARSE, CLOCK_BOOTTIME, CLOCK_BOOTTIME_ALARM} then do {
        ns \<leftarrow> apply_time_namespace_offset cur cid (cycles_to_ns (frequency_hz hw) (read_ticks hw));
        Some (0, Some (ns_to_timespec ns))
      }
      else if cid \<in> {CLOCK_PROCESS_CPUTIME_ID, CLOCK_THREAD_CPUTIME_ID} then
        (case cur of None \<Rightarrow> Some (-22, None) | Some p \<Rightarrow> Some (0, Some (cpu_time (frequency_hz hw) p)))
      else if cid = CLOCK_SGI_CYCLE then Some (0, Some (cycles_to_timespec (frequency_hz hw) (read_ticks hw) 0))
      else Some (-22, None))"

definition get_time_val :: "hw_clock \<Rightarrow> TimerManager \<Rightarrow> timeval option" where
  "get_time_val hw tm = do {
     (r, ts) \<leftarrow> clock_gettime hw (None :: task_times option) tm CLOCK_REALTIME False;
     ts \<leftarrow> ts;
     Some \<lparr>tval_sec = to_u64 (tv_sec ts), tval_usec = to_u64 (cdiv (tv_nsec ts) 1000)\<rparr>
   }"

definition clock_settime_validate :: "SystemClockId \<Rightarrow> timespec option \<Rightarrow> int option" where
  "clock_settime_validate clockid tp =
     (case tp of
        None \<Rightarrow> Some (-22)
      | Some ts \<Rightarrow>
          if clockid \<noteq> CLOCK_REALTIME then Some (-22)
          else do {
            r \<leftarrow> timespec_to_ns_checked ts;
            Some (if r = None then -22 else 0)
          })"

definition clock_settime :: "hw_clock \<Rightarrow> SystemClockId \<Rightarrow> timespec option \<Rightarrow> TimerManager \<Rightarrow> (TimerManager \<times> int) option" where
  "clock_settime hw clockid tp tm = do {
     validate_ret \<leftarrow> clock_settime_validate clockid tp;
     if validate_ret < 0 then Some (tm, validate_ret)
     else do {
       ts \<leftarrow> tp;
       r \<leftarrow> timespec_to_ns_checked ts;
       let requested_ns = (case r of None \<Rightarrow> 0 | Some ns \<Rightarrow> ns);
           monotonic_ns = cycles_to_ns (frequency_hz hw) (read_ticks hw)
       in do {
         off \<leftarrow> s64_add requested_ns (- monotonic_ns);
         Some (tm\<lparr>g_realtime_offset_ns := off\<rparr>, 0)
       }
     }
   }"

text \<open>The projections \<open>clock_gettime_sec\<close>, \<open>_nsec\<close> and \<open>_msec\<close> convert to \<open>int\<close>.\<close>

definition clock_gettime_sec :: "hw_clock \<Rightarrow> 'a task_times_scheme option \<Rightarrow> TimerManager \<Rightarrow> SystemClockId \<Rightarrow> int option" where
  "clock_gettime_sec hw cur tm cid = do {
     (ret, ts) \<leftarrow> clock_gettime hw cur tm cid False;
     Some (if ret = 0 then to_s32 (tv_sec (the ts)) else -1)
   }"

definition clock_gettime_nsec :: "hw_clock \<Rightarrow> 'a task_times_scheme option \<Rightarrow> TimerManager \<Rightarrow> SystemClockId \<Rightarrow> int option" where
  "clock_gettime_nsec hw cur tm cid = do {
     (ret, ts) \<leftarrow> clock_gettime hw cur tm cid False;
     Some (if ret = 0 then to_s32 (tv_nsec (the ts)) else -1)
   }"

definition clock_gettime_msec :: "hw_clock \<Rightarrow> 'a task_times_scheme option \<Rightarrow> TimerManager \<Rightarrow> SystemClockId \<Rightarrow> int option" where
  "clock_gettime_msec hw cur tm cid = do {
     (ret, ts) \<leftarrow> clock_gettime hw cur tm cid False;
     if ret = 0 then do {
       ms \<leftarrow> s64_add (tv_sec (the ts) * 1000) (cdiv (tv_nsec (the ts)) 1000000);
       if in_s64 (tv_sec (the ts) * 1000) then Some (to_s32 ms) else None
     }
     else Some (-1)
   }"

section \<open>Sleeping\<close>

text \<open>
  \<open>sleep_n_ticks\<close>: each time the task is woken it looks at the tick counter again; an element of
  the list is the counter, the pending flag and the killed flag at that moment, and the head is the
  first look. \<open>Inl\<close> is a return value, \<open>Inr\<close> means that the task is asleep when the list ends.
  The difference of the two \<open>int\<close> conversions is undefined when it overflows.
\<close>

fun sleep_loop :: "nat \<Rightarrow> int \<Rightarrow> (nat \<times> bool \<times> bool) list \<Rightarrow> (int + unit) option" where
  "sleep_loop start n [] = Some (Inr ())"
| "sleep_loop start n ((now, pending, killed) # looks) =
     (let d = to_s32 (int now) - to_s32 (int start)
      in if d < - (2 ^ 31) \<or> 2 ^ 31 \<le> d then None
         else if d < n then
           (if pending then Some (Inl (-4)) else if killed then Some (Inl (-2)) else sleep_loop start n looks)
         else Some (Inl 0))"

definition sleep_n_ticks :: "int \<Rightarrow> (nat \<times> bool \<times> bool) list \<Rightarrow> (int + unit) option" where
  "sleep_n_ticks n looks =
     (if n < 0 then Some (Inl (-1))
      else case looks of [] \<Rightarrow> Some (Inr ()) | (start, _, _) # _ \<Rightarrow> sleep_loop start n looks)"

definition sleep_from_tv :: "hw_clock \<Rightarrow> timeval \<Rightarrow> (nat \<times> bool \<times> bool) list \<Rightarrow> (int + unit) option" where
  "sleep_from_tv hw tv looks =
     (let n = u64_mul (tval_sec tv) (frequency_hz hw);
          cpt = cycles_per_tick (frequency_hz hw);
          n = u64_add n (usec_to_time_stamp (frequency_hz hw) (tval_usec tv));
          n = n div cpt;
          n = (if n = 0 then 1 else n)
      in sleep_n_ticks (to_s32 (int n)) looks)"

end
