(* ===== verification/Task.thy ===== *)
theory Task
  imports Time
begin

text \<open>
  The process control block of \<open>src/kernel/proc/proc.hh\<close> (class \<open>Pcb\<close>), as far as the modelled
  components read or write it: scheduling state, identity, credentials, capability words, interval
  timers and CPU accounting. The process pool \<open>k_proc_pool\<close> is a list and a \<open>Pcb *\<close> an index
  into it.
\<close>

datatype ProcState = UNUSED | USED | SLEEPING | RUNNABLE | RUNNING | STOPPED | ZOMBIE

record interval_timer_state =
  it_armed :: bool
  interval_us :: nat
  expiry_us :: nat

record Pcb = task_times +
  pcb_state :: ProcState
  pid :: int
  tid :: int
  tgid :: int
  last_cpu :: int
  kernel_entry_tick :: nat
  continued_pending :: bool
  uid :: u32
  euid :: u32
  suid :: u32
  cap_effective :: "u32 list"
  cap_permitted :: "u32 list"
  cap_inheritable :: "u32 list"
  cap_ambient :: "u32 list"
  cap_bounding :: "u32 list"
  itimer :: "interval_timer_state list"

definition k_interval_timer_count :: nat where "k_interval_timer_count = 3"

text \<open>A sample task, for concrete instances.\<close>

definition demo_pcb :: Pcb where
  "demo_pcb = \<lparr>user_ticks = 7, stime = 3, monotonic_offset_ns = 0, boottime_offset_ns = 0,
     pcb_state = SLEEPING, pid = 12, tid = 12, tgid = 12, last_cpu = 1, kernel_entry_tick = 0, continued_pending = False,
     uid = 1000, euid = 1000, suid = 1000, cap_effective = [4, 0], cap_permitted = [0xfff, 0], cap_inheritable = [0, 0],
     cap_ambient = [0, 0], cap_bounding = [0xffffffff, 0x1ff],
     itimer = [\<lparr>it_armed = True, interval_us = 100, expiry_us = 950\<rparr>,
               \<lparr>it_armed = False, interval_us = 0, expiry_us = 0\<rparr>, \<lparr>it_armed = False, interval_us = 0, expiry_us = 0\<rparr>]\<rparr>"

end
