(* ===== verification/Capability.thy ===== *)
theory Capability
  imports Task
begin

text \<open>
  The capabilities of a task, \<open>src/kernel/proc/capability.cc\<close> (class \<open>CapabilityManager\<close>): the
  two-word bit sets, the rules for a change of user identity, and the lookup and inspection rights.
\<close>

definition k_capability_word_count :: nat where "k_capability_word_count = 2"
definition k_capability_max :: u32 where "k_capability_max = 40"
definition k_version_1 :: u32 where "k_version_1 = 0x19980330"
definition k_version_2 :: u32 where "k_version_2 = 0x20071026"
definition k_version_3 :: u32 where "k_version_3 = 0x20080522"

definition user_data_words :: "u32 \<Rightarrow> nat" where
  "user_data_words version =
     (if version = k_version_1 then 1
      else if version = k_version_2 \<or> version = k_version_3 then k_capability_word_count
      else 0)"

definition is_valid_capability :: "u32 \<Rightarrow> bool" where
  "is_valid_capability capability \<longleftrightarrow> capability \<le> k_capability_max"

definition has_bit :: "u32 list \<Rightarrow> u32 \<Rightarrow> bool option" where
  "has_bit words capability =
     (if \<not> is_valid_capability capability then Some False
      else do {
        w \<leftarrow> arr_get words (unat (capability div 32));
        Some (w AND push_bit (unat (capability mod 32)) 1 \<noteq> 0)
      })"

definition has_effective :: "'a Pcb_scheme option \<Rightarrow> u32 \<Rightarrow> bool option" where
  "has_effective task capability =
     (case task of None \<Rightarrow> Some False | Some t \<Rightarrow> has_bit (cap_effective t) capability)"

definition zero_words :: "u32 list" where
  "zero_words = replicate k_capability_word_count 0"

definition clear_all :: "'a Pcb_scheme \<Rightarrow> 'a Pcb_scheme" where
  "clear_all task = task\<lparr>cap_effective := zero_words, cap_permitted := zero_words, cap_inheritable := zero_words,
     cap_ambient := zero_words, cap_bounding := zero_words\<rparr>"

definition init_root :: "'a Pcb_scheme \<Rightarrow> 'a Pcb_scheme" where
  "init_root task = task\<lparr>cap_effective := [0xffffffff, 0x1ff], cap_permitted := [0xffffffff, 0x1ff],
     cap_inheritable := [0, 0], cap_ambient := [0, 0], cap_bounding := [0xffffffff, 0x1ff]\<rparr>"

text \<open>A null task is left alone.\<close>

definition update_after_uid_change :: "u32 \<Rightarrow> u32 \<Rightarrow> u32 \<Rightarrow> 'a Pcb_scheme option \<Rightarrow> 'a Pcb_scheme option" where
  "update_after_uid_change old_uid old_euid old_suid p =
     (case p of
        None \<Rightarrow> None
      | Some task \<Rightarrow>
          let had_root_identity = (old_uid = 0 \<or> old_euid = 0 \<or> old_suid = 0);
              has_root_identity = (uid task = 0 \<or> euid task = 0 \<or> suid task = 0)
          in Some
            (if had_root_identity \<and> \<not> has_root_identity
             then task\<lparr>cap_permitted := zero_words, cap_effective := zero_words, cap_ambient := zero_words\<rparr>
             else if old_euid = 0 \<and> euid task \<noteq> 0 then task\<lparr>cap_effective := zero_words\<rparr>
             else if old_euid \<noteq> 0 \<and> euid task = 0 then task\<lparr>cap_effective := cap_permitted task\<rparr>
             else task))"

text \<open>The first live task with the given number as process or thread id.\<close>

definition find_live_task_by_pid_or_tid :: "'a Pcb_scheme list \<Rightarrow> int \<Rightarrow> nat option" where
  "find_live_task_by_pid_or_tid pool n =
     List.find (\<lambda>i. pcb_state (pool ! i) \<noteq> UNUSED \<and> (pid (pool ! i) = n \<or> tid (pool ! i) = n)) [0..<length pool]"

text \<open>\<open>current\<close> and \<open>target\<close> are tasks with their identity (their index).\<close>

definition may_inspect :: "(nat \<times> 'a Pcb_scheme) option \<Rightarrow> (nat \<times> 'a Pcb_scheme) option \<Rightarrow> bool" where
  "may_inspect current target =
     (case (current, target) of
        (Some (c, cur), Some (t, tgt)) \<Rightarrow>
          c = t \<or> euid cur = 0 \<or> (uid cur = uid tgt \<and> euid cur = euid tgt)
      | _ \<Rightarrow> False)"

section \<open>Capability sets\<close>

text \<open>The set of capabilities two words stand for.\<close>

definition caps :: "u32 list \<Rightarrow> nat set" where
  "caps ws = {c. c \<le> 40 \<and> bit (ws ! (c div 32)) (c mod 32)}"

definition words_ok :: "u32 list \<Rightarrow> bool" where
  "words_ok ws \<longleftrightarrow> length ws = k_capability_word_count"

definition caps_inv :: "'a Pcb_scheme \<Rightarrow> bool" where
  "caps_inv t \<longleftrightarrow> words_ok (cap_effective t) \<and> words_ok (cap_permitted t) \<and> words_ok (cap_inheritable t) \<and>
     words_ok (cap_ambient t) \<and> words_ok (cap_bounding t) \<and> caps (cap_effective t) \<subseteq> caps (cap_permitted t)"

lemma caps_zero [simp]: "caps zero_words = {}"
proof -
  have "zero_words ! (c div 32) = 0" if "c \<le> 40" for c :: nat
    using that by (cases "c < 32") (auto simp: zero_words_def k_capability_word_count_def nth_Cons' numeral_2_eq_2)
  then show ?thesis by (auto simp: caps_def)
qed

lemma has_bit_caps:
  assumes "words_ok ws"
  shows "has_bit ws c = Some (unat c \<in> caps ws)"
proof (cases "c \<le> 40")
  case True
  then have c: "unat c \<le> 40" by (simp add: word_le_nat_alt)
  then have "unat c div 32 < length ws"
    using assms by (simp add: words_ok_def k_capability_word_count_def)
  then show ?thesis
    using True c by (simp add: has_bit_def is_valid_capability_def k_capability_max_def caps_def array_simps
        unat_div unat_mod and_exp_eq_0_iff_not_bit push_bit_of_1)
next
  case False
  then have "\<not> unat c \<le> 40" by (simp add: word_le_nat_alt)
  with False show ?thesis by (simp add: has_bit_def is_valid_capability_def k_capability_max_def caps_def)
qed

lemma caps_root: "caps [0xffffffff, 0x1ff] = {..40}"
proof -
  have "bit ([0xffffffff, 0x1ff :: u32] ! (c div 32)) (c mod 32)" if "c \<le> 40" for c :: nat
  proof -
    have "\<forall>c\<in>set [0..<41]. bit ([0xffffffff, 0x1ff :: u32] ! (c div 32)) (c mod 32)" by code_simp
    then show ?thesis using that by auto
  qed
  then show ?thesis by (auto simp: caps_def)
qed

text \<open>C40. The credential rules: a task set up as root holds exactly the capabilities 0 to 40; every
  operation keeps the effective set inside the permitted one; giving up the last root identity gives up
  all permitted and effective capabilities; a change of the effective user to or from root raises or
  drops the effective set accordingly; nothing else changes them.\<close>

theorem capability_rules:
  assumes "caps_inv t"
  shows "let t' = the (update_after_uid_change old_uid old_euid old_suid (Some t))
    in update_after_uid_change old_uid old_euid old_suid (Some t) = Some t' \<and> caps_inv (clear_all t) \<and> caps_inv (init_root t) \<and> caps_inv t' \<and>
    has_effective (Some (init_root t)) c = Some (unat c \<le> 40) \<and> has_effective (Some (clear_all t)) c = Some False \<and>
    (if (old_uid = 0 \<or> old_euid = 0 \<or> old_suid = 0) \<and> uid t \<noteq> 0 \<and> euid t \<noteq> 0 \<and> suid t \<noteq> 0
     then caps (cap_effective t') = {} \<and> caps (cap_permitted t') = {} \<and> caps (cap_ambient t') = {}
     else caps (cap_permitted t') = caps (cap_permitted t) \<and>
       caps (cap_effective t') = (if old_euid = 0 \<and> euid t \<noteq> 0 then {}
         else if old_euid \<noteq> 0 \<and> euid t = 0 then caps (cap_permitted t) else caps (cap_effective t)))"
proof -
  have z: "words_ok zero_words" "words_ok [0, 0]" "words_ok [0xffffffff, 0x1ff]"
    by (simp_all add: words_ok_def zero_words_def k_capability_word_count_def)
  show ?thesis
    using assms(1) z unfolding Let_def
    by (auto simp: caps_inv_def clear_all_def init_root_def update_after_uid_change_def has_effective_def has_bit_caps
        caps_root Let_def)
qed

lemma demo_pcb_caps: "caps_inv (demo_pcb\<lparr>euid := 0\<rparr>)"
proof -
  have "\<forall>c\<in>set [0..<41]. bit ([4, 0 :: u32] ! (c div 32)) (c mod 32) \<longrightarrow> bit ([0xfff, 0 :: u32] ! (c div 32)) (c mod 32)"
    by code_simp
  then have "caps [4, 0] \<subseteq> caps [0xfff, 0]" by (auto simp: caps_def)
  then show ?thesis by (simp add: caps_inv_def demo_pcb_def words_ok_def k_capability_word_count_def)
qed

theorem capability_rules_witness:
  "let t = demo_pcb\<lparr>euid := 0\<rparr>; t' = the (update_after_uid_change 1000 1000 1000 (Some t))
    in caps_inv t' \<and> caps (cap_effective t') = caps (cap_permitted t)"
  using capability_rules [OF demo_pcb_caps, of 1000 1000 1000 0] by (simp add: Let_def)

end
