(* ===== verification/Posix_Timers.thy ===== *)
theory Posix_Timers
  imports Capability
begin

text \<open>
  The timers of \<open>src/kernel/proc/posix_timers.cc\<close>: the three interval timers of each task
  (\<open>setitimer\<close>) and the 32 global slots of \<open>timer_create\<close>, both scanned by the clock interrupt.

  The state is the process pool, the slots and the two counters of armed timers that let the
  interrupt skip the scans. The hardware counter, the clocks and the current task are arguments
  (\<open>timer_env\<close>). Whether a task has an unmasked signal pending, which \<open>interrupt_sleep_for_signal\<close>
  asks the signal code, is a predicate of that environment. \<open>futex_remove_waiter\<close>, called while the
  lock of a task is held, gives up that lock and takes it again: what the other processors make of the
  timers and of the tasks in between, that task and the counters included, is the function
  \<open>env_after_remove\<close> of the environment. Signals, removals from wait queues and inter-processor kicks are recorded as events.
  Times are unbounded integers here: the sums of seconds that user space can make overflow are
  checked where they are formed (\<open>Timer_Syscalls\<close>).
\<close>

section \<open>State\<close>

record sigevent =
  sigev_notify :: int
  sigev_signo :: int
  sival_ptr :: nat
  sigev_notify_thread_id :: int

record extended_posix_timer =
  timer_id :: int
  timer_clock :: SystemClockId
  timer_owner :: "nat option"
  timer_event :: sigevent
  timer_active :: bool
  timer_armed :: bool
  timer_overrun :: int
  timer_spec :: itimerspec
  expiry_time :: timespec

record timers =
  proc_pool :: "Pcb list"
  g_timers :: "extended_posix_timer list"
  g_next_timer_id :: int
  g_timers_initialized :: bool
  g_armed_posix_timers :: nat
  g_armed_realtime_interval_timers :: nat

record timer_env =
  env_hw :: hw_clock
  env_tm :: TimerManager
  env_current :: "nat option"
  env_unmasked :: "nat \<Rightarrow> bool"
  env_after_remove :: "nat \<Rightarrow> timers \<Rightarrow> timers"

datatype timer_event =
    T_add_signal nat int
  | T_add_signal_info nat int nat
  | T_futex_remove nat
  | T_kick_cpu int

definition k_interval_timer_real :: int where "k_interval_timer_real = 0"
definition k_interval_timer_virtual :: int where "k_interval_timer_virtual = 1"
definition k_interval_timer_prof :: int where "k_interval_timer_prof = 2"
definition k_sigev_signal :: int where "k_sigev_signal = 0"
definition k_sigev_thread_id :: int where "k_sigev_thread_id = 4"
definition SIGKILL :: int where "SIGKILL = 9"
definition SIGALRM :: int where "SIGALRM = 14"
definition SIGCONT :: int where "SIGCONT = 18"
definition SIGVTALRM :: int where "SIGVTALRM = 26"
definition SIGPROF :: int where "SIGPROF = 27"
definition SIGRTMAX :: int where "SIGRTMAX = 64"

definition zero_timespec :: timespec where
  "zero_timespec = \<lparr>tv_sec = 0, tv_nsec = 0\<rparr>"

text \<open>\<open>timer = {}\<close>\<close>

definition zero_timer :: extended_posix_timer where
  "zero_timer = \<lparr>timer_id = 0, timer_clock = CLOCK_REALTIME, timer_owner = None,
     timer_event = \<lparr>sigev_notify = 0, sigev_signo = 0, sival_ptr = 0, sigev_notify_thread_id = 0\<rparr>,
     timer_active = False, timer_armed = False, timer_overrun = 0,
     timer_spec = \<lparr>it_interval = zero_timespec, it_value = zero_timespec\<rparr>, expiry_time = zero_timespec\<rparr>"

definition note_realtime_interval_timer_armed :: "int \<Rightarrow> timers \<Rightarrow> timers" where
  "note_realtime_interval_timer_armed which s =
     (if which = k_interval_timer_real
      then s\<lparr>g_armed_realtime_interval_timers := u32_add (g_armed_realtime_interval_timers s) 1\<rparr> else s)"

definition note_realtime_interval_timer_disarmed :: "int \<Rightarrow> timers \<Rightarrow> timers" where
  "note_realtime_interval_timer_disarmed which s =
     (if which = k_interval_timer_real
      then s\<lparr>g_armed_realtime_interval_timers := u32_sub (g_armed_realtime_interval_timers s) 1\<rparr> else s)"

section \<open>Arithmetic on times\<close>

definition timespec_less_or_equal :: "timespec \<Rightarrow> timespec \<Rightarrow> bool" where
  "timespec_less_or_equal lhs rhs \<longleftrightarrow>
     tv_sec lhs < tv_sec rhs \<or> (tv_sec lhs = tv_sec rhs \<and> tv_nsec lhs \<le> tv_nsec rhs)"

definition UINT64_MAX :: nat where "UINT64_MAX = 2 ^ 64 - 1"

definition seconds_and_nanos :: "nat \<Rightarrow> nat \<Rightarrow> nat" where
  "seconds_and_nanos seconds nanos =
     (if (UINT64_MAX - nanos) div 1000000000 < seconds then UINT64_MAX
      else u64_add (u64_mul seconds 1000000000) nanos)"

definition timespec_delta_ns :: "timespec \<Rightarrow> timespec \<Rightarrow> nat" where
  "timespec_delta_ns later earlier =
     (if \<not> timespec_less_or_equal earlier later then 0
      else let seconds = to_u64 (tv_sec later - tv_sec earlier);
               nanoseconds = tv_nsec later - tv_nsec earlier
           in if nanoseconds < 0 then
                (if seconds = 0 then 0
                 else seconds_and_nanos (seconds - 1) (to_u64 (nanoseconds + 1000000000)))
              else seconds_and_nanos seconds (to_u64 nanoseconds))"

definition timespec_interval_ns :: "timespec \<Rightarrow> nat" where
  "timespec_interval_ns interval =
     (if tv_sec interval < 0 \<or> tv_nsec interval < 0 then 0
      else seconds_and_nanos (to_u64 (tv_sec interval)) (to_u64 (tv_nsec interval)))"

definition timespec_add_ns :: "timespec \<Rightarrow> nat \<Rightarrow> timespec" where
  "timespec_add_ns base nanoseconds =
     (let sec = tv_sec base + to_s64 (nanoseconds div 1000000000);
          nsec = tv_nsec base + to_s64 (nanoseconds mod 1000000000)
      in if 1000000000 \<le> nsec then \<lparr>tv_sec = sec + 1, tv_nsec = nsec - 1000000000\<rparr>
         else \<lparr>tv_sec = sec, tv_nsec = nsec\<rparr>)"

definition ticks_to_usec :: "nat \<Rightarrow> nat \<Rightarrow> nat" where
  "ticks_to_usec freq ticks = time_stamp_to_usec freq (u64_mul ticks (cycles_per_tick freq))"

definition realtime_now_usec :: "timer_env \<Rightarrow> nat" where
  "realtime_now_usec e = time_stamp_to_usec (frequency_hz (env_hw e)) (read_ticks (env_hw e))"

definition is_cpu_clock :: "SystemClockId \<Rightarrow> bool" where
  "is_cpu_clock clockid \<longleftrightarrow> clockid = CLOCK_PROCESS_CPUTIME_ID \<or> clockid = CLOCK_THREAD_CPUTIME_ID"

definition read_task_cpu_clock :: "timer_env \<Rightarrow> timers \<Rightarrow> nat option \<Rightarrow> timespec option option" where
  "read_task_cpu_clock e s owner =
     (case owner of
        None \<Rightarrow> Some None
      | Some i \<Rightarrow> do {
          p \<leftarrow> arr_get (proc_pool s) i;
          Some (if pcb_state p = UNUSED then None else Some (cpu_time (frequency_hz (env_hw e)) p))
        })"

text \<open>The outer option is the fault, the inner one the result \<open>false\<close>.\<close>

definition read_posix_timer_clock :: "timer_env \<Rightarrow> timers \<Rightarrow> extended_posix_timer \<Rightarrow> timespec option option" where
  "read_posix_timer_clock e s timer =
     (if is_cpu_clock (timer_clock timer) then read_task_cpu_clock e s (timer_owner timer)
      else do {
        cur \<leftarrow> (case env_current e of None \<Rightarrow> Some None | Some i \<Rightarrow> do { p \<leftarrow> arr_get (proc_pool s) i; Some (Some p) });
        (r, ts) \<leftarrow> clock_gettime (env_hw e) cur (env_tm e) (timer_clock timer) False;
        Some (if r = 0 then ts else None)
      })"

section \<open>Interval timers\<close>

definition is_valid_interval_timer_kind :: "int \<Rightarrow> bool" where
  "is_valid_interval_timer_kind which \<longleftrightarrow> 0 \<le> which \<and> which < int k_interval_timer_count"

definition timer_signal_for_kind :: "int \<Rightarrow> int" where
  "timer_signal_for_kind which =
     (if which = k_interval_timer_real then SIGALRM
      else if which = k_interval_timer_virtual then SIGVTALRM
      else if which = k_interval_timer_prof then SIGPROF
      else -1)"

definition interval_timer_now_usec :: "timer_env \<Rightarrow> timers \<Rightarrow> nat \<Rightarrow> int \<Rightarrow> nat option" where
  "interval_timer_now_usec e s i which = do {
     p \<leftarrow> arr_get (proc_pool s) i;
     let freq = frequency_hz (env_hw e)
     in Some
       (if which = k_interval_timer_real then realtime_now_usec e
        else if which = k_interval_timer_virtual then ticks_to_usec freq (user_ticks p)
        else if which = k_interval_timer_prof then
          (let total_ticks = u64_add (user_ticks p) (stime p);
               total_ticks = (if env_current e = Some i \<and> 0 < kernel_entry_tick p
                              then u64_add total_ticks (u64_sub (trap_ticks (env_tm e)) (kernel_entry_tick p))
                              else total_ticks)
           in ticks_to_usec freq total_ticks)
        else 0)
   }"

text \<open>\<open>ProcessManager::interrupt_sleep_for_signal\<close>: wakes a task sleeping with an unmasked signal. The
  state of the task is read again once \<open>futex_remove_waiter\<close> has its lock back.\<close>

definition interrupt_sleep_for_signal :: "timer_env \<Rightarrow> nat \<Rightarrow> timers \<Rightarrow> (timers \<times> bool \<times> timer_event list) option" where
  "interrupt_sleep_for_signal e i s = do {
     p \<leftarrow> arr_get (proc_pool s) i;
     if pcb_state p \<noteq> SLEEPING \<or> \<not> env_unmasked e i then Some (s, False, [])
     else do {
       s \<leftarrow> Some (env_after_remove e i s);
       p \<leftarrow> arr_get (proc_pool s) i;
       if pcb_state p \<noteq> SLEEPING then Some (s, False, [T_futex_remove i])
       else do {
         pool \<leftarrow> arr_set (proc_pool s) i (p\<lparr>pcb_state := RUNNABLE\<rparr>);
         Some (s\<lparr>proc_pool := pool\<rparr>, True, [T_futex_remove i])
       }
     }
   }"

definition kick_last_cpu :: "nat \<Rightarrow> timers \<Rightarrow> timer_event list option" where
  "kick_last_cpu i s = do {
     p \<leftarrow> arr_get (proc_pool s) i;
     Some (if 0 \<le> last_cpu p then [T_kick_cpu (last_cpu p)] else [])
   }"

definition set_itimer :: "nat \<Rightarrow> int \<Rightarrow> interval_timer_state \<Rightarrow> timers \<Rightarrow> timers option" where
  "set_itimer i which t s = do {
     p \<leftarrow> arr_get (proc_pool s) i;
     ts \<leftarrow> arr_set (itimer p) (nat which) t;
     pool \<leftarrow> arr_set (proc_pool s) i (p\<lparr>itimer := ts\<rparr>);
     Some (s\<lparr>proc_pool := pool\<rparr>)
   }"

text \<open>\<open>do expiry_us += interval_us while (expiry_us <= now_us)\<close>: with a wrap-around of the sum the
  loop need not end, so it is a partial function.\<close>

partial_function (option) advance_expiry :: "nat \<Rightarrow> nat \<Rightarrow> nat \<Rightarrow> nat option" where
  "advance_expiry expiry interval now =
     (let expiry = u64_add expiry interval
      in if expiry \<le> now then advance_expiry expiry interval now else Some expiry)"

declare advance_expiry.simps [code]

definition fire_signal :: "timer_env \<Rightarrow> nat \<Rightarrow> int \<Rightarrow> timers \<Rightarrow> (timers \<times> timer_event list) option" where
  "fire_signal e i signo s =
     (if 0 < signo then do {
        (s, woken, evs) \<leftarrow> interrupt_sleep_for_signal e i s;
        kick \<leftarrow> (if woken then kick_last_cpu i s else Some []);
        Some (s, T_add_signal i signo # evs @ kick)
      }
      else Some (s, []))"

text \<open>\<open>timer\<close> is a reference into the task: its interval and expiry are read after the signal, that is
  after the lock of the task may have been given up; that it is still armed is not checked again.\<close>

definition maybe_fire_interval_timer :: "timer_env \<Rightarrow> nat \<Rightarrow> int \<Rightarrow> nat \<Rightarrow> timers \<Rightarrow> (timers \<times> timer_event list) option" where
  "maybe_fire_interval_timer e i which now_us s =
     (if \<not> is_valid_interval_timer_kind which then Some (s, [])
      else do {
        p \<leftarrow> arr_get (proc_pool s) i;
        timer \<leftarrow> arr_get (itimer p) (nat which);
        if \<not> it_armed timer \<or> now_us < expiry_us timer then Some (s, [])
        else do {
          (s, evs) \<leftarrow> fire_signal e i (timer_signal_for_kind which) s;
          p \<leftarrow> arr_get (proc_pool s) i;
          timer \<leftarrow> arr_get (itimer p) (nat which);
          if interval_us timer = 0 then do {
            s \<leftarrow> set_itimer i which (timer\<lparr>it_armed := False, expiry_us := 0\<rparr>)
                  (note_realtime_interval_timer_disarmed which s);
            Some (s, evs)
          }
          else do {
            x \<leftarrow> advance_expiry (expiry_us timer) (interval_us timer) now_us;
            s \<leftarrow> set_itimer i which (timer\<lparr>expiry_us := x\<rparr>) s;
            Some (s, evs)
          }
        }
      })"

text \<open>A snapshot is the pair (\<open>value_us\<close>, \<open>interval_us\<close>).\<close>

definition read_interval_timer_locked ::
  "timer_env \<Rightarrow> nat \<Rightarrow> int \<Rightarrow> timers \<Rightarrow> (timers \<times> (nat \<times> nat) \<times> timer_event list) option" where
  "read_interval_timer_locked e i which s = do {
     now_us \<leftarrow> interval_timer_now_usec e s i which;
     (s, evs) \<leftarrow> maybe_fire_interval_timer e i which now_us s;
     p \<leftarrow> arr_get (proc_pool s) i;
     timer \<leftarrow> arr_get (itimer p) (nat which);
     Some (s, (if it_armed timer \<and> now_us < expiry_us timer then expiry_us timer - now_us else 0, interval_us timer), evs)
   }"

definition read_interval_timer ::
  "timer_env \<Rightarrow> nat option \<Rightarrow> int \<Rightarrow> timers \<Rightarrow> (timers \<times> (nat \<times> nat) \<times> timer_event list) option" where
  "read_interval_timer e p which s =
     (case p of
        None \<Rightarrow> Some (s, (0, 0), [])
      | Some i \<Rightarrow>
          if \<not> is_valid_interval_timer_kind which then Some (s, (0, 0), [])
          else read_interval_timer_locked e i which s)"

definition reset_interval_timer :: "nat \<Rightarrow> nat \<Rightarrow> timers \<Rightarrow> timers option" where
  "reset_interval_timer i k s = do {
     p \<leftarrow> arr_get (proc_pool s) i;
     timer \<leftarrow> arr_get (itimer p) k;
     set_itimer i (int k) \<lparr>it_armed = False, interval_us = 0, expiry_us = 0\<rparr>
       (if it_armed timer then note_realtime_interval_timer_disarmed (int k) s else s)
   }"

definition reset_interval_timers :: "nat option \<Rightarrow> timers \<Rightarrow> timers option" where
  "reset_interval_timers p s =
     (case p of None \<Rightarrow> Some s | Some i \<Rightarrow> for_each (reset_interval_timer i) [0..<k_interval_timer_count] s)"

text \<open>\<open>want_old\<close>: the caller passed a buffer for the old timer.\<close>

definition set_interval_timer ::
  "timer_env \<Rightarrow> nat option \<Rightarrow> int \<Rightarrow> nat \<Rightarrow> nat \<Rightarrow> bool \<Rightarrow> timers \<Rightarrow>
   (timers \<times> (nat \<times> nat) option \<times> timer_event list) option" where
  "set_interval_timer e p which value_us interval want_old s =
     (case p of
        None \<Rightarrow> Some (s, None, [])
      | Some i \<Rightarrow>
          if \<not> is_valid_interval_timer_kind which then Some (s, None, [])
          else do {
            (s, old, evs) \<leftarrow> (if want_old
              then do { (s, snap, evs) \<leftarrow> read_interval_timer_locked e i which s; Some (s, Some snap, evs) }
              else Some (s, None, []));
            p \<leftarrow> arr_get (proc_pool s) i;
            timer \<leftarrow> arr_get (itimer p) (nat which);
            if value_us = 0 then do {
              s \<leftarrow> set_itimer i which \<lparr>it_armed = False, interval_us = interval, expiry_us = 0\<rparr>
                    (if it_armed timer then note_realtime_interval_timer_disarmed which s else s);
              Some (s, old, evs)
            }
            else do {
              now \<leftarrow> interval_timer_now_usec e s i which;
              s \<leftarrow> set_itimer i which \<lparr>it_armed = True, interval_us = interval, expiry_us = u64_add now value_us\<rparr> s;
              Some (if it_armed timer then s else note_realtime_interval_timer_armed which s, old, evs)
            }
          })"

definition check_realtime_timer :: "timer_env \<Rightarrow> nat \<Rightarrow> nat \<Rightarrow> timers \<times> timer_event list \<Rightarrow> (timers \<times> timer_event list) option" where
  "check_realtime_timer e real_now_us i = (\<lambda>(s, evs). do {
     p \<leftarrow> arr_get (proc_pool s) i;
     timer \<leftarrow> arr_get (itimer p) (nat k_interval_timer_real);
     if \<not> it_armed timer then Some (s, evs)
     else if pcb_state p = UNUSED \<or> pcb_state p = ZOMBIE then Some (s, evs)
     else do {
       (s, evs') \<leftarrow> maybe_fire_interval_timer e i k_interval_timer_real real_now_us s;
       Some (s, evs @ evs')
     }
   })"

definition check_interval_timers ::
  "timer_env \<Rightarrow> nat option \<Rightarrow> bool \<Rightarrow> timers \<Rightarrow> (timers \<times> timer_event list) option" where
  "check_interval_timers e current_proc check_realtime s = do {
     (s, evs) \<leftarrow> (if check_realtime \<and> g_armed_realtime_interval_timers s \<noteq> 0
       then for_each (check_realtime_timer e (realtime_now_usec e)) [0..<length (proc_pool s)] (s, [])
       else Some (s, []));
     case current_proc of
       None \<Rightarrow> Some (s, evs)
     | Some i \<Rightarrow> do {
         p \<leftarrow> arr_get (proc_pool s) i;
         v \<leftarrow> arr_get (itimer p) (nat k_interval_timer_virtual);
         f \<leftarrow> arr_get (itimer p) (nat k_interval_timer_prof);
         if \<not> it_armed v \<and> \<not> it_armed f then Some (s, evs)
         else do {
           now \<leftarrow> interval_timer_now_usec e s i k_interval_timer_virtual;
           (s, evs1) \<leftarrow> maybe_fire_interval_timer e i k_interval_timer_virtual now s;
           now \<leftarrow> interval_timer_now_usec e s i k_interval_timer_prof;
           (s, evs2) \<leftarrow> maybe_fire_interval_timer e i k_interval_timer_prof now s;
           Some (s, evs @ evs1 @ evs2)
         }
       }
   }"

section \<open>POSIX timers\<close>

definition should_deliver_posix_timer_signal :: "int \<Rightarrow> bool" where
  "should_deliver_posix_timer_signal notify \<longleftrightarrow> notify = k_sigev_signal \<or> notify = k_sigev_thread_id"

definition find_posix_timer_signal_target :: "timers \<Rightarrow> extended_posix_timer \<Rightarrow> nat option option" where
  "find_posix_timer_signal_target s timer =
     (case timer_owner timer of
        None \<Rightarrow> Some None
      | Some i \<Rightarrow> do {
          owner \<leftarrow> arr_get (proc_pool s) i;
          if pcb_state owner = UNUSED then Some None
          else if sigev_notify (timer_event timer) \<noteq> k_sigev_thread_id then Some (Some i)
          else case find_live_task_by_pid_or_tid (proc_pool s) (sigev_notify_thread_id (timer_event timer)) of
                 None \<Rightarrow> Some None
               | Some j \<Rightarrow> do {
                   target \<leftarrow> arr_get (proc_pool s) j;
                   Some (if tgid target \<noteq> tgid owner then None else Some j)
                 }
        })"

definition wake_if_signal_interruptible :: "timer_env \<Rightarrow> nat \<Rightarrow> int \<Rightarrow> timers \<Rightarrow> (timers \<times> timer_event list) option" where
  "wake_if_signal_interruptible e i sig s = do {
     (s, woken, evs) \<leftarrow> interrupt_sleep_for_signal e i s;
     if woken then do { kick \<leftarrow> kick_last_cpu i s; Some (s, evs @ kick) }
     else do {
       p \<leftarrow> arr_get (proc_pool s) i;
       if pcb_state p = STOPPED \<and> (sig = SIGCONT \<or> sig = SIGKILL) then do {
         pool \<leftarrow> arr_set (proc_pool s) i
           (p\<lparr>pcb_state := RUNNABLE, continued_pending := (continued_pending p \<or> sig = SIGCONT)\<rparr>);
         kick \<leftarrow> kick_last_cpu i s;
         Some (s\<lparr>proc_pool := pool\<rparr>, evs @ kick)
       }
       else Some (s, evs)
     }
   }"

definition deliver_posix_timer_signal :: "timer_env \<Rightarrow> extended_posix_timer \<Rightarrow> timers \<Rightarrow> (timers \<times> timer_event list) option" where
  "deliver_posix_timer_signal e timer s =
     (if \<not> should_deliver_posix_timer_signal (sigev_notify (timer_event timer)) then Some (s, [])
      else let signo = sigev_signo (timer_event timer)
           in if signo \<le> 0 \<or> SIGRTMAX < signo then Some (s, [])
              else do {
                target \<leftarrow> find_posix_timer_signal_target s timer;
                case target of
                  None \<Rightarrow> Some (s, [])
                | Some j \<Rightarrow> do {
                    t \<leftarrow> arr_get (proc_pool s) j;
                    i \<leftarrow> timer_owner timer;
                    owner \<leftarrow> arr_get (proc_pool s) i;
                    if pcb_state t = UNUSED \<or> pcb_state t = ZOMBIE \<or> tgid t \<noteq> tgid owner then Some (s, [])
                    else do {
                      (s, evs) \<leftarrow> wake_if_signal_interruptible e j signo s;
                      Some (s, T_add_signal_info j signo (sival_ptr (timer_event timer)) # evs)
                    }
                  }
              })"

definition set_timer :: "nat \<Rightarrow> extended_posix_timer \<Rightarrow> timers \<Rightarrow> timers option" where
  "set_timer k t s = do { ts \<leftarrow> arr_set (g_timers s) k t; Some (s\<lparr>g_timers := ts\<rparr>) }"

definition clear_posix_timer_locked :: "nat \<Rightarrow> timers \<Rightarrow> timers option" where
  "clear_posix_timer_locked k s = do {
     timer \<leftarrow> arr_get (g_timers s) k;
     set_timer k zero_timer
       (if timer_armed timer then s\<lparr>g_armed_posix_timers := u32_sub (g_armed_posix_timers s) 1\<rparr> else s)
   }"

definition set_posix_timer_armed_locked :: "nat \<Rightarrow> bool \<Rightarrow> timers \<Rightarrow> timers option" where
  "set_posix_timer_armed_locked k armed s = do {
     timer \<leftarrow> arr_get (g_timers s) k;
     if timer_armed timer = armed then Some s
     else do {
       s \<leftarrow> set_timer k (timer\<lparr>timer_armed := armed\<rparr>) s;
       Some (if armed then s\<lparr>g_armed_posix_timers := u32_add (g_armed_posix_timers s) 1\<rparr>
             else s\<lparr>g_armed_posix_timers := u32_sub (g_armed_posix_timers s) 1\<rparr>)
     }
   }"

definition posix_timer_owned_by_locked :: "timers \<Rightarrow> extended_posix_timer \<Rightarrow> nat option \<Rightarrow> bool option" where
  "posix_timer_owned_by_locked s timer task =
     (if \<not> timer_active timer then Some False
      else case (timer_owner timer, task) of
             (Some i, Some j) \<Rightarrow> do {
               owner \<leftarrow> arr_get (proc_pool s) i;
               t \<leftarrow> arr_get (proc_pool s) j;
               Some (tgid owner = tgid t)
             }
           | _ \<Rightarrow> Some False)"

definition init_posix_timers :: "timers \<Rightarrow> timers option" where
  "init_posix_timers s = do {
     s \<leftarrow> for_each clear_posix_timer_locked [0..<length (g_timers s)] (s\<lparr>g_armed_posix_timers := 0\<rparr>);
     Some (s\<lparr>g_next_timer_id := 1, g_timers_initialized := True\<rparr>)
   }"

text \<open>The new expiry and overrun count of a periodic timer, in one division.\<close>

definition INT_MAX :: nat where "INT_MAX = 2 ^ 31 - 1"

definition rearm_periodic :: "timespec \<Rightarrow> extended_posix_timer \<Rightarrow> extended_posix_timer" where
  "rearm_periodic current_time timer =
     (let interval_ns = timespec_interval_ns (it_interval (timer_spec timer));
          elapsed_ns = timespec_delta_ns current_time (expiry_time timer);
          missed = (if interval_ns = 0 then 0 else elapsed_ns div interval_ns);
          until_next = (if interval_ns = 0 then 1 else interval_ns - elapsed_ns mod interval_ns)
      in timer\<lparr>timer_overrun := (if INT_MAX < missed then int INT_MAX else int missed),
               expiry_time := timespec_add_ns current_time until_next\<rparr>)"

definition check_expired_timer :: "timer_env \<Rightarrow> nat \<Rightarrow> timers \<times> timer_event list \<Rightarrow> (timers \<times> timer_event list) option" where
  "check_expired_timer e k = (\<lambda>(s, evs). do {
     timer \<leftarrow> arr_get (g_timers s) k;
     if \<not> timer_active timer \<or> \<not> timer_armed timer then Some (s, evs)
     else do {
       now \<leftarrow> read_posix_timer_clock e s timer;
       case now of
         None \<Rightarrow> Some (s, evs)
       | Some current_time \<Rightarrow>
           if \<not> timespec_less_or_equal (expiry_time timer) current_time then Some (s, evs)
           else do {
             s \<leftarrow> (if 0 < tv_sec (it_interval (timer_spec timer)) \<or> 0 < tv_nsec (it_interval (timer_spec timer))
                   then set_timer k (rearm_periodic current_time timer) s
                   else do {
                     s \<leftarrow> set_timer k (timer\<lparr>timer_overrun := 0\<rparr>) s;
                     set_posix_timer_armed_locked k False s
                   });
             timer \<leftarrow> arr_get (g_timers s) k;
             (s, evs') \<leftarrow> deliver_posix_timer_signal e timer s;
             Some (s, evs @ evs')
           }
     }
   })"

definition check_expired_timers :: "timer_env \<Rightarrow> timers \<Rightarrow> (timers \<times> timer_event list) option" where
  "check_expired_timers e s =
     (if \<not> g_timers_initialized s then Some (s, [])
      else if g_armed_posix_timers s = 0 then Some (s, [])
      else for_each (check_expired_timer e) [0..<32] (s, []))"

definition cleanup_posix_timers_for_owner :: "nat option \<Rightarrow> timers \<Rightarrow> timers option" where
  "cleanup_posix_timers_for_owner owner s =
     (if \<not> g_timers_initialized s \<or> owner = None then Some s
      else for_each (\<lambda>k s. do {
             timer \<leftarrow> arr_get (g_timers s) k;
             if \<not> timer_active timer \<or> timer_owner timer \<noteq> owner then Some s
             else clear_posix_timer_locked k s
           }) [0..<32] s)"

end
