(* ===== verification/Timer_Syscalls.thy ===== *)
theory Timer_Syscalls
  imports Posix_Timers
begin

text \<open>
  The system calls on clocks and timers of \<open>src/kernel/sys/syscall_handler.cc\<close>: \<open>setitimer\<close>,
  \<open>getitimer\<close>, \<open>timer_create\<close>, \<open>timer_settime\<close>, \<open>timer_gettime\<close>, \<open>timer_getoverrun\<close>,
  \<open>timer_delete\<close>, \<open>clock_gettime\<close> and \<open>clock_settime\<close>.

  The arguments are the raw registers \<open>a0\<close>, \<open>a1\<close>, \dots of the trap frame. User memory is outside the
  model: reading an argument block is a function \<open>cin\<close> from its address (\<^const>\<open>None\<close> is a failing
  \<open>copy_in\<close>), \<open>cout\<close> says whether a \<open>copy_out\<close> succeeds, and the copied value is part of the result.
  A handler that gives up the timer lock takes an argument \<open>others\<close>, what the other threads make of the
  timers until it takes the lock again.
\<close>

section \<open>Arguments and error codes\<close>

definition SYS_EPERM :: int where "SYS_EPERM = -1"
definition SYS_ESRCH :: int where "SYS_ESRCH = -3"
definition SYS_EAGAIN :: int where "SYS_EAGAIN = -11"
definition SYS_EFAULT :: int where "SYS_EFAULT = -14"
definition SYS_EINVAL :: int where "SYS_EINVAL = -22"

definition TIMER_ABSTIME :: int where "TIMER_ABSTIME = 1"
definition k_sigev_none :: int where "k_sigev_none = 1"
definition k_sigev_thread :: int where "k_sigev_thread = 2"
definition k_usec_per_sec :: nat where "k_usec_per_sec = 1000000"

text \<open>\<open>int raw_val = _arg_raw(n)\<close> truncates, so the range check that follows it never fails.\<close>

definition arg_int :: "nat \<Rightarrow> int" where
  "arg_int raw = to_s32 (int raw)"

definition arg_addr :: "nat \<Rightarrow> nat \<Rightarrow> nat option" where
  "arg_addr MAXVA raw = (if MAXVA \<le> raw then None else Some raw)"

text \<open>The conversion of an \<open>int\<close> to the enumeration of clocks.\<close>

definition clock_of_id :: "int \<Rightarrow> SystemClockId" where
  "clock_of_id n =
     (if n = 0 then CLOCK_REALTIME else if n = 1 then CLOCK_MONOTONIC
      else if n = 2 then CLOCK_PROCESS_CPUTIME_ID else if n = 3 then CLOCK_THREAD_CPUTIME_ID
      else if n = 4 then CLOCK_MONOTONIC_RAW else if n = 5 then CLOCK_REALTIME_COARSE
      else if n = 6 then CLOCK_MONOTONIC_COARSE else if n = 7 then CLOCK_BOOTTIME
      else if n = 8 then CLOCK_REALTIME_ALARM else if n = 9 then CLOCK_BOOTTIME_ALARM
      else if n = 10 then CLOCK_SGI_CYCLE else if n = 11 then CLOCK_TAI else CLOCK_OTHER)"

definition cur_pcb :: "timer_env \<Rightarrow> timers \<Rightarrow> Pcb option option" where
  "cur_pcb e s = (case env_current e of None \<Rightarrow> Some None | Some i \<Rightarrow> do { p \<leftarrow> arr_get (proc_pool s) i; Some (Some p) })"

section \<open>Interval timers\<close>

record KernelTimeValOld =
  old_sec :: int
  old_usec :: int

record KernelITimerValOld =
  old_interval :: KernelTimeValOld
  old_value :: KernelTimeValOld

definition timeval_to_usec_checked :: "KernelTimeValOld \<Rightarrow> nat option" where
  "timeval_to_usec_checked tv =
     (if old_sec tv < 0 \<or> old_usec tv < 0 \<or> int k_usec_per_sec \<le> old_usec tv then None
      else let sec = to_u64 (old_sec tv)
           in if UINT64_MAX div k_usec_per_sec < sec then None
              else Some (u64_add (u64_mul sec k_usec_per_sec) (to_u64 (old_usec tv))))"

definition usec_to_timeval :: "nat \<Rightarrow> KernelTimeValOld" where
  "usec_to_timeval total_us =
     \<lparr>old_sec = to_s64 (total_us div k_usec_per_sec), old_usec = to_s64 (total_us mod k_usec_per_sec)\<rparr>"

definition fill_itimerval_from_snapshot :: "nat \<times> nat \<Rightarrow> KernelITimerValOld" where
  "fill_itimerval_from_snapshot snapshot =
     \<lparr>old_interval = usec_to_timeval (snd snapshot), old_value = usec_to_timeval (fst snapshot)\<rparr>"

text \<open>The result: the timers, the return value, what was copied out, and the events. \<open>has_pt\<close>: the
  task has a page table.\<close>

type_synonym 'a syscall_result = "timers \<times> int \<times> 'a option \<times> timer_event list"

definition sys_setitimer ::
  "nat \<Rightarrow> timer_env \<Rightarrow> bool \<Rightarrow> (nat \<Rightarrow> KernelITimerValOld option) \<Rightarrow> (nat \<Rightarrow> bool) \<Rightarrow> nat \<Rightarrow> nat \<Rightarrow> nat \<Rightarrow> timers \<Rightarrow>
   KernelITimerValOld syscall_result option" where
  "sys_setitimer MAXVA e has_pt cin cout a0 a1 a2 s =
     (let which = arg_int a0
      in case (arg_addr MAXVA a1, arg_addr MAXVA a2) of
        (Some new_value_addr, Some old_value_addr) \<Rightarrow>
          if \<not> is_valid_interval_timer_kind which then Some (s, SYS_EINVAL, None, [])
          else if new_value_addr = 0 then Some (s, SYS_EFAULT, None, [])
          else if env_current e = None then Some (s, SYS_ESRCH, None, [])
          else if \<not> has_pt then Some (s, SYS_EFAULT, None, [])
          else (case cin new_value_addr of
             None \<Rightarrow> Some (s, SYS_EFAULT, None, [])
           | Some new_timer \<Rightarrow>
             (case (timeval_to_usec_checked (old_value new_timer), timeval_to_usec_checked (old_interval new_timer)) of
                (Some value_us, Some interval) \<Rightarrow> do {
                  (s, old_timer, evs) \<leftarrow> set_interval_timer e (env_current e) which value_us interval (old_value_addr \<noteq> 0) s;
                  case old_timer of
                    None \<Rightarrow> Some (s, 0, None, evs)
                  | Some snapshot \<Rightarrow>
                      if cout old_value_addr then Some (s, 0, Some (fill_itimerval_from_snapshot snapshot), evs)
                      else Some (s, SYS_EFAULT, None, evs)
                }
              | _ \<Rightarrow> Some (s, SYS_EINVAL, None, [])))
      | _ \<Rightarrow> Some (s, SYS_EFAULT, None, []))"

definition sys_getitimer ::
  "nat \<Rightarrow> timer_env \<Rightarrow> bool \<Rightarrow> (nat \<Rightarrow> bool) \<Rightarrow> nat \<Rightarrow> nat \<Rightarrow> timers \<Rightarrow> KernelITimerValOld syscall_result option" where
  "sys_getitimer MAXVA e has_pt cout a0 a1 s =
     (let which = arg_int a0
      in case arg_addr MAXVA a1 of
        None \<Rightarrow> Some (s, SYS_EFAULT, None, [])
      | Some curr_value_addr \<Rightarrow>
          if curr_value_addr = 0 then Some (s, SYS_EFAULT, None, [])
          else if \<not> is_valid_interval_timer_kind which then Some (s, SYS_EINVAL, None, [])
          else if env_current e = None then Some (s, SYS_ESRCH, None, [])
          else if \<not> has_pt then Some (s, SYS_EFAULT, None, [])
          else do {
            (s, snapshot, evs) \<leftarrow> read_interval_timer e (env_current e) which s;
            if cout curr_value_addr then Some (s, 0, Some (fill_itimerval_from_snapshot snapshot), evs)
            else Some (s, SYS_EFAULT, None, evs)
          })"

section \<open>POSIX timers\<close>

text \<open>\<open>timer_create\<close> reads this block from user space.\<close>

record KernelSigeventCompat =
  user_sival_ptr :: nat
  user_signo :: int
  user_notify :: int
  user_notify_thread_id :: int

definition timer_clock_allowed :: "SystemClockId \<Rightarrow> bool" where
  "timer_clock_allowed c \<longleftrightarrow> c \<in> {CLOCK_REALTIME, CLOCK_MONOTONIC, CLOCK_PROCESS_CPUTIME_ID, CLOCK_THREAD_CPUTIME_ID,
     CLOCK_BOOTTIME, CLOCK_REALTIME_ALARM, CLOCK_BOOTTIME_ALARM, CLOCK_TAI}"

text \<open>The notification of the new timer: \<open>Inl\<close> is the error that the call returns.\<close>

definition read_sigevent ::
  "(nat \<Rightarrow> KernelSigeventCompat option) \<Rightarrow> timers \<Rightarrow> Pcb \<Rightarrow> nat \<Rightarrow> (int + sigevent) option" where
  "read_sigevent cin s p sevp_addr =
     (if sevp_addr = 0 then
        Some (Inr \<lparr>sigev_notify = k_sigev_signal, sigev_signo = SIGALRM, sival_ptr = 0, sigev_notify_thread_id = 0\<rparr>)
      else case cin sevp_addr of
        None \<Rightarrow> Some (Inl SYS_EFAULT)
      | Some u \<Rightarrow>
          if user_notify u \<notin> {k_sigev_none, k_sigev_signal, k_sigev_thread, k_sigev_thread_id} then Some (Inl SYS_EINVAL)
          else if (user_notify u = k_sigev_signal \<or> user_notify u = k_sigev_thread_id) \<and>
                  (user_signo u < 1 \<or> 64 < user_signo u) then Some (Inl SYS_EINVAL)
          else if user_notify u \<noteq> k_sigev_thread_id then
            Some (Inr \<lparr>sigev_notify = user_notify u, sigev_signo = user_signo u, sival_ptr = user_sival_ptr u,
                       sigev_notify_thread_id = 0\<rparr>)
          else (case find_live_task_by_pid_or_tid (proc_pool s) (user_notify_thread_id u) of
             None \<Rightarrow> Some (Inl SYS_EINVAL)
           | Some j \<Rightarrow> do {
               target \<leftarrow> arr_get (proc_pool s) j;
               Some (if user_notify_thread_id u \<le> 0 \<or> tgid target \<noteq> tgid p then Inl SYS_EINVAL
                     else Inr \<lparr>sigev_notify = user_notify u, sigev_signo = user_signo u, sival_ptr = user_sival_ptr u,
                               sigev_notify_thread_id = user_notify_thread_id u\<rparr>)
             }))"

text \<open>The first slot with a property, as the loops over the 32 slots find it; a condition that faults
  faults the search.\<close>

primrec find_slot :: "(extended_posix_timer \<Rightarrow> bool option) \<Rightarrow> nat list \<Rightarrow> timers \<Rightarrow> nat option option" where
  "find_slot cond [] s = Some None"
| "find_slot cond (k # ks) s = do {
     timer \<leftarrow> arr_get (g_timers s) k;
     b \<leftarrow> cond timer;
     if b then Some (Some k) else find_slot cond ks s
   }"

definition find_free_slot :: "timers \<Rightarrow> nat option option" where
  "find_free_slot s = find_slot (\<lambda>t. Some (\<not> timer_active t)) [0..<32] s"

definition find_owned_slot :: "int \<Rightarrow> nat option \<Rightarrow> timers \<Rightarrow> nat option option" where
  "find_owned_slot id' p s =
     find_slot (\<lambda>t. if timer_id t = id' then posix_timer_owned_by_locked s t p else Some False) [0..<32] s"

text \<open>The slot is filled under the lock; \<open>g_next_timer_id++\<close> is undefined at the end of its range.\<close>

definition publish_timer :: "SystemClockId \<Rightarrow> nat \<Rightarrow> sigevent \<Rightarrow> bool \<Rightarrow> nat \<Rightarrow> timers \<Rightarrow> (timers \<times> int) option" where
  "publish_timer clockid p sev default_event k s = do {
     s \<leftarrow> clear_posix_timer_locked k s;
     let id' = g_next_timer_id s
     in if 2 ^ 31 \<le> id' + 1 then None
        else do {
          s \<leftarrow> Some (s\<lparr>g_next_timer_id := id' + 1\<rparr>);
          timer \<leftarrow> arr_get (g_timers s) k;
          s \<leftarrow> set_timer k (timer\<lparr>timer_id := id', timer_clock := clockid, timer_owner := Some p, timer_event := sev,
                 timer_active := True\<rparr>) s;
          s \<leftarrow> set_posix_timer_armed_locked k False s;
          timer \<leftarrow> arr_get (g_timers s) k;
          s \<leftarrow> (if default_event
                then set_timer k (timer\<lparr>timer_event := (timer_event timer)\<lparr>sival_ptr := nat (id' mod 2 ^ 32)\<rparr>\<rparr>) s
                else Some s);
          Some (s, id')
        }
   }"

definition roll_back_timer :: "nat \<Rightarrow> int \<Rightarrow> nat \<Rightarrow> timers \<Rightarrow> timers option" where
  "roll_back_timer k id' p s = do {
     timer \<leftarrow> arr_get (g_timers s) k;
     if timer_active timer \<and> timer_id timer = id' \<and> timer_owner timer = Some p then clear_posix_timer_locked k s
     else Some s
   }"

definition sys_timer_create ::
  "nat \<Rightarrow> timer_env \<Rightarrow> (nat \<Rightarrow> KernelSigeventCompat option) \<Rightarrow> (nat \<Rightarrow> bool) \<Rightarrow> (timers \<Rightarrow> timers) \<Rightarrow>
   nat \<Rightarrow> nat \<Rightarrow> nat \<Rightarrow> timers \<Rightarrow> int syscall_result option" where
  "sys_timer_create MAXVA e cin cout others a0 a1 a2 s =
     (let clockid = clock_of_id (arg_int a0)
      in case (arg_addr MAXVA a1, arg_addr MAXVA a2) of
        (Some sevp_addr, Some timerid_addr) \<Rightarrow>
          if timerid_addr = 0 then Some (s, SYS_EINVAL, None, [])
          else if \<not> timer_clock_allowed clockid then Some (s, SYS_EINVAL, None, [])
          else do {
            i \<leftarrow> env_current e;
            p \<leftarrow> arr_get (proc_pool s) i;
            if (clockid = CLOCK_REALTIME_ALARM \<or> clockid = CLOCK_BOOTTIME_ALARM) \<and> euid p \<noteq> 0
            then Some (s, SYS_EPERM, None, [])
            else do {
              ev \<leftarrow> read_sigevent cin s p sevp_addr;
              case ev of
                Inl err \<Rightarrow> Some (s, err, None, [])
              | Inr sev \<Rightarrow> do {
                  slot \<leftarrow> find_free_slot s;
                  case slot of
                    None \<Rightarrow> Some (s, SYS_EAGAIN, None, [])
                  | Some k \<Rightarrow> do {
                      (s, id') \<leftarrow> publish_timer clockid i sev (sevp_addr = 0) k s;
                      let s = others s
                      in if cout timerid_addr then Some (s, 0, Some id', [])
                         else do {
                           s \<leftarrow> roll_back_timer k id' i s;
                           Some (s, SYS_EFAULT, None, [])
                         }
                    }
                }
            }
          }
      | _ \<Rightarrow> Some (s, SYS_EINVAL, None, []))"

definition itimerspec_valid :: "itimerspec \<Rightarrow> bool" where
  "itimerspec_valid v \<longleftrightarrow> 0 \<le> tv_nsec (it_value v) \<and> tv_nsec (it_value v) < 1000000000 \<and>
     0 \<le> tv_nsec (it_interval v) \<and> tv_nsec (it_interval v) < 1000000000 \<and>
     0 \<le> tv_sec (it_value v) \<and> 0 \<le> tv_sec (it_interval v)"

definition zero_itimerspec :: itimerspec where
  "zero_itimerspec = \<lparr>it_interval = zero_timespec, it_value = zero_timespec\<rparr>"

text \<open>The new absolute expiry time; \<open>tv_sec\<close> comes from user space, so its sum can overflow.\<close>

definition settime_expiry :: "int \<Rightarrow> timespec \<Rightarrow> timespec \<Rightarrow> timespec option" where
  "settime_expiry flags current_time value =
     (if flags = TIMER_ABSTIME then Some value
      else do {
        sec \<leftarrow> s64_add (tv_sec current_time) (tv_sec value);
        let nsec = tv_nsec current_time + tv_nsec value
        in if 1000000000 \<le> nsec
           then do { sec \<leftarrow> s64_add sec 1; Some \<lparr>tv_sec = sec, tv_nsec = nsec - 1000000000\<rparr> }
           else Some \<lparr>tv_sec = sec, tv_nsec = nsec\<rparr>
      })"

definition commit_settime :: "nat \<Rightarrow> itimerspec \<Rightarrow> bool \<Rightarrow> timespec \<Rightarrow> timers \<Rightarrow> timers option" where
  "commit_settime k spec arm expiry s = do {
     timer \<leftarrow> arr_get (g_timers s) k;
     s \<leftarrow> set_timer k (timer\<lparr>timer_spec := spec\<rparr>) s;
     s \<leftarrow> set_posix_timer_armed_locked k arm s;
     timer \<leftarrow> arr_get (g_timers s) k;
     set_timer k (timer\<lparr>timer_overrun := 0, expiry_time := (if arm then expiry else zero_timespec)\<rparr>) s
   }"

text \<open>\<open>Inl\<close> is the error that \<open>clock_gettime\<close> causes, \<open>Inr\<close> the new expiry time.\<close>

definition settime_new_expiry :: "timer_env \<Rightarrow> timers \<Rightarrow> int \<Rightarrow> SystemClockId \<Rightarrow> itimerspec \<Rightarrow> (int + timespec) option" where
  "settime_new_expiry e s flags clockid spec =
     (if it_value spec = zero_timespec then Some (Inr zero_timespec)
      else do {
        cur \<leftarrow> cur_pcb e s;
        (r, ts) \<leftarrow> clock_gettime (env_hw e) cur (env_tm e) clockid False;
        if r < 0 then Some (Inl SYS_EFAULT)
        else do {
          now \<leftarrow> ts;
          x \<leftarrow> settime_expiry flags now (it_value spec);
          Some (Inr x)
        }
      })"

text \<open>The part of \<open>timer_settime\<close> after the checks of its arguments.\<close>

definition settime_checked ::
  "timer_env \<Rightarrow> (nat \<Rightarrow> bool) \<Rightarrow> (timers \<Rightarrow> timers) \<Rightarrow> nat \<Rightarrow> int \<Rightarrow> int \<Rightarrow> itimerspec \<Rightarrow> nat \<Rightarrow> timers \<Rightarrow>
   itimerspec syscall_result option" where
  "settime_checked e cout others p timerid flags spec old_value_addr s = do {
     slot \<leftarrow> find_owned_slot timerid (Some p) s;
     case slot of
       None \<Rightarrow> Some (s, SYS_EINVAL, None, [])
     | Some k \<Rightarrow> do {
         snapshot \<leftarrow> arr_get (g_timers s) k;
         let old = (if old_value_addr = 0 then None
                    else Some (if timer_armed snapshot then timer_spec snapshot else zero_itimerspec));
             arm = (it_value spec \<noteq> zero_timespec)
         in if old \<noteq> None \<and> \<not> cout old_value_addr then Some (s, SYS_EFAULT, None, [])
            else do {
              x \<leftarrow> settime_new_expiry e s flags (timer_clock snapshot) spec;
              case x of
                Inl err \<Rightarrow> Some (s, err, old, [])
              | Inr expiry \<Rightarrow> do {
                  s \<leftarrow> Some (others s);
                  slot \<leftarrow> find_owned_slot timerid (Some p) s;
                  case slot of
                    None \<Rightarrow> Some (s, SYS_EINVAL, old, [])
                  | Some k \<Rightarrow> do {
                      s \<leftarrow> commit_settime k spec arm expiry s;
                      Some (s, 0, old, [])
                    }
                }
            }
       }
   }"

definition sys_timer_settime ::
  "nat \<Rightarrow> timer_env \<Rightarrow> (nat \<Rightarrow> itimerspec option) \<Rightarrow> (nat \<Rightarrow> bool) \<Rightarrow> (timers \<Rightarrow> timers) \<Rightarrow>
   nat \<Rightarrow> nat \<Rightarrow> nat \<Rightarrow> nat \<Rightarrow> timers \<Rightarrow> itimerspec syscall_result option" where
  "sys_timer_settime MAXVA e cin cout others a0 a1 a2 a3 s =
     (let timerid = arg_int a0; flags = arg_int a1
      in case (arg_addr MAXVA a2, arg_addr MAXVA a3) of
        (Some new_value_addr, Some old_value_addr) \<Rightarrow>
          if new_value_addr = 0 then Some (s, SYS_EINVAL, None, [])
          else if flags \<noteq> 0 \<and> flags \<noteq> TIMER_ABSTIME then Some (s, SYS_EINVAL, None, [])
          else do {
            p \<leftarrow> env_current e;
            case cin new_value_addr of
              None \<Rightarrow> Some (s, SYS_EFAULT, None, [])
            | Some spec \<Rightarrow>
                if \<not> itimerspec_valid spec then Some (s, SYS_EINVAL, None, [])
                else if \<not> g_timers_initialized s then Some (s, SYS_EINVAL, None, [])
                else settime_checked e cout others p timerid flags spec old_value_addr s
          }
      | _ \<Rightarrow> Some (s, SYS_EINVAL, None, []))"

definition sys_timer_delete :: "timer_env \<Rightarrow> nat \<Rightarrow> timers \<Rightarrow> (timers \<times> int) option" where
  "sys_timer_delete e a0 s =
     (if \<not> g_timers_initialized s then Some (s, SYS_EINVAL)
      else do {
        slot \<leftarrow> find_owned_slot (arg_int a0) (env_current e) s;
        case slot of
          None \<Rightarrow> Some (s, SYS_EINVAL)
        | Some k \<Rightarrow> do { s \<leftarrow> clear_posix_timer_locked k s; Some (s, 0) }
      })"

definition sys_timer_getoverrun :: "timer_env \<Rightarrow> nat \<Rightarrow> timers \<Rightarrow> int option" where
  "sys_timer_getoverrun e a0 s = do {
     slot \<leftarrow> find_owned_slot (arg_int a0) (env_current e) s;
     case slot of
       None \<Rightarrow> Some SYS_EINVAL
     | Some k \<Rightarrow> do { timer \<leftarrow> arr_get (g_timers s) k; Some (timer_overrun timer) }
   }"

definition remaining_time :: "timespec \<Rightarrow> timespec \<Rightarrow> timespec option" where
  "remaining_time expiry current_time = do {
     sec \<leftarrow> s64_add (tv_sec expiry) (- tv_sec current_time);
     let nsec = tv_nsec expiry - tv_nsec current_time
     in do {
       (sec, nsec) \<leftarrow> (if nsec < 0 then do { sec \<leftarrow> s64_add sec (-1); Some (sec, nsec + 1000000000) } else Some (sec, nsec));
       Some (if sec < 0 \<or> (sec = 0 \<and> nsec \<le> 0) then zero_timespec else \<lparr>tv_sec = sec, tv_nsec = nsec\<rparr>)
     }
   }"

definition sys_timer_gettime ::
  "nat \<Rightarrow> timer_env \<Rightarrow> (nat \<Rightarrow> bool) \<Rightarrow> nat \<Rightarrow> nat \<Rightarrow> timers \<Rightarrow> (int \<times> itimerspec option) option" where
  "sys_timer_gettime MAXVA e cout a0 a1 s =
     (case arg_addr MAXVA a1 of
        None \<Rightarrow> Some (SYS_EINVAL, None)
      | Some curr_value_addr \<Rightarrow>
          if curr_value_addr = 0 then Some (SYS_EFAULT, None)
          else if \<not> g_timers_initialized s then Some (SYS_EINVAL, None)
          else do {
            slot \<leftarrow> find_owned_slot (arg_int a0) (env_current e) s;
            case slot of
              None \<Rightarrow> Some (SYS_EINVAL, None)
            | Some k \<Rightarrow> do {
                snapshot \<leftarrow> arr_get (g_timers s) k;
                v \<leftarrow> (if \<not> timer_armed snapshot then Some (Inr zero_timespec)
                      else do {
                        cur \<leftarrow> cur_pcb e s;
                        (r, ts) \<leftarrow> clock_gettime (env_hw e) cur (env_tm e) (timer_clock snapshot) False;
                        if r \<noteq> 0 then Some (Inl SYS_EINVAL)
                        else do { now \<leftarrow> ts; x \<leftarrow> remaining_time (expiry_time snapshot) now; Some (Inr x) }
                      });
                case v of
                  Inl err \<Rightarrow> Some (err, None)
                | Inr value \<Rightarrow>
                    if cout curr_value_addr
                    then Some (0, Some \<lparr>it_interval = it_interval (timer_spec snapshot), it_value = value\<rparr>)
                    else Some (SYS_EFAULT, None)
              }
          })"

section \<open>Clocks\<close>

definition sys_clock_gettime ::
  "nat \<Rightarrow> timer_env \<Rightarrow> (nat \<Rightarrow> bool) \<Rightarrow> nat \<Rightarrow> nat \<Rightarrow> timers \<Rightarrow> (int \<times> timespec option) option" where
  "sys_clock_gettime MAXVA e cout a0 a1 s =
     (let cid = clock_of_id (arg_int a0)
      in case arg_addr MAXVA a1 of
        None \<Rightarrow> Some (-2, None)
      | Some addr \<Rightarrow>
          if addr = 0 then Some (if cid = CLOCK_OTHER then SYS_EINVAL else 0, None)
          else do {
            cur \<leftarrow> cur_pcb e s;
            (r, ts) \<leftarrow> clock_gettime (env_hw e) cur (env_tm e) cid False;
            if r < 0 then Some (r, None)
            else do {
              _ \<leftarrow> env_current e;
              Some (if cout addr then (0, ts) else (SYS_EFAULT, None))
            }
          })"

definition cap_sys_time :: u32 where "cap_sys_time = 25"

definition sys_clock_settime ::
  "nat \<Rightarrow> timer_env \<Rightarrow> (nat \<Rightarrow> timespec option) \<Rightarrow> nat \<Rightarrow> nat \<Rightarrow> timers \<Rightarrow> (TimerManager \<times> int) option" where
  "sys_clock_settime MAXVA e cin a0 a1 s =
     (let clockid = clock_of_id (arg_int a0); tm = env_tm e
      in case arg_addr MAXVA a1 of
        None \<Rightarrow> Some (tm, SYS_EINVAL)
      | Some tp_addr \<Rightarrow>
          if tp_addr = 0 then Some (tm, SYS_EFAULT)
          else do {
            i \<leftarrow> env_current e;
            p \<leftarrow> arr_get (proc_pool s) i;
            case cin tp_addr of
              None \<Rightarrow> Some (tm, SYS_EFAULT)
            | Some ts \<Rightarrow> do {
                validate_ret \<leftarrow> clock_settime_validate clockid (Some ts);
                if validate_ret < 0 then Some (tm, validate_ret)
                else do {
                  priv \<leftarrow> has_effective (Some p) cap_sys_time;
                  if \<not> priv then Some (tm, SYS_EPERM)
                  else do {
                    (tm, ret) \<leftarrow> clock_settime (env_hw e) clockid (Some ts) tm;
                    Some (tm, if ret < 0 then ret else 0)
                  }
                }
              }
          })"

end
