(* ===== verification/Time_Theorems.thy ===== *)
theory Time_Theorems
  imports Time
begin

text \<open>
  What the clocks guarantee: exact unit conversions, normalised times, a wall clock that shows the
  time it was set to plus the time elapsed, and sleeps that are not cut short.
\<close>

lemma cycles_to_units_split:
  assumes "0 < freq" "freq * ups < 2 ^ 64" "cycles * ups div freq < 2 ^ 64"
  shows "cycles_to_units freq cycles ups = cycles * ups div freq"
proof -
  have "(cycles mod freq) * ups \<le> freq * ups" using assms(1) by (intro mult_right_mono) auto
  then have r: "(cycles mod freq) * ups < 2 ^ 64" using assms(2) by linarith
  have s: "(cycles div freq) * ups + (cycles mod freq) * ups div freq = cycles * ups div freq"
    by (rule scale_split [OF assms(1)])
  then have q: "(cycles div freq) * ups < 2 ^ 64" using assms(3) by linarith
  show ?thesis
    unfolding cycles_to_units_def u64_mul_small [OF q] u64_mul_small [OF r] using s assms(3) by (simp add: u64_add_small)
qed

text \<open>The counter values for which the nanosecond clock does not overflow.\<close>

definition clock_ok :: "hw_clock \<Rightarrow> bool" where
  "clock_ok hw \<longleftrightarrow> 0 < frequency_hz hw \<and> frequency_hz hw * 1000000000 < 2 ^ 64 \<and>
     read_ticks hw * 1000000000 div frequency_hz hw < 2 ^ 62"

definition elapsed_ns :: "hw_clock \<Rightarrow> int" where
  "elapsed_ns hw = int (read_ticks hw * 1000000000 div frequency_hz hw)"

lemma cycles_to_ns_elapsed:
  assumes "clock_ok hw"
  shows "cycles_to_ns (frequency_hz hw) (read_ticks hw) = elapsed_ns hw"
proof -
  have "cycles_to_ns (frequency_hz hw) (read_ticks hw) = to_s64 (cycles_to_units (frequency_hz hw) (read_ticks hw) 1000000000)"
    by (simp add: cycles_to_ns_def cycles_to_units_def k_nsec_per_sec_def)
  also have "cycles_to_units (frequency_hz hw) (read_ticks hw) 1000000000 = read_ticks hw * 1000000000 div frequency_hz hw"
    using assms by (intro cycles_to_units_split) (auto simp: clock_ok_def)
  finally show ?thesis using assms by (simp add: to_s64_small clock_ok_def elapsed_ns_def)
qed

lemma elapsed_ns_range: "clock_ok hw \<Longrightarrow> 0 \<le> elapsed_ns hw \<and> elapsed_ns hw < 2 ^ 62"
  unfolding clock_ok_def elapsed_ns_def by auto

lemma elapsed_ns_mono:
  "frequency_hz hw = frequency_hz hw' \<Longrightarrow> read_ticks hw \<le> read_ticks hw' \<Longrightarrow> elapsed_ns hw \<le> elapsed_ns hw'"
  unfolding elapsed_ns_def by (simp add: div_le_mono)

definition timespec_ns :: "timespec \<Rightarrow> int" where
  "timespec_ns ts = tv_sec ts * 1000000000 + tv_nsec ts"

lemma ns_to_timespec_ns:
  "timespec_ns (ns_to_timespec ns) = ns" "0 \<le> tv_nsec (ns_to_timespec ns)" "tv_nsec (ns_to_timespec ns) < 1000000000"
proof -
  let ?k = "1000000000 :: int"
  have e: "cdiv ns ?k * ?k + cmod ns ?k = ns" by (rule cdiv_cmod)
  have r: "- ?k < cmod ns ?k \<and> cmod ns ?k < ?k"
    using cmod_nonneg [of ns ?k] cmod_neg [of ns ?k] by (cases "0 \<le> ns") auto
  show "timespec_ns (ns_to_timespec ns) = ns" "0 \<le> tv_nsec (ns_to_timespec ns)" "tv_nsec (ns_to_timespec ns) < 1000000000"
    using e r by (auto simp: ns_to_timespec_def timespec_ns_def k_nsec_per_sec_def Let_def left_diff_distrib)
qed

text \<open>The conversion from cycles to time units is exact (the floor of the quotient) and free of
  intermediate overflow whenever the result fits.\<close>

theorem cycles_to_units_exact:
  assumes "0 < freq" "freq * ups < 2 ^ 64" "cycles * ups div freq < 2 ^ 64"
  shows "cycles_to_units freq cycles ups = cycles * ups div freq"
  by (rule cycles_to_units_split [OF assms])

theorem cycles_to_units_exact_witness:
  "cycles_to_units 10000000 123456789 1000000 = 123456789 * 1000000 div 10000000"
  by (rule cycles_to_units_exact) simp_all

text \<open>\<open>ns_to_timespec\<close> always gives a normalised time of the same value, also before the epoch,
  and \<open>timespec_to_ns_checked\<close> reads it back.\<close>

theorem timespec_roundtrip:
  assumes "in_s64 ns"
  shows "timespec_ns (ns_to_timespec ns) = ns \<and> 0 \<le> tv_nsec (ns_to_timespec ns) \<and> tv_nsec (ns_to_timespec ns) < 1000000000 \<and>
   timespec_to_ns_checked (ns_to_timespec ns) = Some (if 0 \<le> ns then Some ns else None)"
proof -
  note n = ns_to_timespec_ns [of ns]
  have s: "tv_sec (ns_to_timespec ns) = ns div 1000000000"
    using n by (simp add: timespec_ns_def)
  have pos: "0 \<le> ns \<longleftrightarrow> \<not> ns div 1000000000 < 0" by (auto simp: not_less div_int_pos_iff)
  have le: "ns div 1000000000 \<le> 9223372036"
    using zdiv_mono1 [of ns 9223372036854775807 1000000000] assms by (simp add: in_s64_def)
  have "timespec_to_ns_checked (ns_to_timespec ns) = Some (if 0 \<le> ns then Some ns else None)"
  proof (cases "0 \<le> ns")
    case True
    have "s64_add (ns div 1000000000 * 1000000000) (tv_nsec (ns_to_timespec ns)) = Some ns"
      using n(1) s assms by (simp add: s64_add_def timespec_ns_def)
    then show ?thesis
      using n s pos le True by (simp add: timespec_to_ns_checked_def k_nsec_per_sec_def)
  next
    case False
    then show ?thesis using s pos by (simp add: timespec_to_ns_checked_def)
  qed
  with n show ?thesis by simp
qed

theorem timespec_roundtrip_witness:
  "timespec_ns (ns_to_timespec (-1)) = -1 \<and> timespec_to_ns_checked (ns_to_timespec 1700000000000000005) = Some (Some 1700000000000000005)"
  using timespec_roundtrip [of "-1"] timespec_roundtrip [of 1700000000000000005] by (simp add: in_s64_def)

text \<open>The range check of \<open>timespec_to_ns_checked\<close> compares the seconds only: in the last second
  that it accepts, the nanoseconds beyond the range make the sum overflow, also when
  \<open>clock_settime\<close> validates a time that user space passed.\<close>

theorem clock_settime_overflow:
  assumes "854775807 < n" "n < 1000000000"
  shows "timespec_to_ns_checked \<lparr>tv_sec = 9223372036, tv_nsec = n\<rparr> = None \<and>
    clock_settime hw CLOCK_REALTIME (Some \<lparr>tv_sec = 9223372036, tv_nsec = n\<rparr>) tm = None"
  using assms
  by (simp add: timespec_to_ns_checked_def k_nsec_per_sec_def s64_add_def in_s64_def clock_settime_def clock_settime_validate_def)

theorem clock_settime_overflow_witness:
  "timespec_to_ns_checked \<lparr>tv_sec = 9223372036, tv_nsec = 999999999\<rparr> = None"
  using clock_settime_overflow [of 999999999] by simp

text \<open>A wall clock set with \<open>clock_settime\<close> shows, at any later moment, the time it was set to
  plus the time that has elapsed on the hardware counter.\<close>

theorem clock_settime_gettime:
  assumes "clock_ok hw" "clock_ok hw'" "timespec_to_ns_checked ts = Some (Some ns)" "ns < 2 ^ 62"
  shows "\<exists>tm'. clock_settime hw CLOCK_REALTIME (Some ts) tm = Some (tm', 0) \<and>
    clock_gettime hw' cur tm' CLOCK_REALTIME False = Some (0, Some (ns_to_timespec (ns + (elapsed_ns hw' - elapsed_ns hw))))"
proof -
  have ns: "0 \<le> ns"
    using assms(3) by (auto simp: timespec_to_ns_checked_def k_nsec_per_sec_def s64_add_def split: if_splits bind_splits)
  have "in_s64 (ns + - elapsed_ns hw)" "in_s64 (elapsed_ns hw' + (ns - elapsed_ns hw))"
    using elapsed_ns_range [OF assms(1)] elapsed_ns_range [OF assms(2)] ns assms(4) unfolding in_s64_def by auto
  then show ?thesis
    using assms(3) cycles_to_ns_elapsed [OF assms(1)] cycles_to_ns_elapsed [OF assms(2)]
    by (simp add: clock_settime_def clock_settime_validate_def clock_gettime_def realtime_now_ns_locked_def
        s64_add_small Let_def algebra_simps)
qed

definition demo_hw :: "nat \<Rightarrow> hw_clock" where
  "demo_hw t = \<lparr>frequency_hz = 10000000, read_ticks = t\<rparr>"

lemma demo_hw_ok: "t < 10 ^ 12 \<Longrightarrow> clock_ok (demo_hw t)"
  by (auto simp: clock_ok_def demo_hw_def intro: le_less_trans [OF div_le_mono [of _ "10 ^ 12 * 1000000000"]])

theorem clock_settime_gettime_witness:
  "\<exists>tm'. clock_settime (demo_hw 5000) CLOCK_REALTIME (Some \<lparr>tv_sec = 1700000000, tv_nsec = 5\<rparr>)
      \<lparr>g_realtime_offset_ns = 0, trap_ticks = 0\<rparr> = Some (tm', 0) \<and>
    clock_gettime (demo_hw 90000000) (None :: task_times option) tm' CLOCK_REALTIME False =
      Some (0, Some (ns_to_timespec (1700000000000000005 + (elapsed_ns (demo_hw 90000000) - elapsed_ns (demo_hw 5000)))))"
  by (rule clock_settime_gettime)
    (simp_all add: demo_hw_ok timespec_to_ns_checked_def k_nsec_per_sec_def s64_add_def in_s64_def)

text \<open>The monotonic clock of a task never goes backwards as the counter advances.\<close>

theorem clock_monotonic:
  assumes "clock_ok hw" "clock_ok hw'" "frequency_hz hw = frequency_hz hw'" "read_ticks hw \<le> read_ticks hw'"
    and "cur = Some p" "\<bar>monotonic_offset_ns p\<bar> < 2 ^ 62"
  shows "\<exists>ts ts'. clock_gettime hw cur tm CLOCK_MONOTONIC False = Some (0, Some ts) \<and>
    clock_gettime hw' cur tm' CLOCK_MONOTONIC False = Some (0, Some ts') \<and> timespec_ns ts \<le> timespec_ns ts'"
proof -
  have "in_s64 (elapsed_ns h + monotonic_offset_ns p)" if "clock_ok h" for h
    using elapsed_ns_range [OF that] assms(6) unfolding in_s64_def by auto
  then show ?thesis
    using elapsed_ns_mono [OF assms(3,4)] cycles_to_ns_elapsed [OF assms(1)] cycles_to_ns_elapsed [OF assms(2)] assms(1,2,5)
    by (simp add: clock_gettime_def apply_time_namespace_offset_def s64_add_small ns_to_timespec_ns)
qed

theorem clock_monotonic_witness:
  "\<exists>ts ts'. clock_gettime (demo_hw 10) (Some \<lparr>user_ticks = 0, stime = 0, monotonic_offset_ns = 7, boottime_offset_ns = 0\<rparr>)
      \<lparr>g_realtime_offset_ns = 0, trap_ticks = 0\<rparr> CLOCK_MONOTONIC False = Some (0, Some ts) \<and>
    clock_gettime (demo_hw 5000) (Some \<lparr>user_ticks = 0, stime = 0, monotonic_offset_ns = 7, boottime_offset_ns = 0\<rparr>)
      \<lparr>g_realtime_offset_ns = 3, trap_ticks = 9\<rparr> CLOCK_MONOTONIC False = Some (0, Some ts') \<and>
    timespec_ns ts \<le> timespec_ns ts'"
  by (rule clock_monotonic) (simp_all add: demo_hw_ok, simp_all add: demo_hw_def)

text \<open>A sleep of \<open>n\<close> ticks returns 0 only at a look at the counter that is at least \<open>n\<close> ticks
  after the start, and returns at the first such look unless a signal or a kill came before; it never
  misses (counters below \<open>2 ^ 31\<close>).\<close>

theorem sleep_n_ticks_correct:
  assumes "0 \<le> n" "n < 2 ^ 31" "\<forall>l\<in>set ((start, pend, kill) # looks). start \<le> fst l \<and> fst l < 2 ^ 31"
  shows "sleep_n_ticks n ((start, pend, kill) # looks) =
    (case dropWhile (\<lambda>(now, pending, killed). int now < int start + n \<and> \<not> pending \<and> \<not> killed) ((start, pend, kill) # looks) of
       [] \<Rightarrow> Some (Inr ())
     | (now, pending, killed) # _ \<Rightarrow>
         Some (Inl (if int start + n \<le> int now then 0 else if pending then -4 else -2)))"
proof -
  have s32: "to_s32 (int a) = int a" if "a < 2 ^ 31" for a
    using that by (simp add: to_s32_def Let_def)
  have start: "start < 2 ^ 31" using assms(3) by simp
  have "sleep_loop start n ls =
    (case dropWhile (\<lambda>(now, pending, killed). int now < int start + n \<and> \<not> pending \<and> \<not> killed) ls of
       [] \<Rightarrow> Some (Inr ())
     | (now, pending, killed) # _ \<Rightarrow> Some (Inl (if int start + n \<le> int now then 0 else if pending then -4 else -2)))"
    if "\<forall>l\<in>set ls. start \<le> fst l \<and> fst l < 2 ^ 31" for ls
    using that by (induction ls) (auto simp: s32 start Let_def split: if_splits)
  with assms show ?thesis by (simp add: sleep_n_ticks_def)
qed

theorem sleep_n_ticks_correct_witness:
  "sleep_n_ticks 2 [(100, False, False), (101, False, False), (102, True, False)] =
    (case dropWhile (\<lambda>(now, pending, killed). int now < int 100 + 2 \<and> \<not> pending \<and> \<not> killed)
       [(100, False, False), (101, False, False), (102, True, False)] of
       [] \<Rightarrow> Some (Inr ())
     | (now, pending, killed) # _ \<Rightarrow> Some (Inl (if int 100 + 2 \<le> int now then 0 else if pending then -4 else -2)))"
  by (rule sleep_n_ticks_correct) simp_all

end
