(* ===== verification/Timer_Correct.thy ===== *)
theory Timer_Correct
  imports Timer_Syscalls Time_Theorems
begin

text \<open>
  The invariant of the timers and the lemma that each operation of \<open>posix_timers.cc\<close> keeps it
  without a fault: the two counters of armed timers are exact, an armed slot is active and has an
  owner in the pool, and the identifiers of the active slots are distinct.
\<close>

section \<open>The invariant\<close>

definition real_armed :: "Pcb \<Rightarrow> bool" where
  "real_armed p \<longleftrightarrow> it_armed (itimer p ! 0)"

definition armed_slots :: "timers \<Rightarrow> nat" where
  "armed_slots s = length (filter timer_armed (g_timers s))"

definition armed_real :: "timers \<Rightarrow> nat" where
  "armed_real s = length (filter real_armed (proc_pool s))"

definition pcb_ok :: "Pcb \<Rightarrow> bool" where
  "pcb_ok p \<longleftrightarrow> length (itimer p) = k_interval_timer_count \<and> (\<forall>t\<in>set (itimer p). interval_us t < 2 ^ 63)"

definition slot_ok :: "timers \<Rightarrow> extended_posix_timer \<Rightarrow> bool" where
  "slot_ok s t \<longleftrightarrow> (\<forall>i. timer_owner t = Some i \<longrightarrow> i < length (proc_pool s)) \<and> (timer_armed t \<longrightarrow> timer_active t) \<and>
     (timer_active t \<longrightarrow> 0 < timer_id t \<and> timer_id t < g_next_timer_id s)"

definition ids_unique :: "extended_posix_timer list \<Rightarrow> bool" where
  "ids_unique ts \<longleftrightarrow> (\<forall>j k. j < length ts \<longrightarrow> k < length ts \<longrightarrow> timer_active (ts ! j) \<longrightarrow> timer_active (ts ! k) \<longrightarrow>
     timer_id (ts ! j) = timer_id (ts ! k) \<longrightarrow> j = k)"

definition timers_inv :: "timers \<Rightarrow> bool" where
  "timers_inv s \<longleftrightarrow> length (g_timers s) = 32 \<and> length (proc_pool s) < 2 ^ 32 \<and> (\<forall>p\<in>set (proc_pool s). pcb_ok p) \<and>
     (\<forall>t\<in>set (g_timers s). slot_ok s t) \<and> ids_unique (g_timers s) \<and> 0 < g_next_timer_id s \<and>
     g_armed_posix_timers s = armed_slots s \<and> g_armed_realtime_interval_timers s = armed_real s"

text \<open>What the timer operations leave alone in a task.\<close>

definition strip :: "Pcb \<Rightarrow> Pcb" where
  "strip p = p\<lparr>pcb_state := UNUSED, continued_pending := False, itimer := []\<rparr>"

definition same_tasks :: "timers \<Rightarrow> timers \<Rightarrow> bool" where
  "same_tasks s s' \<longleftrightarrow> map strip (proc_pool s') = map strip (proc_pool s)"

text \<open>The conditions on the environment: the clocks are in range and the current task is in the pool.\<close>

definition task_clock_ok :: "timer_env \<Rightarrow> Pcb \<Rightarrow> bool" where
  "task_clock_ok e p \<longleftrightarrow> \<bar>monotonic_offset_ns p\<bar> < 2 ^ 62 \<and> \<bar>boottime_offset_ns p\<bar> < 2 ^ 62 \<and>
     (user_ticks p + stime p + trap_ticks (env_tm e)) * cycles_per_tick (frequency_hz (env_hw e)) < 2 ^ 62 \<and>
     kernel_entry_tick p \<le> trap_ticks (env_tm e)"

definition env_ok :: "timer_env \<Rightarrow> timers \<Rightarrow> bool" where
  "env_ok e s \<longleftrightarrow> clock_ok (env_hw e) \<and> 10 ^ 6 \<le> frequency_hz (env_hw e) \<and>
     \<bar>g_realtime_offset_ns (env_tm e)\<bar> < 2 ^ 62 \<and>
     (\<forall>p\<in>set (map strip (proc_pool s)). task_clock_ok e p) \<and>
     (\<forall>i. env_current e = Some i \<longrightarrow> i < length (proc_pool s))"

lemma same_tasks_refl [simp]: "same_tasks s s"
  by (simp add: same_tasks_def)

lemma same_tasks_trans: "same_tasks s s' \<Longrightarrow> same_tasks s' s'' \<Longrightarrow> same_tasks s s''"
  by (simp add: same_tasks_def)

lemma same_tasks_length: "same_tasks s s' \<Longrightarrow> length (proc_pool s') = length (proc_pool s)"
  by (metis length_map same_tasks_def)

lemma same_tasks_strip: "same_tasks s s' \<Longrightarrow> i < length (proc_pool s) \<Longrightarrow> strip (proc_pool s' ! i) = strip (proc_pool s ! i)"
  by (metis nth_map same_tasks_def same_tasks_length)

lemma env_ok_same: "env_ok e s \<Longrightarrow> same_tasks s s' \<Longrightarrow> env_ok e s'"
  using same_tasks_length [of s s'] by (simp add: env_ok_def same_tasks_def)

lemma strip_simps [simp]:
  "user_ticks (strip p) = user_ticks p" "stime (strip p) = stime p" "kernel_entry_tick (strip p) = kernel_entry_tick p"
  "monotonic_offset_ns (strip p) = monotonic_offset_ns p" "boottime_offset_ns (strip p) = boottime_offset_ns p"
  "tgid (strip p) = tgid p"
  "strip (p\<lparr>pcb_state := x\<rparr>) = strip p" "strip (p\<lparr>itimer := ts\<rparr>) = strip p" "strip (p\<lparr>continued_pending := b\<rparr>) = strip p"
  by (simp_all add: strip_def)

lemma task_clock_okD:
  assumes "env_ok e s" "i < length (proc_pool s)"
  shows "task_clock_ok e (proc_pool s ! i)"
proof -
  have "strip (proc_pool s ! i) \<in> set (map strip (proc_pool s))" using assms(2) by auto
  then have "task_clock_ok e (strip (proc_pool s ! i))" using assms(1) by (auto simp: env_ok_def)
  then show ?thesis by (simp add: task_clock_ok_def)
qed

text \<open>The conditions on what happens while \<open>futex_remove_waiter\<close> has given up the lock of task \<open>i\<close>: the
  other processors keep the invariant, the range of the clocks and the size of the pool; and, where it
  matters, they leave the interval timers of that one task alone.\<close>

definition stable :: "timer_env \<Rightarrow> timers \<Rightarrow> timers \<Rightarrow> bool" where
  "stable e s s' \<longleftrightarrow> env_ok e s' \<and> length (proc_pool s') = length (proc_pool s)"

definition window_inv :: "timer_env \<Rightarrow> bool" where
  "window_inv e \<longleftrightarrow> (\<forall>i s. timers_inv s \<longrightarrow> env_ok e s \<longrightarrow> i < length (proc_pool s) \<longrightarrow>
     timers_inv (env_after_remove e i s) \<and> stable e s (env_after_remove e i s))"

definition window_ok :: "timer_env \<Rightarrow> bool" where
  "window_ok e \<longleftrightarrow> window_inv e \<and> (\<forall>i s. timers_inv s \<longrightarrow> env_ok e s \<longrightarrow> i < length (proc_pool s) \<longrightarrow>
     itimer (proc_pool (env_after_remove e i s) ! i) = itimer (proc_pool s ! i))"

lemma stable_refl: "env_ok e s \<Longrightarrow> stable e s s"
  by (simp add: stable_def)

lemma stable_trans: "stable e s s' \<Longrightarrow> stable e s' s'' \<Longrightarrow> stable e s s''"
  by (simp add: stable_def)

lemma stableD: "stable e s s' \<Longrightarrow> env_ok e s'" "stable e s s' \<Longrightarrow> length (proc_pool s') = length (proc_pool s)"
  by (simp_all add: stable_def)

lemma same_tasks_stable: "env_ok e s \<Longrightarrow> same_tasks s s' \<Longrightarrow> stable e s s'"
  using env_ok_same same_tasks_length by (simp add: stable_def)

section \<open>Counting\<close>

lemma count_update:
  assumes "i < length xs"
  shows "length (filter P (xs[i := v])) + (if P (xs ! i) then 1 else 0) = length (filter P xs) + (if P v then 1 else 0)"
proof -
  have e: "filter P xs = filter P (take i xs) @ filter P [xs ! i] @ filter P (drop (Suc i) xs)"
    by (metis append_Cons append_Nil assms filter_append id_take_nth_drop)
  have u: "filter P (xs[i := v]) = filter P (take i xs) @ filter P [v] @ filter P (drop (Suc i) xs)"
    by (metis append_Cons append_Nil assms filter_append upd_conv_take_nth_drop)
  have "length (filter P (xs[i := v])) = length (filter P (take i xs)) + (length (filter P [v]) + length (filter P (drop (Suc i) xs)))"
    by (simp only: u length_append)
  moreover have "length (filter P xs) = length (filter P (take i xs)) + (length (filter P [xs ! i]) + length (filter P (drop (Suc i) xs)))"
    by (simp only: e length_append)
  ultimately show ?thesis by simp
qed

lemma count_pos: "i < length xs \<Longrightarrow> P (xs ! i) \<Longrightarrow> 0 < length (filter P xs)"
  by (auto simp: filter_empty_conv)

lemma count_room:
  assumes "i < length xs" "\<not> P (xs ! i)"
  shows "length (filter P xs) < length xs"
  by (rule length_filter_less [of "xs ! i"]) (use assms in auto)

section \<open>Interval timers\<close>

lemma timers_invD:
  assumes "timers_inv s"
  shows "length (g_timers s) = 32" "\<And>p. p \<in> set (proc_pool s) \<Longrightarrow> pcb_ok p"
    "\<And>i. i < length (proc_pool s) \<Longrightarrow> pcb_ok (proc_pool s ! i)"
    "\<And>k. k < 32 \<Longrightarrow> slot_ok s (g_timers s ! k)"
    "g_armed_posix_timers s = armed_slots s" "g_armed_realtime_interval_timers s = armed_real s"
  using assms by (auto simp: timers_inv_def)

text \<open>A task may change in any field but its real timer's armed bit without touching the counter.\<close>

lemma pool_update_inv:
  assumes inv: "timers_inv s" and i: "i < length (proc_pool s)" and ok: "pcb_ok p"
    and cnt: "n + (if real_armed (proc_pool s ! i) then 1 else 0) = armed_real s + (if real_armed p then 1 else 0)"
  shows "timers_inv (s\<lparr>proc_pool := (proc_pool s)[i := p], g_armed_realtime_interval_timers := n\<rparr>)"
proof -
  let ?s = "s\<lparr>proc_pool := (proc_pool s)[i := p], g_armed_realtime_interval_timers := n\<rparr>"
  have "n = armed_real ?s"
    using count_update [OF i, of real_armed p] cnt by (simp add: armed_real_def split: if_splits)
  moreover have "\<forall>q\<in>set ((proc_pool s)[i := p]). pcb_ok q"
    using timers_invD(2) [OF inv] ok by (auto dest: set_update_subset_insert [THEN subsetD])
  ultimately show ?thesis
    using inv by (auto simp: timers_inv_def slot_ok_def armed_slots_def)
qed

lemma pool_update_same:
  assumes "timers_inv s" "i < length (proc_pool s)" "pcb_ok p" "real_armed p = real_armed (proc_pool s ! i)"
    and "strip p = strip (proc_pool s ! i)"
  shows "timers_inv (s\<lparr>proc_pool := (proc_pool s)[i := p]\<rparr>) \<and> same_tasks s (s\<lparr>proc_pool := (proc_pool s)[i := p]\<rparr>)"
proof
  have "timers_inv (s\<lparr>proc_pool := (proc_pool s)[i := p], g_armed_realtime_interval_timers := armed_real s\<rparr>)"
    by (rule pool_update_inv) (use assms in simp_all)
  moreover have "s\<lparr>proc_pool := (proc_pool s)[i := p], g_armed_realtime_interval_timers := armed_real s\<rparr> =
      s\<lparr>proc_pool := (proc_pool s)[i := p]\<rparr>"
    using timers_invD(6) [OF assms(1)] by simp
  ultimately show "timers_inv (s\<lparr>proc_pool := (proc_pool s)[i := p]\<rparr>)" by simp
  show "same_tasks s (s\<lparr>proc_pool := (proc_pool s)[i := p]\<rparr>)"
    using assms(2,5) by (simp add: same_tasks_def map_update list_update_same_conv)
qed

text \<open>The counter follows the armed bit of the real timer.\<close>

definition retarget :: "int \<Rightarrow> bool \<Rightarrow> bool \<Rightarrow> timers \<Rightarrow> timers" where
  "retarget which was now s =
     (if was \<and> \<not> now then note_realtime_interval_timer_disarmed which s
      else if \<not> was \<and> now then note_realtime_interval_timer_armed which s else s)"

lemma set_itimer_inv:
  assumes inv: "timers_inv s" and i: "i < length (proc_pool s)" and w: "is_valid_interval_timer_kind which"
    and t: "interval_us t < 2 ^ 63" and was: "was = it_armed (itimer (proc_pool s ! i) ! nat which)"
  shows "\<exists>s'. set_itimer i which t (retarget which was (it_armed t) s) = Some s' \<and> timers_inv s' \<and> same_tasks s s' \<and>
    itimer (proc_pool s' ! i) = (itimer (proc_pool s ! i))[nat which := t] \<and>
    (\<forall>j. j \<noteq> i \<longrightarrow> proc_pool s' ! j = proc_pool s ! j) \<and> g_timers s' = g_timers s \<and>
    g_timers_initialized s' = g_timers_initialized s \<and>
    retarget which was (it_armed t) (s\<lparr>proc_pool := proc_pool s'\<rparr>) = s'"
proof -
  let ?p = "proc_pool s ! i"
  let ?q = "?p\<lparr>itimer := (itimer ?p)[nat which := t]\<rparr>"
  have ok: "pcb_ok ?p" using timers_invD(3) [OF inv i] .
  then have k: "nat which < length (itimer ?p)"
    using w by (auto simp: pcb_ok_def is_valid_interval_timer_kind_def)
  have okq: "pcb_ok ?q"
    using ok t by (auto simp: pcb_ok_def dest!: set_update_subset_insert [THEN subsetD])
  have pos: "real_armed ?p \<Longrightarrow> 0 < armed_real s"
    unfolding armed_real_def using count_pos [OF i, of real_armed] .
  have room: "\<not> real_armed ?p \<Longrightarrow> armed_real s + 1 < 2 ^ 32"
    using count_room [OF i, of real_armed] inv by (auto simp: armed_real_def timers_inv_def)
  have rq: "real_armed ?q = (if which = 0 then it_armed t else real_armed ?p)"
    using w k by (auto simp: real_armed_def is_valid_interval_timer_kind_def nth_list_update)
  have rp: "which = 0 \<Longrightarrow> real_armed ?p = was" by (simp add: real_armed_def was)
  define n where "n = g_armed_realtime_interval_timers (retarget which was (it_armed t) s)"
  have n: "n + (if real_armed ?p then 1 else 0) = armed_real s + (if real_armed ?q then 1 else 0)"
    using pos room rp timers_invD(6) [OF inv]
    by (auto simp: n_def rq retarget_def note_realtime_interval_timer_disarmed_def note_realtime_interval_timer_armed_def
        k_interval_timer_real_def u32_sub_def u32_add_def)
  let ?s = "s\<lparr>proc_pool := (proc_pool s)[i := ?q], g_armed_realtime_interval_timers := n\<rparr>"
  have r: "retarget which was (it_armed t) u = u\<lparr>g_armed_realtime_interval_timers := n\<rparr>"
    if "g_armed_realtime_interval_timers u = g_armed_realtime_interval_timers s" for u
    using that by (auto simp: n_def retarget_def note_realtime_interval_timer_disarmed_def note_realtime_interval_timer_armed_def)
  have "set_itimer i which t (retarget which was (it_armed t) s) = Some ?s"
    using i k by (simp add: set_itimer_def array_simps r)
  moreover have "timers_inv ?s" by (rule pool_update_inv [OF inv i okq n])
  moreover have "same_tasks s ?s"
    using i by (simp add: same_tasks_def map_update list_update_same_conv)
  ultimately show ?thesis
    using i by (intro exI [of _ ?s]) (simp add: r)
qed

text \<open>Undisturbed by a wrap-around, the loop that advances an expiry time ends at the first multiple of
  the interval after the present.\<close>

lemma advance_expiry_Some:
  assumes "0 < interval" "now + interval < 2 ^ 64" "expiry \<le> now"
  shows "advance_expiry expiry interval now = Some (expiry + ((now - expiry) div interval + 1) * interval)"
  using assms(3)
proof (induction "now - expiry" arbitrary: expiry rule: less_induct)
  case less
  have a: "u64_add expiry interval = expiry + interval"
    by (rule u64_add_small) (use assms less.prems in linarith)
  show ?case
  proof (cases "expiry + interval \<le> now")
    case True
    have "advance_expiry (expiry + interval) interval now =
        Some (expiry + interval + ((now - (expiry + interval)) div interval + 1) * interval)"
      by (rule less.hyps) (use True assms(1) in auto)
    moreover have "(now - expiry) div interval = (now - (expiry + interval)) div interval + 1"
      using True assms(1) div_add_self2 [of interval "now - (expiry + interval)"] by simp
    ultimately show ?thesis
      using True by (simp add: advance_expiry.simps [of expiry] a Let_def)
  next
    case False
    then have "(now - expiry) div interval = 0" using less.prems by simp
    then show ?thesis using False by (simp add: advance_expiry.simps [of expiry] a Let_def)
  qed
qed

lemma interrupt_sleep_for_signal_inv:
  assumes inv: "timers_inv s" and env: "env_ok e s" and win: "window_inv e" and i: "i < length (proc_pool s)"
  shows "\<exists>s' b evs. interrupt_sleep_for_signal e i s = Some (s', b, evs) \<and> timers_inv s' \<and> stable e s s' \<and>
    (window_ok e \<longrightarrow> itimer (proc_pool s' ! i) = itimer (proc_pool s ! i))"
proof (cases "pcb_state (proc_pool s ! i) \<noteq> SLEEPING \<or> \<not> env_unmasked e i")
  case True
  then show ?thesis using inv i stable_refl [OF env] by (auto simp: interrupt_sleep_for_signal_def array_simps)
next
  case False
  define s1 where "s1 = env_after_remove e i s"
  let ?p = "proc_pool s1 ! i" and ?s2 = "s1\<lparr>proc_pool := (proc_pool s1)[i := (proc_pool s1 ! i)\<lparr>pcb_state := RUNNABLE\<rparr>]\<rparr>"
  have s1: "timers_inv s1" "stable e s s1" "window_ok e \<Longrightarrow> itimer ?p = itimer (proc_pool s ! i)"
    using win inv env i by (simp_all add: window_inv_def window_ok_def s1_def)
  have i1: "i < length (proc_pool s1)" using stableD(2) [OF s1(2)] i by simp
  have u: "timers_inv ?s2 \<and> same_tasks s1 ?s2"
    by (rule pool_update_same) (use s1(1) i1 timers_invD(3) [OF s1(1) i1] in \<open>simp_all add: pcb_ok_def real_armed_def\<close>)
  then have "stable e s ?s2" using same_tasks_stable [OF stableD(1) [OF s1(2)]] stable_trans [OF s1(2)] by blast
  moreover have "interrupt_sleep_for_signal e i s =
      Some (if pcb_state ?p \<noteq> SLEEPING then (s1, False, [T_futex_remove i]) else (?s2, True, [T_futex_remove i]))"
    using False i i1 by (simp add: interrupt_sleep_for_signal_def array_simps s1_def)
  ultimately show ?thesis using s1 u i1 by (cases "pcb_state ?p = SLEEPING") auto
qed

lemma itimers_eq: "map itimer ps' = map itimer ps \<Longrightarrow> i < length ps \<Longrightarrow> itimer (ps' ! i) = itimer (ps ! i)"
  by (metis length_map nth_map)

lemma fire_signal_inv:
  assumes inv: "timers_inv s" and env: "env_ok e s" and win: "window_inv e" and i: "i < length (proc_pool s)"
  shows "\<exists>s' evs. fire_signal e i signo s = Some (s', evs) \<and> timers_inv s' \<and> stable e s s' \<and>
    (window_ok e \<longrightarrow> itimer (proc_pool s' ! i) = itimer (proc_pool s ! i)) \<and> (0 < signo \<longrightarrow> T_add_signal i signo \<in> set evs)"
proof (cases "0 < signo")
  case True
  obtain s' b evs where s': "interrupt_sleep_for_signal e i s = Some (s', b, evs)" "timers_inv s'" "stable e s s'"
    "window_ok e \<longrightarrow> itimer (proc_pool s' ! i) = itimer (proc_pool s ! i)"
    using interrupt_sleep_for_signal_inv [OF assms] by blast
  then show ?thesis
    using True i stableD(2) [OF s'(3)] by (simp add: fire_signal_def kick_last_cpu_def array_simps)
next
  case False
  then show ?thesis using inv stable_refl [OF env] by (simp add: fire_signal_def)
qed

lemma signal_pos: "is_valid_interval_timer_kind which \<Longrightarrow> 0 < timer_signal_for_kind which"
  by (auto simp: is_valid_interval_timer_kind_def timer_signal_for_kind_def k_interval_timer_count_def k_interval_timer_real_def
      k_interval_timer_virtual_def k_interval_timer_prof_def SIGALRM_def SIGVTALRM_def SIGPROF_def)

text \<open>What becomes of an interval timer that is looked at, at time \<open>now\<close>.\<close>

definition itimer_at :: "nat \<Rightarrow> interval_timer_state \<Rightarrow> interval_timer_state" where
  "itimer_at now t =
     (if \<not> it_armed t \<or> now < expiry_us t then t
      else if interval_us t = 0 then t\<lparr>it_armed := False, expiry_us := 0\<rparr>
      else t\<lparr>expiry_us := expiry_us t + ((now - expiry_us t) div interval_us t + 1) * interval_us t\<rparr>)"

lemma maybe_fire_inv:
  assumes inv: "timers_inv s" and env: "env_ok e s" and win: "window_ok e" and i: "i < length (proc_pool s)"
    and w: "is_valid_interval_timer_kind which" and now: "now < 2 ^ 63"
  shows "\<exists>s' evs. maybe_fire_interval_timer e i which now s = Some (s', evs) \<and> timers_inv s' \<and> stable e s s' \<and>
    itimer (proc_pool s' ! i) = (itimer (proc_pool s ! i))[nat which := itimer_at now (itimer (proc_pool s ! i) ! nat which)] \<and>
    (T_add_signal i (timer_signal_for_kind which) \<in> set evs \<longleftrightarrow>
       it_armed (itimer (proc_pool s ! i) ! nat which) \<and> expiry_us (itimer (proc_pool s ! i) ! nat which) \<le> now)"
proof -
  let ?t = "itimer (proc_pool s ! i) ! nat which"
  have ok: "pcb_ok (proc_pool s ! i)" using timers_invD(3) [OF inv i] .
  then have k: "nat which < length (itimer (proc_pool s ! i))" and iv: "interval_us ?t < 2 ^ 63"
    using w by (auto simp: pcb_ok_def is_valid_interval_timer_kind_def)
  have wi: "window_inv e" using win by (simp add: window_ok_def)
  show ?thesis
  proof (cases "\<not> it_armed ?t \<or> now < expiry_us ?t")
    case True
    then show ?thesis
      using inv i w k stable_refl [OF env] by (auto simp: maybe_fire_interval_timer_def array_simps itimer_at_def)
  next
    case False
    obtain s1 evs where s1: "fire_signal e i (timer_signal_for_kind which) s = Some (s1, evs)" "timers_inv s1" "stable e s s1"
      "itimer (proc_pool s1 ! i) = itimer (proc_pool s ! i)" "T_add_signal i (timer_signal_for_kind which) \<in> set evs"
      using fire_signal_inv [OF inv env wi i, of "timer_signal_for_kind which"] signal_pos [OF w] win by blast
    have i1: "i < length (proc_pool s1)" using i stableD(2) [OF s1(3)] by simp
    have iv': "interval_us (itimer_at now ?t) < 2 ^ 63" using iv by (simp add: itimer_at_def)
    have adv: "interval_us ?t \<noteq> 0 \<Longrightarrow> advance_expiry (expiry_us ?t) (interval_us ?t) now =
        Some (expiry_us ?t + ((now - expiry_us ?t) div interval_us ?t + 1) * interval_us ?t)"
      by (rule advance_expiry_Some) (use False now iv in auto)
    obtain s2 where s2: "set_itimer i which (itimer_at now ?t) (retarget which True (it_armed (itimer_at now ?t)) s1) = Some s2"
      "timers_inv s2" "same_tasks s1 s2" "itimer (proc_pool s2 ! i) = (itimer (proc_pool s1 ! i))[nat which := itimer_at now ?t]"
      using set_itimer_inv [OF s1(2) i1 w iv', of True] False s1(4) by auto
    have "maybe_fire_interval_timer e i which now s = Some (s2, evs)"
      using False w i i1 k s1(1,4) s2(1) adv
      by (auto simp: maybe_fire_interval_timer_def array_simps itimer_at_def retarget_def)
    moreover have "stable e s s2"
      using stable_trans [OF s1(3) same_tasks_stable [OF stableD(1) [OF s1(3)] s2(3)]] .
    ultimately show ?thesis using s2 s1 False by auto
  qed
qed

section \<open>The present time of an interval timer\<close>

lemma usec_exact:
  assumes "clock_ok hw" "c * 1000000 div frequency_hz hw < 2 ^ 64"
  shows "time_stamp_to_usec (frequency_hz hw) c = c * 1000000 div frequency_hz hw"
proof -
  have "cycles_to_units (frequency_hz hw) c 1000000 = c * 1000000 div frequency_hz hw"
    by (rule cycles_to_units_split) (use assms in \<open>auto simp: clock_ok_def\<close>)
  then show ?thesis by (simp add: time_stamp_to_usec_def cycles_to_microseconds_def M_dec_def K_dec_def)
qed

lemma usec_bound:
  assumes "clock_ok hw" "1000000 \<le> frequency_hz hw" "c < 2 ^ 62"
  shows "time_stamp_to_usec (frequency_hz hw) c < 2 ^ 63"
proof -
  have "c * 1000000 div frequency_hz hw \<le> c * 1000000 div 1000000" using assms(2) by (intro div_le_mono2) auto
  then have "c * 1000000 div frequency_hz hw < 2 ^ 62" using assms(3) by simp
  with usec_exact [OF assms(1), of c] show ?thesis by simp
qed

lemma realtime_now_bound:
  assumes "clock_ok (env_hw e)"
  shows "realtime_now_usec e < 2 ^ 63"
proof -
  have "read_ticks (env_hw e) * 1000000 div frequency_hz (env_hw e) \<le> read_ticks (env_hw e) * 1000000000 div frequency_hz (env_hw e)"
    by (rule div_le_mono) simp
  then have "read_ticks (env_hw e) * 1000000 div frequency_hz (env_hw e) < 2 ^ 62" using assms by (simp add: clock_ok_def)
  with usec_exact [OF assms, of "read_ticks (env_hw e)"] show ?thesis by (simp add: realtime_now_usec_def)
qed

lemma ticks_to_usec_bound:
  assumes "clock_ok hw" "1000000 \<le> frequency_hz hw" "n * cycles_per_tick (frequency_hz hw) < 2 ^ 62"
  shows "ticks_to_usec (frequency_hz hw) n < 2 ^ 63"
  using usec_bound [OF assms] assms(3) by (simp add: ticks_to_usec_def u64_mul_small)

lemma interval_timer_now_bound:
  assumes "env_ok e s" "i < length (proc_pool s)"
  shows "\<exists>now. interval_timer_now_usec e s i which = Some now \<and> now < 2 ^ 63"
proof -
  let ?p = "proc_pool s ! i"
  let ?c = "cycles_per_tick (frequency_hz (env_hw e))"
  have ok: "clock_ok (env_hw e)" "1000000 \<le> frequency_hz (env_hw e)" using assms(1) by (auto simp: env_ok_def)
  have b: "(user_ticks ?p + stime ?p + trap_ticks (env_tm e)) * ?c < 2 ^ 62" and k: "kernel_entry_tick ?p \<le> trap_ticks (env_tm e)"
    using task_clock_okD [OF assms] by (auto simp: task_clock_ok_def)
  have t: "ticks_to_usec (frequency_hz (env_hw e)) n < 2 ^ 63" if "n \<le> user_ticks ?p + stime ?p + trap_ticks (env_tm e)" for n
  proof (rule ticks_to_usec_bound [OF ok])
    have "n * ?c \<le> (user_ticks ?p + stime ?p + trap_ticks (env_tm e)) * ?c" using that by (rule mult_le_mono1)
    with b show "n * ?c < 2 ^ 62" by linarith
  qed
  have m: "a mod 2 ^ 64 \<le> m" if "a \<le> m" for a m :: nat
    using that mod_less_eq_dividend [of a "2 ^ 64"] by linarith
  have "u64_add (user_ticks ?p) (stime ?p) \<le> user_ticks ?p + stime ?p" unfolding u64_add_def by (rule m) simp
  moreover have "u64_add (u64_add (user_ticks ?p) (stime ?p)) (u64_sub (trap_ticks (env_tm e)) (kernel_entry_tick ?p))
      \<le> user_ticks ?p + stime ?p + trap_ticks (env_tm e)"
    unfolding u64_add_def by (rule m) (use k in \<open>auto simp: u64_sub_small intro!: add_mono m\<close>)
  ultimately show ?thesis
    using assms(2) realtime_now_bound [OF ok(1)] t by (simp add: interval_timer_now_usec_def array_simps Let_def)
qed

section \<open>The operations on interval timers\<close>

lemma read_interval_timer_locked_inv:
  assumes inv: "timers_inv s" and env: "env_ok e s" and win: "window_ok e" and i: "i < length (proc_pool s)"
    and w: "is_valid_interval_timer_kind which" and now: "interval_timer_now_usec e s i which = Some now"
  shows "\<exists>s' evs. read_interval_timer_locked e i which s =
      Some (s', (let t = itimer_at now (itimer (proc_pool s ! i) ! nat which)
                 in (if it_armed t then expiry_us t - now else 0, interval_us t)), evs) \<and>
    timers_inv s' \<and> stable e s s' \<and>
    itimer (proc_pool s' ! i) = (itimer (proc_pool s ! i))[nat which := itimer_at now (itimer (proc_pool s ! i) ! nat which)]"
proof -
  have n: "now < 2 ^ 63" using interval_timer_now_bound [OF env i, of which] now by auto
  obtain s' evs where s': "maybe_fire_interval_timer e i which now s = Some (s', evs)" "timers_inv s'" "stable e s s'"
    "itimer (proc_pool s' ! i) = (itimer (proc_pool s ! i))[nat which := itimer_at now (itimer (proc_pool s ! i) ! nat which)]"
    using maybe_fire_inv [OF inv env win i w n] by blast
  have k: "nat which < length (itimer (proc_pool s ! i))"
    using w timers_invD(3) [OF inv i] by (auto simp: pcb_ok_def is_valid_interval_timer_kind_def)
  have "i < length (proc_pool s')" using i stableD(2) [OF s'(3)] by simp
  then show ?thesis
    using s' now k by (auto simp: read_interval_timer_locked_def array_simps Let_def)
qed

lemma reset_interval_timer_inv:
  assumes inv: "timers_inv s" and i: "i < length (proc_pool s)" and k: "k < k_interval_timer_count"
  shows "\<exists>s'. reset_interval_timer i k s = Some s' \<and> timers_inv s' \<and> same_tasks s s' \<and> g_timers s' = g_timers s \<and>
    g_timers_initialized s' = g_timers_initialized s \<and>
    itimer (proc_pool s' ! i) = (itimer (proc_pool s ! i))[k := \<lparr>it_armed = False, interval_us = 0, expiry_us = 0\<rparr>]"
proof -
  let ?t = "\<lparr>it_armed = False, interval_us = 0, expiry_us = 0\<rparr>"
  have w: "is_valid_interval_timer_kind (int k)" using k by (simp add: is_valid_interval_timer_kind_def)
  have k': "k < length (itimer (proc_pool s ! i))" using k timers_invD(3) [OF inv i] by (simp add: pcb_ok_def)
  obtain s' where "set_itimer i (int k) ?t (retarget (int k) (it_armed (itimer (proc_pool s ! i) ! k)) False s) = Some s'"
    "timers_inv s'" "same_tasks s s'" "itimer (proc_pool s' ! i) = (itimer (proc_pool s ! i))[k := ?t]" "g_timers s' = g_timers s"
    "g_timers_initialized s' = g_timers_initialized s"
    using set_itimer_inv [OF inv i w, of ?t] by auto
  then show ?thesis
    using i k' by (auto simp: reset_interval_timer_def array_simps retarget_def split: if_splits)
qed

lemma reset_interval_timers_inv:
  assumes inv: "timers_inv s" and i: "i < length (proc_pool s)"
  shows "\<exists>s'. reset_interval_timers (Some i) s = Some s' \<and> timers_inv s' \<and> same_tasks s s' \<and> g_timers s' = g_timers s \<and>
    itimer (proc_pool s' ! i) = replicate k_interval_timer_count \<lparr>it_armed = False, interval_us = 0, expiry_us = 0\<rparr>"
proof -
  let ?t = "\<lparr>it_armed = False, interval_us = 0, expiry_us = 0\<rparr>"
  have l: "length (itimer (proc_pool s ! i)) = 3" using timers_invD(3) [OF inv i] by (simp add: pcb_ok_def k_interval_timer_count_def)
  note st = reset_interval_timer_inv
  obtain s1 where s1: "reset_interval_timer i 0 s = Some s1" "timers_inv s1" "same_tasks s s1" "g_timers s1 = g_timers s"
    "itimer (proc_pool s1 ! i) = (itimer (proc_pool s ! i))[0 := ?t]"
    using st [OF inv i, of 0] by (auto simp: k_interval_timer_count_def)
  have i1: "i < length (proc_pool s1)" using i same_tasks_length [OF s1(3)] by simp
  obtain s2 where s2: "reset_interval_timer i 1 s1 = Some s2" "timers_inv s2" "same_tasks s1 s2" "g_timers s2 = g_timers s1"
    "itimer (proc_pool s2 ! i) = (itimer (proc_pool s1 ! i))[1 := ?t]"
    using st [OF s1(2) i1, of 1] by (auto simp: k_interval_timer_count_def)
  have i2: "i < length (proc_pool s2)" using i1 same_tasks_length [OF s2(3)] by simp
  obtain s3 where s3: "reset_interval_timer i 2 s2 = Some s3" "timers_inv s3" "same_tasks s2 s3" "g_timers s3 = g_timers s2"
    "itimer (proc_pool s3 ! i) = (itimer (proc_pool s2 ! i))[2 := ?t]"
    using st [OF s2(2) i2, of 2] by (auto simp: k_interval_timer_count_def)
  obtain a b c where abc: "itimer (proc_pool s ! i) = [a, b, c]" using l by (auto simp: length_Suc_conv numeral_3_eq_3)
  have u: "[0..<k_interval_timer_count] = [0, 1, 2]" by (simp add: k_interval_timer_count_def upt_conv_Cons)
  have r: "replicate k_interval_timer_count ?t = [?t, ?t, ?t]" by (simp add: k_interval_timer_count_def numeral_3_eq_3)
  show ?thesis
    using s1(1) s2(1) s3 s1(4,5) s2(4,5) same_tasks_trans [OF same_tasks_trans [OF s1(3) s2(3)] s3(3)]
    by (simp add: reset_interval_timers_def u r abc)
qed

lemma now_real: "i < length (proc_pool s) \<Longrightarrow> interval_timer_now_usec e s i k_interval_timer_real = Some (realtime_now_usec e)"
  by (simp add: interval_timer_now_usec_def array_simps Let_def)

text \<open>The read of the old timer that \<open>set_interval_timer\<close> starts with.\<close>

lemma old_timer_inv:
  assumes inv: "timers_inv s" and env: "env_ok e s" and win: "window_ok e" and i: "i < length (proc_pool s)"
    and w: "is_valid_interval_timer_kind which"
  shows "\<exists>s' old evs. (if want_old
      then do { (s, snap, evs) \<leftarrow> read_interval_timer_locked e i which s; Some (s, Some snap, evs) }
      else Some (s, None, [])) = Some (s', old, evs) \<and> timers_inv s' \<and> stable e s s' \<and>
    (\<exists>u. itimer (proc_pool s' ! i) = (itimer (proc_pool s ! i))[nat which := u]) \<and>
    old = (if want_old then Some (let now = the (interval_timer_now_usec e s i which);
             t = itimer_at now (itimer (proc_pool s ! i) ! nat which)
           in (if it_armed t then expiry_us t - now else 0, interval_us t)) else None)"
proof (cases want_old)
  case True
  obtain now where n: "interval_timer_now_usec e s i which = Some now" using interval_timer_now_bound [OF env i] by blast
  show ?thesis
    using read_interval_timer_locked_inv [OF inv env win i w n] True n by (auto simp: Let_def)
next
  case False
  then show ?thesis using inv stable_refl [OF env] by (auto intro: exI [of _ "itimer (proc_pool s ! i) ! nat which"])
qed

text \<open>The clocks of the other kinds may move on while the old timer is read; \<open>now'\<close> is the time then.\<close>

lemma set_interval_timer_inv:
  assumes inv: "timers_inv s" and env: "env_ok e s" and win: "window_ok e" and i: "i < length (proc_pool s)"
    and w: "is_valid_interval_timer_kind which" and iv: "interval < 2 ^ 63" and n: "interval_timer_now_usec e s i which = Some now"
  shows "\<exists>s' evs now'. set_interval_timer e (Some i) which value_us interval want_old s =
      Some (s', (if want_old then Some (let t = itimer_at now (itimer (proc_pool s ! i) ! nat which)
           in (if it_armed t then expiry_us t - now else 0, interval_us t)) else None), evs) \<and>
    timers_inv s' \<and> stable e s s' \<and> (which = k_interval_timer_real \<longrightarrow> now' = now) \<and>
    itimer (proc_pool s' ! i) = (itimer (proc_pool s ! i))[nat which :=
      (if value_us = 0 then \<lparr>it_armed = False, interval_us = interval, expiry_us = 0\<rparr>
       else \<lparr>it_armed = True, interval_us = interval, expiry_us = u64_add now' value_us\<rparr>)]"
proof -
  obtain s1 old evs u where s1: "(if want_old
      then do { (s, snap, evs) \<leftarrow> read_interval_timer_locked e i which s; Some (s, Some snap, evs) }
      else Some (s, None, [])) = Some (s1, old, evs)" "timers_inv s1" "stable e s s1"
    "itimer (proc_pool s1 ! i) = (itimer (proc_pool s ! i))[nat which := u]"
    "old = (if want_old then Some (let t = itimer_at now (itimer (proc_pool s ! i) ! nat which)
           in (if it_armed t then expiry_us t - now else 0, interval_us t)) else None)"
    using old_timer_inv [OF inv env win i w, of want_old] n by (auto simp: Let_def)
  have i1: "i < length (proc_pool s1)" using i stableD(2) [OF s1(3)] by simp
  have k1: "nat which < length (itimer (proc_pool s1 ! i))"
    using w timers_invD(3) [OF s1(2) i1] by (auto simp: pcb_ok_def is_valid_interval_timer_kind_def)
  obtain now' where n1: "interval_timer_now_usec e s1 i which = Some now'"
    using interval_timer_now_bound [OF stableD(1) [OF s1(3)] i1] by blast
  have real: "which = k_interval_timer_real \<longrightarrow> now' = now" using n n1 now_real [OF i] now_real [OF i1] by auto
  let ?was = "it_armed (itimer (proc_pool s1 ! i) ! nat which)"
  let ?t = "if value_us = 0 then \<lparr>it_armed = False, interval_us = interval, expiry_us = 0\<rparr>
       else \<lparr>it_armed = True, interval_us = interval, expiry_us = u64_add now' value_us\<rparr>"
  have t: "interval_us ?t < 2 ^ 63" using iv by simp
  obtain s2 where s2: "set_itimer i which ?t (retarget which ?was (it_armed ?t) s1) = Some s2" "timers_inv s2" "same_tasks s1 s2"
    "itimer (proc_pool s2 ! i) = (itimer (proc_pool s1 ! i))[nat which := ?t]"
    "retarget which ?was (it_armed ?t) (s1\<lparr>proc_pool := proc_pool s2\<rparr>) = s2"
    using set_itimer_inv [OF s1(2) i1 w t, of ?was] by blast
  have arm: "set_itimer i which ?t s1 = Some (s1\<lparr>proc_pool := proc_pool s2\<rparr>)"
    using s2(1) i1 k1
    by (auto simp: set_itimer_def array_simps retarget_def note_realtime_interval_timer_armed_def
        note_realtime_interval_timer_disarmed_def split: if_splits)
  have "set_interval_timer e (Some i) which value_us interval want_old s = Some (s2, old, evs)"
  proof (cases "value_us = 0")
    case True
    then show ?thesis
      using w s1(1) i1 k1 s2(1) by (auto simp: set_interval_timer_def array_simps retarget_def split: if_splits)
  next
    case False
    then show ?thesis
      using w s1(1) i1 k1 arm s2(5) n1 by (auto simp: set_interval_timer_def array_simps retarget_def split: if_splits)
  qed
  moreover have "stable e s s2" using stable_trans [OF s1(3) same_tasks_stable [OF stableD(1) [OF s1(3)] s2(3)]] .
  ultimately show ?thesis using s2(2,4) s1(4,5) real by auto
qed

lemma check_realtime_timer_inv:
  assumes inv: "timers_inv s" and env: "env_ok e s" and win: "window_ok e" and i: "i < length (proc_pool s)" and now: "now < 2 ^ 63"
  shows "\<exists>s' evs'. check_realtime_timer e now i (s, evs) = Some (s', evs') \<and> timers_inv s' \<and> stable e s s'"
proof -
  have w: "is_valid_interval_timer_kind k_interval_timer_real"
    by (simp add: is_valid_interval_timer_kind_def k_interval_timer_real_def k_interval_timer_count_def)
  have k: "nat k_interval_timer_real < length (itimer (proc_pool s ! i))"
    using w timers_invD(3) [OF inv i] by (auto simp: pcb_ok_def is_valid_interval_timer_kind_def)
  show ?thesis
    using maybe_fire_inv [OF inv env win i w now] inv i k stable_refl [OF env] by (auto simp: check_realtime_timer_def array_simps)
qed

lemma check_interval_timers_inv:
  assumes inv: "timers_inv s" and env: "env_ok e s" and win: "window_ok e" and cur: "\<And>i. cur = Some i \<Longrightarrow> i < length (proc_pool s)"
  shows "\<exists>s' evs. check_interval_timers e cur rt s = Some (s', evs) \<and> timers_inv s' \<and> stable e s s'"
proof -
  let ?P = "\<lambda>(s', evs). timers_inv s' \<and> stable e s s'"
  have rb: "realtime_now_usec e < 2 ^ 63" using env by (intro realtime_now_bound) (simp add: env_ok_def)
  have scan: "\<exists>r. for_each (check_realtime_timer e (realtime_now_usec e)) [0..<length (proc_pool s)] (s, []) = Some r \<and> ?P r"
  proof (rule for_each_inv)
    fix i and r :: "timers \<times> timer_event list"
    assume i: "i \<in> set [0..<length (proc_pool s)]" and P: "?P r"
    obtain s1 evs where r: "r = (s1, evs)" by (cases r)
    have st: "stable e s s1" "timers_inv s1" using P r by simp_all
    have "i < length (proc_pool s1)" using i stableD(2) [OF st(1)] by simp
    then obtain s2 evs2 where "check_realtime_timer e (realtime_now_usec e) i (s1, evs) = Some (s2, evs2)" "timers_inv s2" "stable e s1 s2"
      using check_realtime_timer_inv [OF st(2) stableD(1) [OF st(1)] win _ rb, of i evs] by blast
    then show "\<exists>r'. check_realtime_timer e (realtime_now_usec e) i r = Some r' \<and> ?P r'"
      using r stable_trans [OF st(1)] by auto
  qed (use inv stable_refl [OF env] in simp)
  have "\<exists>r. (if rt \<and> g_armed_realtime_interval_timers s \<noteq> 0
       then for_each (check_realtime_timer e (realtime_now_usec e)) [0..<length (proc_pool s)] (s, [])
       else Some (s, [])) = Some r \<and> ?P r"
  proof (cases "rt \<and> g_armed_realtime_interval_timers s \<noteq> 0")
    case True
    then show ?thesis using scan by simp
  next
    case False
    then show ?thesis using inv stable_refl [OF env] by auto
  qed
  then obtain s1 evs1 where s1: "(if rt \<and> g_armed_realtime_interval_timers s \<noteq> 0
       then for_each (check_realtime_timer e (realtime_now_usec e)) [0..<length (proc_pool s)] (s, [])
       else Some (s, [])) = Some (s1, evs1)" "timers_inv s1" "stable e s s1"
    by fast
  show ?thesis
  proof (cases cur)
    case None
    with s1 show ?thesis by (auto simp: check_interval_timers_def)
  next
    case (Some i)
    have i: "i < length (proc_pool s1)" using cur [OF Some] stableD(2) [OF s1(3)] by simp
    have w: "is_valid_interval_timer_kind k_interval_timer_virtual" "is_valid_interval_timer_kind k_interval_timer_prof"
      by (simp_all add: is_valid_interval_timer_kind_def k_interval_timer_virtual_def k_interval_timer_prof_def k_interval_timer_count_def)
    have k: "nat k_interval_timer_virtual < length (itimer (proc_pool s1 ! i))" "nat k_interval_timer_prof < length (itimer (proc_pool s1 ! i))"
      using w timers_invD(3) [OF s1(2) i] by (auto simp: pcb_ok_def is_valid_interval_timer_kind_def)
    obtain n1 where n1: "interval_timer_now_usec e s1 i k_interval_timer_virtual = Some n1" "n1 < 2 ^ 63"
      using interval_timer_now_bound [OF stableD(1) [OF s1(3)] i] by blast
    obtain s2 evs2 where s2: "maybe_fire_interval_timer e i k_interval_timer_virtual n1 s1 = Some (s2, evs2)" "timers_inv s2" "stable e s1 s2"
      using maybe_fire_inv [OF s1(2) stableD(1) [OF s1(3)] win i w(1) n1(2)] by blast
    have i2: "i < length (proc_pool s2)" using i stableD(2) [OF s2(3)] by simp
    obtain n2 where n2: "interval_timer_now_usec e s2 i k_interval_timer_prof = Some n2" "n2 < 2 ^ 63"
      using interval_timer_now_bound [OF stableD(1) [OF s2(3)] i2] by blast
    obtain s3 evs3 where s3: "maybe_fire_interval_timer e i k_interval_timer_prof n2 s2 = Some (s3, evs3)" "timers_inv s3" "stable e s2 s3"
      using maybe_fire_inv [OF s2(2) stableD(1) [OF s2(3)] win i2 w(2) n2(2)] by blast
    show ?thesis
    proof (cases "it_armed (itimer (proc_pool s1 ! i) ! nat k_interval_timer_virtual) \<or> it_armed (itimer (proc_pool s1 ! i) ! nat k_interval_timer_prof)")
      case True
      have "check_interval_timers e cur rt s = Some (s3, evs1 @ evs2 @ evs3)"
        using s1(1) Some i k n1(1) s2(1) n2(1) s3(1) True by (auto simp: check_interval_timers_def array_simps)
      then show ?thesis
        using s3 stable_trans [OF stable_trans [OF s1(3) s2(3)] s3(3)] by simp
    next
      case False
      then have "check_interval_timers e cur rt s = Some (s1, evs1)"
        using s1(1) Some i k by (auto simp: check_interval_timers_def array_simps)
      then show ?thesis using s1 by simp
    qed
  qed
qed

text \<open>The counter lets the interrupt skip the scan: when no real timer is armed, the scan does nothing.\<close>

lemma scan_nothing_armed:
  assumes "timers_inv s" "g_armed_realtime_interval_timers s = 0" "set is \<subseteq> {..<length (proc_pool s)}"
  shows "for_each (check_realtime_timer e now) is (s, evs) = Some (s, evs)"
  using assms(3)
proof (induction "is")
  case (Cons i "is")
  then have i: "i < length (proc_pool s)" by simp
  have "\<not> real_armed (proc_pool s ! i)"
    using assms(1,2) i count_pos [OF i, of real_armed] timers_invD(6) [OF assms(1)] by (auto simp: armed_real_def)
  then have "check_realtime_timer e now i (s, evs) = Some (s, evs)"
    using i timers_invD(3) [OF assms(1) i]
    by (auto simp: check_realtime_timer_def array_simps k_interval_timer_real_def real_armed_def pcb_ok_def k_interval_timer_count_def)
  with Cons show ?case by simp
qed simp

end
