(* ===== verification/Timer_Slots.thy ===== *)
theory Timer_Slots
  imports Timer_Correct
begin

text \<open>
  The POSIX timer slots: each operation of \<open>posix_timers.cc\<close> and each system call on them keeps
  the invariant without a fault.
\<close>

text \<open>The list of the 32 slots is kept as it is.\<close>

declare upt_rec_numeral [simp del]

section \<open>Updates of a slot\<close>

lemma slots_update_inv:
  assumes inv: "timers_inv s" and k: "k < 32" and ok: "slot_ok s t"
    and cnt: "n + (if timer_armed (g_timers s ! k) then 1 else 0) = armed_slots s + (if timer_armed t then 1 else 0)"
    and id: "timer_active t \<Longrightarrow> (timer_active (g_timers s ! k) \<and> timer_id t = timer_id (g_timers s ! k)) \<or>
      (\<forall>j<32. timer_active (g_timers s ! j) \<longrightarrow> timer_id (g_timers s ! j) \<noteq> timer_id t)"
  shows "timers_inv (s\<lparr>g_timers := (g_timers s)[k := t], g_armed_posix_timers := n\<rparr>)"
proof -
  let ?s = "s\<lparr>g_timers := (g_timers s)[k := t], g_armed_posix_timers := n\<rparr>"
  have l: "length (g_timers s) = 32" using timers_invD(1) [OF inv] .
  have "n = armed_slots ?s"
    using count_update [of k "g_timers s" timer_armed t] cnt k l by (simp add: armed_slots_def split: if_splits)
  moreover have "\<forall>u\<in>set ((g_timers s)[k := t]). slot_ok ?s u"
    using inv ok by (auto simp: timers_inv_def slot_ok_def dest!: set_update_subset_insert [THEN subsetD])
  moreover have "ids_unique ((g_timers s)[k := t])"
    unfolding ids_unique_def
  proof (intro allI impI)
    fix i j
    assume ij: "i < length ((g_timers s)[k := t])" "j < length ((g_timers s)[k := t])"
      "timer_active ((g_timers s)[k := t] ! i)" "timer_active ((g_timers s)[k := t] ! j)"
      "timer_id ((g_timers s)[k := t] ! i) = timer_id ((g_timers s)[k := t] ! j)"
    have u: "\<And>i j. i < 32 \<Longrightarrow> j < 32 \<Longrightarrow> timer_active (g_timers s ! i) \<Longrightarrow> timer_active (g_timers s ! j) \<Longrightarrow>
        timer_id (g_timers s ! i) = timer_id (g_timers s ! j) \<Longrightarrow> i = j"
      using inv l by (auto simp: timers_inv_def ids_unique_def)
    have other: "timer_id (g_timers s ! j) \<noteq> timer_id t" if "j < 32" "j \<noteq> k" "timer_active (g_timers s ! j)" "timer_active t" for j
      using id [OF that(4)] u [OF that(1) k that(3)] that by auto
    show "i = j"
      using ij u [of i j] other [of i] other [of j] k l by (simp add: nth_list_update split: if_splits)
  qed
  ultimately show ?thesis
    using inv by (auto simp: timers_inv_def armed_real_def)
qed

lemma set_timer_inv:
  assumes "timers_inv s" "k < 32" "slot_ok s t" "timer_armed t = timer_armed (g_timers s ! k)"
    and "timer_active t \<Longrightarrow> (timer_active (g_timers s ! k) \<and> timer_id t = timer_id (g_timers s ! k)) \<or>
      (\<forall>j<32. timer_active (g_timers s ! j) \<longrightarrow> timer_id (g_timers s ! j) \<noteq> timer_id t)"
  shows "set_timer k t s = Some (s\<lparr>g_timers := (g_timers s)[k := t]\<rparr>) \<and> timers_inv (s\<lparr>g_timers := (g_timers s)[k := t]\<rparr>)"
proof -
  have "timers_inv (s\<lparr>g_timers := (g_timers s)[k := t], g_armed_posix_timers := armed_slots s\<rparr>)"
    by (rule slots_update_inv) (use assms in auto)
  moreover have "s\<lparr>g_timers := (g_timers s)[k := t], g_armed_posix_timers := armed_slots s\<rparr> = s\<lparr>g_timers := (g_timers s)[k := t]\<rparr>"
    using timers_invD(5) [OF assms(1)] by simp
  ultimately show ?thesis
    using assms(2) timers_invD(1) [OF assms(1)] by (simp add: set_timer_def array_simps)
qed

lemma slot_ok_zero [simp]: "slot_ok s zero_timer"
  by (simp add: slot_ok_def zero_timer_def)

lemma armed_slots_pos: "timers_inv s \<Longrightarrow> k < 32 \<Longrightarrow> timer_armed (g_timers s ! k) \<Longrightarrow> 0 < armed_slots s"
  unfolding armed_slots_def by (rule count_pos [of k]) (simp_all add: timers_invD(1))

lemma armed_slots_room: "timers_inv s \<Longrightarrow> k < 32 \<Longrightarrow> \<not> timer_armed (g_timers s ! k) \<Longrightarrow> armed_slots s < 32"
  using count_room [of k "g_timers s" timer_armed] by (simp add: timers_invD(1) armed_slots_def)

text \<open>The counter follows the armed bit of the slot.\<close>

lemma clear_posix_timer_locked_inv:
  assumes inv: "timers_inv s" and k: "k < 32"
  shows "\<exists>n. clear_posix_timer_locked k s = Some (s\<lparr>g_timers := (g_timers s)[k := zero_timer], g_armed_posix_timers := n\<rparr>) \<and>
    timers_inv (s\<lparr>g_timers := (g_timers s)[k := zero_timer], g_armed_posix_timers := n\<rparr>)"
proof -
  let ?n = "armed_slots s - (if timer_armed (g_timers s ! k) then 1 else 0)"
  have "timers_inv (s\<lparr>g_timers := (g_timers s)[k := zero_timer], g_armed_posix_timers := ?n\<rparr>)"
    by (rule slots_update_inv [OF inv k]) (use armed_slots_pos [OF inv k] in \<open>auto simp: zero_timer_def slot_ok_def\<close>)
  moreover have "clear_posix_timer_locked k s = Some (s\<lparr>g_timers := (g_timers s)[k := zero_timer], g_armed_posix_timers := ?n\<rparr>)"
    using k armed_slots_pos [OF inv k] timers_invD(1,5) [OF inv]
    by (cases "timer_armed (g_timers s ! k)") (auto simp: clear_posix_timer_locked_def set_timer_def array_simps u32_sub_def)
  ultimately show ?thesis by blast
qed

lemma set_posix_timer_armed_locked_inv:
  assumes inv: "timers_inv s" and k: "k < 32" and act: "armed \<Longrightarrow> timer_active (g_timers s ! k)"
  shows "\<exists>n. set_posix_timer_armed_locked k armed s =
      Some (s\<lparr>g_timers := (g_timers s)[k := (g_timers s ! k)\<lparr>timer_armed := armed\<rparr>], g_armed_posix_timers := n\<rparr>) \<and>
    timers_inv (s\<lparr>g_timers := (g_timers s)[k := (g_timers s ! k)\<lparr>timer_armed := armed\<rparr>], g_armed_posix_timers := n\<rparr>)"
proof (cases "timer_armed (g_timers s ! k) = armed")
  case True
  have l: "length (g_timers s) = 32" using timers_invD(1) [OF inv] .
  have "(g_timers s ! k)\<lparr>timer_armed := armed\<rparr> = g_timers s ! k" using True by simp
  then have "(g_timers s)[k := (g_timers s ! k)\<lparr>timer_armed := armed\<rparr>] = g_timers s" by simp
  then have "s\<lparr>g_timers := (g_timers s)[k := (g_timers s ! k)\<lparr>timer_armed := armed\<rparr>], g_armed_posix_timers := g_armed_posix_timers s\<rparr> = s"
    by simp
  moreover have "set_posix_timer_armed_locked k armed s = Some s"
    using True k l by (simp add: set_posix_timer_armed_locked_def array_simps)
  ultimately show ?thesis using inv by (intro exI [of _ "g_armed_posix_timers s"]) (simp only:)
next
  case False
  let ?n = "if armed then armed_slots s + 1 else armed_slots s - 1"
  have "timers_inv (s\<lparr>g_timers := (g_timers s)[k := (g_timers s ! k)\<lparr>timer_armed := armed\<rparr>], g_armed_posix_timers := ?n\<rparr>)"
    by (rule slots_update_inv [OF inv k])
      (use False armed_slots_pos [OF inv k] act timers_invD(4) [OF inv k] in \<open>auto simp: slot_ok_def\<close>)
  moreover have "set_posix_timer_armed_locked k armed s =
      Some (s\<lparr>g_timers := (g_timers s)[k := (g_timers s ! k)\<lparr>timer_armed := armed\<rparr>], g_armed_posix_timers := ?n\<rparr>)"
    using False k armed_slots_pos [OF inv k] armed_slots_room [OF inv k] timers_invD(1,5) [OF inv]
    by (auto simp: set_posix_timer_armed_locked_def set_timer_def array_simps u32_sub_def u32_add_def)
  ultimately show ?thesis by blast
qed

section \<open>Expiry\<close>

lemma clock_gettime_ok:
  assumes env: "env_ok e s" and cur: "cur = None \<or> (\<exists>i<length (proc_pool s). cur = Some (proc_pool s ! i))"
  shows "\<exists>r ts. clock_gettime (env_hw e) cur (env_tm e) c False = Some (r, ts) \<and> (r = 0 \<longleftrightarrow> ts \<noteq> None) \<and> r \<le> 0"
proof -
  have hw: "clock_ok (env_hw e)" using env by (simp add: env_ok_def)
  have off: "\<bar>g_realtime_offset_ns (env_tm e)\<bar> < 2 ^ 62" using env by (simp add: env_ok_def)
  note el = elapsed_ns_range [OF hw]
  have "in_s64 (elapsed_ns (env_hw e) + g_realtime_offset_ns (env_tm e))" using el off unfolding in_s64_def by auto
  moreover have "in_s64 (elapsed_ns (env_hw e) + monotonic_offset_ns p)" "in_s64 (elapsed_ns (env_hw e) + boottime_offset_ns p)"
    if "cur = Some p" for p
    using that cur task_clock_okD [OF env] el unfolding in_s64_def by (fastforce simp: task_clock_ok_def)+
  ultimately show ?thesis
    by (cases c; cases cur) (simp_all add: clock_gettime_def realtime_now_ns_locked_def apply_time_namespace_offset_def cycles_to_ns_elapsed [OF hw] s64_add_small)
qed

lemma read_posix_timer_clock_ok:
  assumes "env_ok e s" "slot_ok s t"
  shows "\<exists>r. read_posix_timer_clock e s t = Some r"
proof (cases "is_cpu_clock (timer_clock t)")
  case True
  then show ?thesis
    using assms(2) by (cases "timer_owner t") (auto simp: read_posix_timer_clock_def read_task_cpu_clock_def slot_ok_def array_simps)
next
  case False
  show ?thesis
  proof (cases "env_current e")
    case None
    then show ?thesis
      using False clock_gettime_ok [OF assms(1), of None "timer_clock t"] by (auto simp: read_posix_timer_clock_def)
  next
    case (Some i)
    then have i: "i < length (proc_pool s)" using assms(1) by (simp add: env_ok_def)
    then have "\<exists>r ts. clock_gettime (env_hw e) (Some (proc_pool s ! i)) (env_tm e) (timer_clock t) False = Some (r, ts)"
      using clock_gettime_ok [OF assms(1), of "Some (proc_pool s ! i)" "timer_clock t"] by blast
    then show ?thesis
      using False Some i by (auto simp: read_posix_timer_clock_def array_simps)
  qed
qed

lemma find_live_task_in:
  assumes "find_live_task_by_pid_or_tid ps n = Some i"
  shows "i < length ps \<and> pcb_state (ps ! i) \<noteq> UNUSED \<and> (pid (ps ! i) = n \<or> tid (ps ! i) = n)"
  using assms by (auto simp: find_live_task_by_pid_or_tid_def find_Some_iff)

lemma wake_inv:
  assumes inv: "timers_inv s" and env: "env_ok e s" and win: "window_inv e" and i: "i < length (proc_pool s)"
  shows "\<exists>s' evs. wake_if_signal_interruptible e i sig s = Some (s', evs) \<and> timers_inv s' \<and> stable e s s'"
proof -
  obtain s' b evs where s': "interrupt_sleep_for_signal e i s = Some (s', b, evs)" "timers_inv s'" "stable e s s'"
    using interrupt_sleep_for_signal_inv [OF assms] by blast
  have i': "i < length (proc_pool s')" using i stableD(2) [OF s'(3)] by simp
  let ?p = "proc_pool s' ! i"
  let ?u = "\<lambda>b. s'\<lparr>proc_pool := (proc_pool s')[i := ?p\<lparr>pcb_state := RUNNABLE, continued_pending := b\<rparr>]\<rparr>"
  have u: "timers_inv (?u b) \<and> same_tasks s' (?u b)" for b
    by (rule pool_update_same) (use s'(2) i' timers_invD(3) [OF s'(2) i'] in \<open>simp_all add: pcb_ok_def real_armed_def\<close>)
  have "timers_inv (?u b) \<and> stable e s (?u b)" for b
    using u [of b] stable_trans [OF s'(3) same_tasks_stable [OF stableD(1) [OF s'(3)]]] by blast
  then show ?thesis
    using s' i' by (auto simp: wake_if_signal_interruptible_def kick_last_cpu_def array_simps)
qed

lemma deliver_inv:
  assumes inv: "timers_inv s" and env: "env_ok e s" and win: "window_inv e" and ok: "slot_ok s t"
  shows "\<exists>s' evs. deliver_posix_timer_signal e t s = Some (s', evs) \<and> timers_inv s' \<and> stable e s s'"
proof -
  have live: "arr_get (proc_pool s) j = Some (proc_pool s ! j) \<and> j < length (proc_pool s)"
    if "find_live_task_by_pid_or_tid (proc_pool s) n = Some j" for j n
    using find_live_task_in [OF that] by (simp add: array_simps)
  have "\<exists>target. find_posix_timer_signal_target s t = Some target \<and> (\<forall>j. target = Some j \<longrightarrow> j < length (proc_pool s) \<and> timer_owner t \<noteq> None)"
    using ok live by (cases "timer_owner t") (auto simp: find_posix_timer_signal_target_def slot_ok_def array_simps split: option.split)
  then obtain target where t: "find_posix_timer_signal_target s t = Some target"
    and in_pool: "\<And>j. target = Some j \<Longrightarrow> j < length (proc_pool s) \<and> timer_owner t \<noteq> None"
    by blast
  show ?thesis
  proof (cases target)
    case None
    then show ?thesis using t inv stable_refl [OF env] by (auto simp: deliver_posix_timer_signal_def Let_def)
  next
    case (Some j)
    then have j: "j < length (proc_pool s)" and "timer_owner t \<noteq> None" using in_pool by auto
    then obtain i where i: "timer_owner t = Some i" "i < length (proc_pool s)" using ok by (auto simp: slot_ok_def)
    show ?thesis
      using wake_inv [OF inv env win j, of "sigev_signo (timer_event t)"] t Some i j inv stable_refl [OF env]
      by (auto simp: deliver_posix_timer_signal_def array_simps Let_def)
  qed
qed

lemma rearm_periodic_simps [simp]:
  "timer_id (rearm_periodic now t) = timer_id t" "timer_owner (rearm_periodic now t) = timer_owner t"
  "timer_active (rearm_periodic now t) = timer_active t" "timer_armed (rearm_periodic now t) = timer_armed t"
  "timer_event (rearm_periodic now t) = timer_event t"
  by (simp_all add: rearm_periodic_def Let_def)

lemma slot_ok_same: "slot_ok s t \<Longrightarrow> length (proc_pool s') = length (proc_pool s) \<Longrightarrow> g_next_timer_id s' = g_next_timer_id s \<Longrightarrow> slot_ok s' t"
  by (simp add: slot_ok_def)

lemma check_expired_timer_inv:
  assumes inv: "timers_inv s" and env: "env_ok e s" and win: "window_inv e" and k: "k < 32"
  shows "\<exists>s' evs'. check_expired_timer e k (s, evs) = Some (s', evs') \<and> timers_inv s' \<and> stable e s s'"
proof -
  let ?t = "g_timers s ! k"
  have l: "length (g_timers s) = 32" using timers_invD(1) [OF inv] .
  have ok: "slot_ok s ?t" using timers_invD(4) [OF inv k] .
  obtain now where now: "read_posix_timer_clock e s ?t = Some now" using read_posix_timer_clock_ok [OF env ok] by blast
  have armed: "\<exists>s1. (if per then set_timer k (rearm_periodic n ?t) s
      else do { s \<leftarrow> set_timer k (?t\<lparr>timer_overrun := 0\<rparr>) s; set_posix_timer_armed_locked k False s }) = Some s1 \<and>
      timers_inv s1 \<and> same_tasks s s1" for per n
  proof (cases per)
    case True
    have "slot_ok s (rearm_periodic n ?t)" using ok by (simp add: slot_ok_def)
    then show ?thesis
      using set_timer_inv [OF inv k, of "rearm_periodic n ?t"] True by (simp add: same_tasks_def)
  next
    case False
    let ?u = "?t\<lparr>timer_overrun := 0\<rparr>" and ?s = "s\<lparr>g_timers := (g_timers s)[k := ?t\<lparr>timer_overrun := 0\<rparr>]\<rparr>"
    have "slot_ok s ?u" using ok by (simp add: slot_ok_def)
    then have "set_timer k ?u s = Some ?s" "timers_inv ?s" using set_timer_inv [OF inv k, of ?u] by simp_all
    then show ?thesis
      using set_posix_timer_armed_locked_inv [of ?s k False] k False by (auto simp: same_tasks_def)
  qed
  show ?thesis
  proof (cases "timer_active ?t \<and> timer_armed ?t \<and> (\<exists>n. now = Some n \<and> timespec_less_or_equal (expiry_time ?t) n)")
    case False
    then show ?thesis using inv k l now stable_refl [OF env] by (auto simp: check_expired_timer_def array_simps split: option.splits)
  next
    case True
    then obtain n where n: "now = Some n" "timespec_less_or_equal (expiry_time ?t) n" by blast
    let ?per = "0 < tv_sec (it_interval (timer_spec ?t)) \<or> 0 < tv_nsec (it_interval (timer_spec ?t))"
    obtain s1 where s1: "(if ?per then set_timer k (rearm_periodic n ?t) s
      else do { s \<leftarrow> set_timer k (?t\<lparr>timer_overrun := 0\<rparr>) s; set_posix_timer_armed_locked k False s }) = Some s1"
      "timers_inv s1" "same_tasks s s1"
      using armed [of ?per n] by blast
    note st = same_tasks_stable [OF env s1(3)]
    obtain s2 evs2 where s2: "deliver_posix_timer_signal e (g_timers s1 ! k) s1 = Some (s2, evs2)" "timers_inv s2" "stable e s1 s2"
      using deliver_inv [OF s1(2) stableD(1) [OF st] win timers_invD(4) [OF s1(2) k]] by blast
    have "check_expired_timer e k (s, evs) = Some (s2, evs @ evs2)"
      using True n k l now s1(1) s2(1) timers_invD(1) [OF s1(2)] by (simp add: check_expired_timer_def array_simps)
    then show ?thesis
      using s2(2) stable_trans [OF st s2(3)] by simp
  qed
qed

lemma check_expired_timers_inv:
  assumes inv: "timers_inv s" and env: "env_ok e s" and win: "window_inv e"
  shows "\<exists>s' evs. check_expired_timers e s = Some (s', evs) \<and> timers_inv s' \<and> stable e s s'"
proof -
  let ?P = "\<lambda>(s', evs). timers_inv s' \<and> stable e s s'"
  have "\<exists>r. for_each (check_expired_timer e) [0..<32] (s, []) = Some r \<and> ?P r"
  proof (rule for_each_inv)
    fix k and r :: "timers \<times> timer_event list"
    assume k: "k \<in> set [0..<32]" and P: "?P r"
    obtain s1 evs where r: "r = (s1, evs)" by (cases r)
    then have s1: "timers_inv s1" "stable e s s1" "k < 32" using P k by auto
    obtain s2 evs2 where "check_expired_timer e k (s1, evs) = Some (s2, evs2)" "timers_inv s2" "stable e s1 s2"
      using check_expired_timer_inv [OF s1(1) stableD(1) [OF s1(2)] win s1(3)] by blast
    then show "\<exists>r'. check_expired_timer e k r = Some r' \<and> ?P r'"
      using r stable_trans [OF s1(2)] by auto
  qed (use inv stable_refl [OF env] in simp)
  then show ?thesis using inv stable_refl [OF env] by (auto simp: check_expired_timers_def)
qed

text \<open>With no slot armed the scan does nothing, so the counter may skip it.\<close>

lemma scan_no_slot_armed:
  assumes "timers_inv s" "g_armed_posix_timers s = 0" "set ks \<subseteq> {..<32}"
  shows "for_each (check_expired_timer e) ks (s, evs) = Some (s, evs)"
  using assms(3)
proof (induction ks)
  case (Cons k ks)
  then have k: "k < 32" by simp
  have "\<not> timer_armed (g_timers s ! k)"
    using armed_slots_pos [OF assms(1) k] assms(2) timers_invD(5) [OF assms(1)] by auto
  then have "check_expired_timer e k (s, evs) = Some (s, evs)"
    using k timers_invD(1) [OF assms(1)] by (simp add: check_expired_timer_def array_simps)
  with Cons show ?case by simp
qed simp

section \<open>Owners\<close>

lemma cleanup_inv:
  assumes inv: "timers_inv s"
  shows "\<exists>s'. cleanup_posix_timers_for_owner owner s = Some s' \<and> timers_inv s' \<and> same_tasks s s' \<and>
    g_timers_initialized s' = g_timers_initialized s \<and>
    (g_timers_initialized s \<longrightarrow> owner \<noteq> None \<longrightarrow> (\<forall>k<32. g_timers s' ! k =
      (if timer_active (g_timers s ! k) \<and> timer_owner (g_timers s ! k) = owner then zero_timer else g_timers s ! k)))"
proof (cases "g_timers_initialized s \<and> owner \<noteq> None")
  case False
  then show ?thesis using inv by (auto simp: cleanup_posix_timers_for_owner_def)
next
  case True
  let ?f = "\<lambda>k s. do {
             timer \<leftarrow> arr_get (g_timers s) k;
             if \<not> timer_active timer \<or> timer_owner timer \<noteq> owner then Some s
             else clear_posix_timer_locked k s
           }"
  let ?g = "\<lambda>k. if timer_active (g_timers s ! k) \<and> timer_owner (g_timers s ! k) = owner then zero_timer else g_timers s ! k"
  have "\<exists>s'. for_each ?f [0..<n] s = Some s' \<and> timers_inv s' \<and> same_tasks s s' \<and>
      g_timers_initialized s' = g_timers_initialized s \<and> (\<forall>k<32. g_timers s' ! k = (if k < n then ?g k else g_timers s ! k))"
    if "n \<le> 32" for n
    using that
  proof (induction n)
    case 0
    then show ?case using inv by simp
  next
    case (Suc n)
    then obtain s1 where s1: "for_each ?f [0..<n] s = Some s1" "timers_inv s1" "same_tasks s s1"
      "g_timers_initialized s1 = g_timers_initialized s" "\<forall>k<32. g_timers s1 ! k = (if k < n then ?g k else g_timers s ! k)"
      by auto
    have l: "length (g_timers s1) = 32" using timers_invD(1) [OF s1(2)] .
    have n: "n < 32" "g_timers s1 ! n = g_timers s ! n" using Suc.prems s1(5) by auto
    obtain m where m: "clear_posix_timer_locked n s1 = Some (s1\<lparr>g_timers := (g_timers s1)[n := zero_timer], g_armed_posix_timers := m\<rparr>)"
      "timers_inv (s1\<lparr>g_timers := (g_timers s1)[n := zero_timer], g_armed_posix_timers := m\<rparr>)"
      using clear_posix_timer_locked_inv [OF s1(2) n(1)] by blast
    have fa: "for_each ?f [0..<Suc n] s = ?f n s1" using s1(1) by (simp add: for_each_append del: for_each.simps) (simp add: n l array_simps)
    show ?case
      unfolding fa using n l m s1 by (auto simp: array_simps same_tasks_def nth_list_update less_Suc_eq)
  qed
  from this [of 32] obtain s' where "for_each ?f [0..<32] s = Some s'" "timers_inv s'" "same_tasks s s'"
    "g_timers_initialized s' = g_timers_initialized s" "\<forall>k<32. g_timers s' ! k = (if k < 32 then ?g k else g_timers s ! k)"
    by blast
  then show ?thesis
    using True unfolding cleanup_posix_timers_for_owner_def by (simp, blast)
qed

text \<open>The search for a slot.\<close>

lemma find_slot_ok:
  assumes "\<And>k. k \<in> set ks \<Longrightarrow> k < length (g_timers s) \<and> cond (g_timers s ! k) \<noteq> None"
  shows "find_slot cond ks s = Some (List.find (\<lambda>k. cond (g_timers s ! k) = Some True) ks)"
  using assms
proof (induction ks)
  case (Cons k ks)
  then obtain b where "cond (g_timers s ! k) = Some b" "k < length (g_timers s)" by force
  with Cons show ?case by (cases b) (auto simp: array_simps)
qed simp

lemma find_SomeD: "List.find P xs = Some x \<Longrightarrow> x \<in> set xs \<and> P x"
  by (auto simp: find_Some_iff)

lemma find_unique:
  assumes "k \<in> set xs" "P k" "\<And>j. j \<in> set xs \<Longrightarrow> P j \<Longrightarrow> j = k"
  shows "List.find P xs = Some k"
proof (cases "List.find P xs")
  case None
  then show ?thesis using assms(1,2) by (simp add: find_None_iff)
next
  case (Some j)
  then show ?thesis using find_SomeD [OF Some] assms(3) by blast
qed

lemma find_free_slot_ok:
  assumes "timers_inv s"
  shows "find_free_slot s = Some (List.find (\<lambda>k. \<not> timer_active (g_timers s ! k)) [0..<32])"
  unfolding find_free_slot_def by (subst find_slot_ok) (use timers_invD(1) [OF assms] in auto)

definition owned_by :: "timers \<Rightarrow> int \<Rightarrow> nat option \<Rightarrow> nat \<Rightarrow> bool" where
  "owned_by s n p k \<longleftrightarrow> timer_id (g_timers s ! k) = n \<and> timer_active (g_timers s ! k) \<and>
     (\<exists>i j. timer_owner (g_timers s ! k) = Some i \<and> p = Some j \<and> tgid (proc_pool s ! i) = tgid (proc_pool s ! j))"

lemma find_owned_slot_ok:
  assumes "timers_inv s" "\<And>i. p = Some i \<Longrightarrow> i < length (proc_pool s)"
  shows "find_owned_slot n p s = Some (List.find (owned_by s n p) [0..<32])"
proof -
  have o: "posix_timer_owned_by_locked s (g_timers s ! k) p = Some (timer_active (g_timers s ! k) \<and>
     (\<exists>i j. timer_owner (g_timers s ! k) = Some i \<and> p = Some j \<and> tgid (proc_pool s ! i) = tgid (proc_pool s ! j)))" if "k < 32" for k
    using timers_invD(4) [OF assms(1) that] assms(2)
    by (auto simp: posix_timer_owned_by_locked_def slot_ok_def array_simps split: option.splits)
  have "find_owned_slot n p s = Some (List.find (\<lambda>k. (if timer_id (g_timers s ! k) = n then posix_timer_owned_by_locked s (g_timers s ! k) p
      else Some False) = Some True) [0..<32])"
    unfolding find_owned_slot_def by (subst find_slot_ok) (use timers_invD(1) [OF assms(1)] o in auto)
  also have "List.find (\<lambda>k. (if timer_id (g_timers s ! k) = n then posix_timer_owned_by_locked s (g_timers s ! k) p
      else Some False) = Some True) [0..<32] = List.find (owned_by s n p) [0..<32]"
    by (rule find_cong) (auto simp: o owned_by_def)
  finally show ?thesis .
qed

text \<open>At most one slot has a given identifier.\<close>

lemma owned_by_unique:
  assumes "timers_inv s" "k < 32" "owned_by s n p k"
  shows "List.find (owned_by s n p) [0..<32] = Some k"
proof (rule find_unique)
  show "k \<in> set [0..<32]" using assms(2) by simp
  show "owned_by s n p k" by (rule assms(3))
  fix j
  assume "j \<in> set [0..<32]" "owned_by s n p j"
  then show "j = k"
    using assms timers_invD(1) [OF assms(1)] by (simp add: timers_inv_def ids_unique_def owned_by_def)
qed

section \<open>The system calls on slots\<close>

lemma publish_timer_inv:
  assumes inv: "timers_inv s" and k: "k < 32" and free: "\<not> timer_active (g_timers s ! k)" and p: "p < length (proc_pool s)"
    and room: "g_next_timer_id s + 1 < 2 ^ 31"
  shows "\<exists>s'. publish_timer c p sev df k s = Some (s', g_next_timer_id s) \<and> timers_inv s' \<and> same_tasks s s' \<and>
    g_timers_initialized s' = g_timers_initialized s \<and> g_next_timer_id s' = g_next_timer_id s + 1 \<and>
    g_timers s' = (g_timers s)[k := zero_timer\<lparr>timer_id := g_next_timer_id s, timer_clock := c, timer_owner := Some p,
      timer_event := (if df then sev\<lparr>sival_ptr := nat (g_next_timer_id s mod 2 ^ 32)\<rparr> else sev), timer_active := True\<rparr>]"
proof -
  have l: "length (g_timers s) = 32" using timers_invD(1) [OF inv] .
  have na: "\<not> timer_armed (g_timers s ! k)" using free timers_invD(4) [OF inv k] by (simp add: slot_ok_def)
  let ?n = "g_next_timer_id s"
  let ?t = "zero_timer\<lparr>timer_id := ?n, timer_clock := c, timer_owner := Some p,
      timer_event := (if df then sev\<lparr>sival_ptr := nat (?n mod 2 ^ 32)\<rparr> else sev), timer_active := True\<rparr>"
  let ?s = "s\<lparr>g_next_timer_id := ?n + 1\<rparr>"
  have inv': "timers_inv ?s"
    using inv by (auto simp: timers_inv_def slot_ok_def armed_slots_def armed_real_def)
  have lt: "\<forall>j<32. timer_active (g_timers s ! j) \<longrightarrow> timer_id (g_timers s ! j) \<noteq> ?n"
    using timers_invD(4) [OF inv] by (fastforce simp: slot_ok_def)
  have "timers_inv (?s\<lparr>g_timers := (g_timers ?s)[k := ?t]\<rparr>)"
    by (rule set_timer_inv [THEN conjunct2]) (use inv' k na lt p inv in \<open>auto simp: slot_ok_def zero_timer_def timers_inv_def\<close>)
  moreover have "publish_timer c p sev df k s = Some (?s\<lparr>g_timers := (g_timers s)[k := ?t]\<rparr>, ?n)"
    using k l na room
    by (simp add: publish_timer_def clear_posix_timer_locked_def set_timer_def set_posix_timer_armed_locked_def array_simps
        zero_timer_def Let_def)
  ultimately show ?thesis by (intro exI [of _ "?s\<lparr>g_timers := (g_timers s)[k := ?t]\<rparr>"]) (simp add: same_tasks_def)
qed

text \<open>The other threads keep the invariant too.\<close>

definition others_ok :: "(timers \<Rightarrow> timers) \<Rightarrow> bool" where
  "others_ok others \<longleftrightarrow> (\<forall>s. timers_inv s \<longrightarrow> timers_inv (others s) \<and> length (proc_pool (others s)) = length (proc_pool s))"

lemma roll_back_timer_outcome:
  assumes inv: "timers_inv s" and k: "k < 32"
  obtains s' where "roll_back_timer k n p s = Some s'" "timers_inv s'"
    "\<forall>j<32. g_timers s' ! j = (if j = k \<and> timer_active (g_timers s ! k) \<and> timer_id (g_timers s ! k) = n \<and>
        timer_owner (g_timers s ! k) = Some p then zero_timer else g_timers s ! j)"
proof (cases "timer_active (g_timers s ! k) \<and> timer_id (g_timers s ! k) = n \<and> timer_owner (g_timers s ! k) = Some p")
  case True
  obtain m where m: "clear_posix_timer_locked k s = Some (s\<lparr>g_timers := (g_timers s)[k := zero_timer], g_armed_posix_timers := m\<rparr>)"
    "timers_inv (s\<lparr>g_timers := (g_timers s)[k := zero_timer], g_armed_posix_timers := m\<rparr>)"
    using clear_posix_timer_locked_inv [OF inv k] by blast
  show ?thesis
    by (rule that [of "s\<lparr>g_timers := (g_timers s)[k := zero_timer], g_armed_posix_timers := m\<rparr>"])
      (use True m k timers_invD(1) [OF inv] in \<open>simp_all add: roll_back_timer_def array_simps nth_list_update\<close>)
next
  case False
  show ?thesis by (rule that [of s]) (use False inv k timers_invD(1) [OF inv] in \<open>auto simp: roll_back_timer_def array_simps\<close>)
qed

lemma read_sigevent_ok: "\<exists>r. read_sigevent cin s p a = Some r"
proof -
  have "arr_get (proc_pool s) j = Some (proc_pool s ! j)" if "find_live_task_by_pid_or_tid (proc_pool s) n = Some j" for j n
    using find_live_task_in [OF that] by (simp add: array_simps)
  then show ?thesis
    by (auto simp: read_sigevent_def split: option.split)
qed

lemma sys_timer_create_inv:
  assumes inv: "timers_inv s" and cur: "env_current e = Some i" "i < length (proc_pool s)" and o: "others_ok others"
    and room: "g_next_timer_id s + 1 < 2 ^ 31"
  shows "\<exists>s' r out. sys_timer_create MAXVA e cin cout others a0 a1 a2 s = Some (s', r, out, []) \<and> timers_inv s'"
proof -
  obtain ev where ev: "read_sigevent cin s (proc_pool s ! i) (the (arg_addr MAXVA a1)) = Some ev" using read_sigevent_ok by blast
  have rb: "\<exists>s'. roll_back_timer k n i u = Some s' \<and> timers_inv s'" if "timers_inv u" "k < 32" for k n u
    using clear_posix_timer_locked_inv [OF that] timers_invD(1) [OF that(1)] that by (auto simp: roll_back_timer_def array_simps)
  show ?thesis
  proof (cases "arg_addr MAXVA a1 = None \<or> arg_addr MAXVA a2 = None \<or> arg_addr MAXVA a2 = Some 0 \<or>
      \<not> timer_clock_allowed (clock_of_id (arg_int a0)) \<or>
      ((clock_of_id (arg_int a0) = CLOCK_REALTIME_ALARM \<or> clock_of_id (arg_int a0) = CLOCK_BOOTTIME_ALARM) \<and> euid (proc_pool s ! i) \<noteq> 0) \<or>
      isl ev \<or> List.find (\<lambda>k. \<not> timer_active (g_timers s ! k)) [0..<32] = None")
    case True
    then show ?thesis
      using inv cur ev find_free_slot_ok [OF inv]
      by (auto simp: sys_timer_create_def Let_def array_simps split: option.split sum.splits)
  next
    case False
    then obtain x y sev k where xy: "arg_addr MAXVA a1 = Some x" "arg_addr MAXVA a2 = Some y" "y \<noteq> 0" "ev = Inr sev"
      "List.find (\<lambda>k. \<not> timer_active (g_timers s ! k)) [0..<32] = Some k"
      by (cases ev) auto
    have k: "k < 32" "\<not> timer_active (g_timers s ! k)" using find_SomeD [OF xy(5)] by auto
    let ?c = "clock_of_id (arg_int a0)"
    obtain s1 where s1: "publish_timer ?c i sev (x = 0) k s = Some (s1, g_next_timer_id s)" "timers_inv s1"
      using publish_timer_inv [OF inv k cur(2) room] by blast
    have o1: "timers_inv (others s1)" using o s1(2) by (simp add: others_ok_def)
    obtain s2 where s2: "roll_back_timer k (g_next_timer_id s) i (others s1) = Some s2" "timers_inv s2"
      using rb [OF o1 k(1)] by blast
    have guard: "((?c = CLOCK_REALTIME_ALARM \<or> ?c = CLOCK_BOOTTIME_ALARM) \<and> euid (proc_pool s ! i) \<noteq> 0) = False" "timer_clock_allowed ?c"
      using False by blast+
    have "sys_timer_create MAXVA e cin cout others a0 a1 a2 s =
       (if cout y then Some (others s1, 0, Some (g_next_timer_id s), []) else Some (s2, SYS_EFAULT, None, []))"
      using guard(2) xy cur ev find_free_slot_ok [OF inv] s1(1) s2(1)
      by (simp add: sys_timer_create_def Let_def array_simps guard(1) del: de_Morgan_conj de_Morgan_disj)
    then show ?thesis using o1 s2(2) by auto
  qed
qed

lemma commit_settime_inv:
  assumes inv: "timers_inv s" and k: "k < 32" and act: "timer_active (g_timers s ! k)"
  shows "\<exists>s'. commit_settime k spec arm x s = Some s' \<and> timers_inv s' \<and> same_tasks s s' \<and> g_timers_initialized s' = g_timers_initialized s \<and>
    g_timers s' = (g_timers s)[k := (g_timers s ! k)\<lparr>timer_spec := spec, timer_armed := arm, timer_overrun := 0,
      expiry_time := (if arm then x else zero_timespec)\<rparr>]"
proof -
  let ?t = "(g_timers s ! k)\<lparr>timer_spec := spec\<rparr>" and ?s = "s\<lparr>g_timers := (g_timers s)[k := (g_timers s ! k)\<lparr>timer_spec := spec\<rparr>]\<rparr>"
  have l: "length (g_timers s) = 32" using timers_invD(1) [OF inv] .
  have ok: "slot_ok s ?t" using timers_invD(4) [OF inv k] by (simp add: slot_ok_def)
  then have s1: "set_timer k ?t s = Some ?s" "timers_inv ?s" using set_timer_inv [OF inv k, of ?t] by simp_all
  have "timer_active (g_timers ?s ! k)" using act k l by simp
  then obtain n where n: "set_posix_timer_armed_locked k arm ?s =
      Some (?s\<lparr>g_timers := (g_timers ?s)[k := (g_timers ?s ! k)\<lparr>timer_armed := arm\<rparr>], g_armed_posix_timers := n\<rparr>)"
    "timers_inv (?s\<lparr>g_timers := (g_timers ?s)[k := (g_timers ?s ! k)\<lparr>timer_armed := arm\<rparr>], g_armed_posix_timers := n\<rparr>)"
    using set_posix_timer_armed_locked_inv [OF s1(2) k, of arm] by blast
  let ?u = "?t\<lparr>timer_armed := arm\<rparr>"
  let ?s2 = "s\<lparr>g_timers := (g_timers s)[k := ?u], g_armed_posix_timers := n\<rparr>"
  have n2: "set_posix_timer_armed_locked k arm ?s = Some ?s2" "timers_inv ?s2" using n k l by simp_all
  let ?v = "?u\<lparr>timer_overrun := 0, expiry_time := (if arm then x else zero_timespec)\<rparr>"
  have "slot_ok ?s2 ?v" using ok act by (simp add: slot_ok_def)
  then have "set_timer k ?v ?s2 = Some (?s2\<lparr>g_timers := (g_timers ?s2)[k := ?v]\<rparr>)" "timers_inv (?s2\<lparr>g_timers := (g_timers ?s2)[k := ?v]\<rparr>)"
    using set_timer_inv [OF n2(2) k, of ?v] k l by simp_all
  then show ?thesis
    using k l s1(1) n2(1) by (simp add: commit_settime_def array_simps same_tasks_def)
qed

lemma settime_checked_inv:
  assumes inv: "timers_inv s" and p: "p < length (proc_pool s)" and o: "others_ok others"
    and rng: "\<And>c. settime_new_expiry e s flags c spec \<noteq> None"
  shows "\<exists>s' r out. settime_checked e cout others p n flags spec old s = Some (s', r, out, []) \<and> timers_inv s'"
proof (cases "List.find (owned_by s n (Some p)) [0..<32]")
  case None
  then show ?thesis
    using find_owned_slot_ok [OF inv, of "Some p" n] p inv by (simp add: settime_checked_def)
next
  case (Some k)
  have f: "find_owned_slot n (Some p) s = Some (Some k)"
    using find_owned_slot_ok [OF inv, of "Some p" n] p Some by simp
  have g: "arr_get (g_timers s) k = Some (g_timers s ! k)"
    using find_SomeD [OF Some] timers_invD(1) [OF inv] by (simp add: array_simps)
  obtain x where x: "settime_new_expiry e s flags (timer_clock (g_timers s ! k)) spec = Some x" using rng by blast
  have o1: "timers_inv (others s)" "p < length (proc_pool (others s))" using o inv p by (auto simp: others_ok_def)
  have f2: "find_owned_slot n (Some p) (others s) = Some (List.find (owned_by (others s) n (Some p)) [0..<32])"
    using find_owned_slot_ok [OF o1(1), of "Some p" n] o1(2) by simp
  show ?thesis
  proof (cases "List.find (owned_by (others s) n (Some p)) [0..<32]")
    case None
    then show ?thesis
      using f g x f2 o1(1) inv by (auto simp: settime_checked_def Let_def split: sum.split)
  next
    case (Some k')
    then have k': "k' < 32" "timer_active (g_timers (others s) ! k')" using find_SomeD [OF Some] by (auto simp: owned_by_def)
    have "\<exists>s'. commit_settime k' spec arm y (others s) = Some s' \<and> timers_inv s'" for arm y
      using commit_settime_inv [OF o1(1) k', of spec arm y] by blast
    then obtain f where cs: "\<And>arm y. commit_settime k' spec arm y (others s) = Some (f arm y) \<and> timers_inv (f arm y)" by metis
    show ?thesis
      using f g x f2 inv Some cs by (cases x) (auto simp: settime_checked_def Let_def)
  qed
qed

lemma sys_timer_settime_inv:
  assumes inv: "timers_inv s" and cur: "env_current e = Some i" "i < length (proc_pool s)" and o: "others_ok others"
    and rng: "\<And>a spec c flags. cin a = Some spec \<Longrightarrow> itimerspec_valid spec \<Longrightarrow> settime_new_expiry e s flags c spec \<noteq> None"
  shows "\<exists>s' r out. sys_timer_settime MAXVA e cin cout others a0 a1 a2 a3 s = Some (s', r, out, []) \<and> timers_inv s'"
proof (cases "arg_addr MAXVA a2 = None \<or> arg_addr MAXVA a3 = None")
  case True
  then show ?thesis using inv by (auto simp: sys_timer_settime_def Let_def split: option.split)
next
  case False
  then obtain x y where xy: "arg_addr MAXVA a2 = Some x" "arg_addr MAXVA a3 = Some y" by auto
  show ?thesis
  proof (cases "cin x")
    case None
    then show ?thesis using xy cur inv by (auto simp: sys_timer_settime_def Let_def)
  next
    case (Some spec)
    show ?thesis
    proof (cases "itimerspec_valid spec")
      case True
      then show ?thesis
        using xy cur inv Some settime_checked_inv [OF inv cur(2) o rng [OF Some True], of cout "arg_int a0" "arg_int a1" y]
        by (auto simp: sys_timer_settime_def Let_def)
    next
      case False
      then show ?thesis using xy cur inv Some by (auto simp: sys_timer_settime_def Let_def)
    qed
  qed
qed

lemma sys_timer_delete_inv:
  assumes inv: "timers_inv s" and cur: "\<And>i. env_current e = Some i \<Longrightarrow> i < length (proc_pool s)"
  shows "\<exists>s' r. sys_timer_delete e a0 s = Some (s', r) \<and> timers_inv s'"
proof (cases "List.find (owned_by s (arg_int a0) (env_current e)) [0..<32]")
  case None
  then show ?thesis
    using find_owned_slot_ok [OF inv, of "env_current e" "arg_int a0"] cur inv by (simp add: sys_timer_delete_def)
next
  case (Some k)
  then have "k < 32" using find_SomeD [OF Some] by simp
  then show ?thesis
    using find_owned_slot_ok [OF inv, of "env_current e" "arg_int a0"] cur Some inv clear_posix_timer_locked_inv [OF inv, of k]
    by (auto simp: sys_timer_delete_def)
qed

section \<open>The range of the clocks\<close>

lemma cycles_per_tick_pos:
  assumes "clock_ok hw" "1000000 \<le> frequency_hz hw"
  shows "0 < cycles_per_tick (frequency_hz hw)"
proof -
  let ?f = "frequency_hz hw"
  have f: "?f * 1000000000 < 2 ^ 64" using assms(1) by (simp add: clock_ok_def)
  have m: "microseconds_to_cycles ?f tick_period_us = 10000 * ?f div 1000000"
    using f by (simp add: microseconds_to_cycles_def tick_period_us_def M_dec_def K_dec_def u64_mul_def u64_add_def)
  have "10000 * ?f div 1000000 \<le> ?f" by simp
  then have "u64_add (10000 * ?f div 1000000) 3 = 10000 * ?f div 1000000 + 3" using f by (simp add: u64_add_def)
  moreover have "10000 \<le> 10000 * ?f div 1000000" using assms(2) by simp
  ultimately show ?thesis
    unfolding cycles_per_tick_def m Let_def using mod_less_divisor [of 4 "10000 * ?f div 1000000 + 3"] by linarith
qed

lemma ns_to_timespec_bound:
  assumes "in_s64 ns"
  shows "\<bar>tv_sec (ns_to_timespec ns)\<bar> < 2 ^ 60"
proof -
  note n = ns_to_timespec_ns [of ns]
  have "tv_sec (ns_to_timespec ns) * 1000000000 \<le> ns" "ns < tv_sec (ns_to_timespec ns) * 1000000000 + 1000000000"
    using n by (auto simp: timespec_ns_def)
  then show ?thesis using assms by (simp add: in_s64_def) arith
qed

lemma cpu_time_bound:
  assumes hw: "clock_ok hw" "1000000 \<le> frequency_hz hw"
    and b: "(user_ticks p + stime p) * cycles_per_tick (frequency_hz hw) < 2 ^ 62"
  shows "0 \<le> tv_sec (cpu_time (frequency_hz hw) p) \<and> tv_sec (cpu_time (frequency_hz hw) p) < 2 ^ 60 \<and>
    0 \<le> tv_nsec (cpu_time (frequency_hz hw) p) \<and> tv_nsec (cpu_time (frequency_hz hw) p) < 1000000000"
proof -
  let ?f = "frequency_hz hw" and ?c = "cycles_per_tick (frequency_hz hw)"
  have f: "0 < ?f" "?f * 1000000000 < 2 ^ 64" using hw(1) by (auto simp: clock_ok_def)
  have c: "1 \<le> ?c" using cycles_per_tick_pos [OF hw] by simp
  define u where "u = user_ticks p * ?c"
  have "stime p * 1 \<le> stime p * ?c" using c by (intro mult_le_mono2)
  moreover have "u + stime p * ?c < 2 ^ 62" using b by (simp add: u_def add_mult_distrib)
  ultimately have us: "u < 2 ^ 62" "stime p < 2 ^ 62" by linarith+
  have mu: "u64_mul (user_ticks p) ?c = u" using us by (simp add: u64_mul_def u_def)
  have "u div ?f \<le> u div 1000000" using hw(2) by (intro div_le_mono2) auto
  then have q: "u div ?f < 2 ^ 43" using us(1) by (auto simp: less_mult_imp_div_less)
  have "(u mod ?f) * 1000000000 < ?f * 1000000000" using f by simp
  then have r2: "(u mod ?f) * 1000000000 div ?f < 1000000000" and "(u mod ?f) * 1000000000 < 2 ^ 64"
    using f(2) by (auto simp: less_mult_imp_div_less mult.commute simp del: mult_less_cancel2 mod_less_divisor)
  then have r: "u64_mul (u mod ?f) 1000000000 = (u mod ?f) * 1000000000" by (simp add: u64_mul_small)
  have st: "stime p div 1000000 < 2 ^ 43" using us(2) by (auto simp: less_mult_imp_div_less)
  have st2: "u64_mul (stime p mod 1000000) 1000 = (stime p mod 1000000) * 1000"
    by (simp add: u64_mul_def)
  have st3: "(stime p mod 1000000) * 1000 < 1000000000" using mod_less_divisor [of 1000000 "stime p"] by linarith
  define ts tn where "ts = u64_add (u div ?f) (stime p div 1000000)"
    and "tn = u64_add ((u mod ?f) * 1000000000 div ?f) ((stime p mod 1000000) * 1000)"
  have ts: "ts < 2 ^ 44" using q st by (simp add: ts_def u64_add_def)
  have tn: "tn < 2000000000" using r2 st3 by (simp add: tn_def u64_add_def)
  have "u64_add ts (tn div 1000000000) < 2 ^ 45" using ts tn by (simp add: u64_add_def)
  then show ?thesis
    using ts tn unfolding cpu_time_def mu r st2 Let_def ts_def [symmetric] tn_def [symmetric]
    by (auto simp: to_s64_def split: if_splits)
qed

lemma sgi_bound:
  assumes "clock_ok hw"
  shows "\<bar>tv_sec (cycles_to_timespec (frequency_hz hw) (read_ticks hw) 0)\<bar> < 2 ^ 60 \<and>
    0 \<le> tv_nsec (cycles_to_timespec (frequency_hz hw) (read_ticks hw) 0) \<and>
    tv_nsec (cycles_to_timespec (frequency_hz hw) (read_ticks hw) 0) < 1000000000"
proof -
  let ?f = "frequency_hz hw" and ?t = "read_ticks hw"
  have f: "0 < ?f" "?f * 1000000000 < 2 ^ 64" "?t * 1000000000 div ?f < 2 ^ 62" using assms by (auto simp: clock_ok_def)
  have "(?t div ?f) * 1000000000 \<le> ?t * 1000000000 div ?f"
    using scale_split [OF f(1), of ?t 1000000000] by linarith
  then have q: "?t div ?f < 2 ^ 60" using f(3) by simp
  have "(?t mod ?f) * 1000000000 < ?f * 1000000000" using f by simp
  then have r: "(?t mod ?f) * 1000000000 div ?f < 1000000000" and "(?t mod ?f) * 1000000000 < 2 ^ 64"
    using f(2) by (auto simp: less_mult_imp_div_less mult.commute simp del: mult_less_cancel2 mod_less_divisor)
  then have "u64_mul (?t mod ?f) 1000000000 = (?t mod ?f) * 1000000000" by (simp add: u64_mul_small)
  then show ?thesis
    using q r by (simp add: cycles_to_timespec_def G_dec_def M_dec_def K_dec_def u64_add_def to_s64_def)
qed

lemma clock_gettime_range:
  assumes env: "env_ok e s" and cur: "cur = None \<or> (\<exists>i<length (proc_pool s). cur = Some (proc_pool s ! i))"
    and g: "clock_gettime (env_hw e) cur (env_tm e) c False = Some (r, Some t)"
  shows "\<bar>tv_sec t\<bar> < 2 ^ 60 \<and> 0 \<le> tv_nsec t \<and> tv_nsec t < 1000000000"
proof -
  have hw: "clock_ok (env_hw e)" "1000000 \<le> frequency_hz (env_hw e)" using env by (auto simp: env_ok_def)
  have ns: "\<bar>tv_sec (ns_to_timespec x)\<bar> < 2 ^ 60 \<and> 0 \<le> tv_nsec (ns_to_timespec x) \<and> tv_nsec (ns_to_timespec x) < 1000000000"
    if "s64_add a b = Some x" for a b x
    using that ns_to_timespec_bound [of x] ns_to_timespec_ns [of x] by (auto simp: s64_add_def split: if_splits)
  have el: "s64_add (elapsed_ns (env_hw e)) 0 = Some (elapsed_ns (env_hw e))"
    using elapsed_ns_range [OF hw(1)] by (intro trans [OF s64_add_small]) (auto simp: in_s64_def)
  have cpu: "\<bar>tv_sec (cpu_time (frequency_hz (env_hw e)) p)\<bar> < 2 ^ 60 \<and> 0 \<le> tv_nsec (cpu_time (frequency_hz (env_hw e)) p) \<and>
      tv_nsec (cpu_time (frequency_hz (env_hw e)) p) < 1000000000" if "cur = Some p" for p
  proof -
    have "task_clock_ok e p" using that cur task_clock_okD [OF env] by auto
    then have "(user_ticks p + stime p) * cycles_per_tick (frequency_hz (env_hw e)) < 2 ^ 62"
      by (auto simp: task_clock_ok_def add_mult_distrib)
    then show ?thesis using cpu_time_bound [OF hw, of p] by auto
  qed
  have "(\<exists>a b x. s64_add a b = Some x \<and> t = ns_to_timespec x) \<or> t = ns_to_timespec (elapsed_ns (env_hw e)) \<or>
      (\<exists>p. cur = Some p \<and> t = cpu_time (frequency_hz (env_hw e)) p) \<or>
      t = cycles_to_timespec (frequency_hz (env_hw e)) (read_ticks (env_hw e)) 0"
    using g unfolding clock_gettime_def realtime_now_ns_locked_def apply_time_namespace_offset_def cycles_to_ns_elapsed [OF hw(1)]
    by (cases cur) (auto split: bind_splits if_splits)
  then show ?thesis
    using sgi_bound [OF hw(1)] ns [OF el] ns cpu by blast
qed

lemma settime_new_expiry_ok:
  assumes env: "env_ok e s" and v: "itimerspec_valid spec" "tv_sec (it_value spec) < 2 ^ 60"
  shows "settime_new_expiry e s flags c spec \<noteq> None"
proof (cases "it_value spec = zero_timespec")
  case True
  then show ?thesis by (simp add: settime_new_expiry_def)
next
  case False
  obtain cur where cur: "cur_pcb e s = Some cur" "cur = None \<or> (\<exists>i<length (proc_pool s). cur = Some (proc_pool s ! i))"
    using env by (cases "env_current e") (auto simp: cur_pcb_def env_ok_def array_simps)
  obtain r ts where g: "clock_gettime (env_hw e) cur (env_tm e) c False = Some (r, ts)" "r = 0 \<longleftrightarrow> ts \<noteq> None" "r \<le> 0"
    using clock_gettime_ok [OF env cur(2), of c] by blast
  show ?thesis
  proof (cases ts)
    case None
    then show ?thesis using False cur(1) g by (simp add: settime_new_expiry_def)
  next
    case (Some now)
    have n: "\<bar>tv_sec now\<bar> < 2 ^ 60" "0 \<le> tv_nsec now" "tv_nsec now < 1000000000"
      using clock_gettime_range [OF env cur(2), of c r now] g(1) Some by auto
    have "settime_expiry flags now (it_value spec) \<noteq> None"
      using n v by (auto simp: settime_expiry_def itimerspec_valid_def s64_add_def in_s64_def Let_def split: if_splits)
    then show ?thesis using False cur(1) g Some by (auto simp: settime_new_expiry_def)
  qed
qed

end
