(* ===== verification/Timer_Theorems.thy ===== *)
theory Timer_Theorems
  imports Timer_Slots
begin

text \<open>
  The properties of the timers: what each kind of timer does when it expires, that setting and reading
  a timer agree, that the counters let the clock interrupt skip its scans, and that no sequence of
  operations breaks the invariant or faults.
\<close>

section \<open>Periodic POSIX timers\<close>

definition normalised :: "timespec \<Rightarrow> bool" where
  "normalised t \<longleftrightarrow> 0 \<le> tv_nsec t \<and> tv_nsec t < 1000000000"

lemma int_less_nat: "int a = b \<Longrightarrow> b < 2 ^ 64 \<Longrightarrow> a < 2 ^ 64"
  by simp

lemma sec_nonneg: "0 \<le> (s::int) * 1000000000 + n \<Longrightarrow> n < 1000000000 \<Longrightarrow> 0 \<le> s"
  by linarith

lemma sec_pos: "0 \<le> (s::int) * 1000000000 + n \<Longrightarrow> n < 0 \<Longrightarrow> 1 \<le> s"
  by linarith

lemma seconds_and_nanos_exact:
  assumes "s * 1000000000 + n < 2 ^ 64"
  shows "seconds_and_nanos s n = s * 1000000000 + n"
proof -
  have "s \<le> (2 ^ 64 - 1 - n) div 1000000000"
    using assms by (subst less_eq_div_iff_mult_less_eq) auto
  then show ?thesis using assms by (simp add: seconds_and_nanos_def UINT64_MAX_def u64_add_def u64_mul_def)
qed

lemma timespec_le_ns:
  assumes "normalised a" "normalised b"
  shows "timespec_less_or_equal a b \<longleftrightarrow> timespec_ns a \<le> timespec_ns b"
proof (cases "tv_sec a = tv_sec b")
  case True
  then show ?thesis by (simp add: timespec_less_or_equal_def timespec_ns_def)
next
  case False
  then show ?thesis
    using assms unfolding timespec_less_or_equal_def timespec_ns_def normalised_def by (cases "tv_sec a < tv_sec b") auto
qed

lemma timespec_delta_exact:
  assumes n: "normalised a" "normalised b" and le: "timespec_ns b \<le> timespec_ns a" and d: "timespec_ns a - timespec_ns b < 2 ^ 64"
  shows "int (timespec_delta_ns a b) = timespec_ns a - timespec_ns b"
proof -
  let ?s = "tv_sec a - tv_sec b" and ?n = "tv_nsec a - tv_nsec b"
  have e: "timespec_ns a - timespec_ns b = ?s * 1000000000 + ?n" by (simp add: timespec_ns_def algebra_simps)
  have nn: "- 1000000000 < ?n" "?n < 1000000000" using n by (auto simp: normalised_def)
  then have s0: "0 \<le> ?s" using sec_nonneg [of ?s ?n] le e by simp
  have s1: "?s < 2 ^ 60" using d e nn by simp
  have ord: "timespec_less_or_equal b a" using timespec_le_ns [OF n(2,1)] le by simp
  have u: "to_u64 ?s = nat ?s" using s0 s1 by (simp add: to_u64_small)
  show ?thesis
  proof (cases "?n < 0")
    case True
    then have s: "1 \<le> ?s" using sec_pos [of ?s ?n] le e by simp
    have v: "to_u64 (?n + 1000000000) = nat (?n + 1000000000)" using nn by (simp add: to_u64_small)
    have "int ((nat ?s - 1) * 1000000000 + nat (?n + 1000000000)) = ?s * 1000000000 + ?n" using s nn by (simp add: of_nat_diff)
    moreover from this have "(nat ?s - 1) * 1000000000 + nat (?n + 1000000000) < 2 ^ 64"
      by (rule int_less_nat) (use d e in simp)
    ultimately show ?thesis
      using ord True s by (simp add: timespec_delta_ns_def Let_def u v seconds_and_nanos_exact e)
  next
    case False
    then have v: "to_u64 ?n = nat ?n" using nn by (simp add: to_u64_small)
    have "int (nat ?s * 1000000000 + nat ?n) = ?s * 1000000000 + ?n" using s0 False by simp
    moreover from this have "nat ?s * 1000000000 + nat ?n < 2 ^ 64"
      by (rule int_less_nat) (use d e in simp)
    ultimately show ?thesis
      using ord False by (simp add: timespec_delta_ns_def Let_def u v seconds_and_nanos_exact e)
  qed
qed

lemma timespec_interval_exact:
  assumes "normalised i" "0 \<le> tv_sec i" "timespec_ns i < 2 ^ 64"
  shows "int (timespec_interval_ns i) = timespec_ns i"
proof -
  have s: "tv_sec i < 2 ^ 60" using assms by (simp add: timespec_ns_def normalised_def)
  then have "to_u64 (tv_sec i) = nat (tv_sec i)" "to_u64 (tv_nsec i) = nat (tv_nsec i)"
    using assms by (simp_all add: to_u64_small normalised_def)
  moreover have "int (nat (tv_sec i) * 1000000000 + nat (tv_nsec i)) = timespec_ns i"
    using assms(1,2) by (simp add: timespec_ns_def normalised_def)
  then have "nat (tv_sec i) * 1000000000 + nat (tv_nsec i) < 2 ^ 64"
    by (rule int_less_nat) (use assms(3) in simp)
  ultimately show ?thesis
    using assms by (simp add: timespec_interval_ns_def seconds_and_nanos_exact timespec_ns_def normalised_def)
qed

lemma timespec_add_exact:
  assumes "normalised b" "n < 2 ^ 64"
  shows "timespec_ns (timespec_add_ns b n) = timespec_ns b + int n \<and> normalised (timespec_add_ns b n)"
proof -
  have q: "to_s64 (n div 1000000000) = int (n div 1000000000)" using assms(2) by (intro to_s64_small) simp
  have r: "to_s64 (n mod 1000000000) = int (n mod 1000000000)" by (intro to_s64_small) simp
  have e: "int n = int (n div 1000000000) * 1000000000 + int (n mod 1000000000)"
    by (metis of_nat_add of_nat_mult of_nat_numeral div_mult_mod_eq)
  have m: "int (n mod 1000000000) < 1000000000" by simp
  show ?thesis
    using assms(1) e m unfolding timespec_add_ns_def q r Let_def by (auto simp: timespec_ns_def normalised_def algebra_simps)
qed

text \<open>A periodic timer that has expired is re-armed at the first multiple of its interval after the
  present, in one division: no expiration is lost or counted twice, and the overrun is the number of
  further expirations that were missed, capped at \<open>INT_MAX\<close>.\<close>

theorem rearm_periodic_correct:
  assumes "normalised (expiry_time t)" "normalised now" "normalised (it_interval (timer_spec t))"
    and "0 \<le> tv_sec (it_interval (timer_spec t))" "0 < timespec_ns (it_interval (timer_spec t))"
    and "timespec_ns (it_interval (timer_spec t)) < 2 ^ 64"
    and "timespec_ns (expiry_time t) \<le> timespec_ns now" "timespec_ns now - timespec_ns (expiry_time t) < 2 ^ 64"
  shows "let t' = rearm_periodic now t;
             period = timespec_ns (it_interval (timer_spec t));
             missed = (timespec_ns now - timespec_ns (expiry_time t)) div period
         in timespec_ns (expiry_time t') = timespec_ns (expiry_time t) + (missed + 1) * period \<and>
            normalised (expiry_time t') \<and> timespec_ns now < timespec_ns (expiry_time t') \<and>
            timespec_ns (expiry_time t') \<le> timespec_ns now + period \<and>
            timer_overrun t' = min missed (int INT_MAX)"
proof -
  let ?iv = "it_interval (timer_spec t)"
  define E P where "E = timespec_delta_ns now (expiry_time t)" and "P = timespec_interval_ns ?iv"
  have E: "int E = timespec_ns now - timespec_ns (expiry_time t)"
    unfolding E_def by (rule timespec_delta_exact) (use assms in auto)
  have P: "int P = timespec_ns ?iv" unfolding P_def by (rule timespec_interval_exact) (use assms in auto)
  have pos: "0 < P" "P < 2 ^ 64" using assms(5,6) P by auto
  have r: "rearm_periodic now t = t\<lparr>timer_overrun := (if INT_MAX < E div P then int INT_MAX else int (E div P)),
      expiry_time := timespec_add_ns now (P - E mod P)\<rparr>"
    using pos by (simp add: rearm_periodic_def Let_def E_def [symmetric] P_def [symmetric])
  have a: "timespec_ns (timespec_add_ns now (P - E mod P)) = timespec_ns now + int (P - E mod P)"
    "normalised (timespec_add_ns now (P - E mod P))"
    using timespec_add_exact [OF assms(2), of "P - E mod P"] pos by auto
  have m: "E mod P < P" using pos by simp
  have "int E = int (E div P) * int P + int (E mod P)" by (metis of_nat_add of_nat_mult div_mult_mod_eq)
  then have "timespec_ns now + int (P - E mod P) = timespec_ns (expiry_time t) + (int (E div P) + 1) * int P"
    using E m by (simp add: of_nat_diff algebra_simps)
  moreover have "(timespec_ns now - timespec_ns (expiry_time t)) div timespec_ns ?iv = int (E div P)"
    using E P by (simp add: zdiv_int)
  ultimately show ?thesis
    using r a m P by (simp add: Let_def of_nat_diff)
qed

definition demo_timer :: extended_posix_timer where
  "demo_timer = zero_timer\<lparr>timer_id := 5, timer_clock := CLOCK_MONOTONIC, timer_owner := Some 0,
     timer_event := \<lparr>sigev_notify = 0, sigev_signo = 14, sival_ptr = 0, sigev_notify_thread_id = 0\<rparr>,
     timer_active := True, timer_armed := True,
     timer_spec := \<lparr>it_interval = \<lparr>tv_sec = 1, tv_nsec = 500000000\<rparr>, it_value = \<lparr>tv_sec = 3, tv_nsec = 0\<rparr>\<rparr>,
     expiry_time := \<lparr>tv_sec = 10, tv_nsec = 0\<rparr>\<rparr>"

theorem rearm_periodic_correct_witness:
  "timespec_ns (expiry_time (rearm_periodic \<lparr>tv_sec = 14, tv_nsec = 700000000\<rparr> demo_timer)) = 16000000000 \<and>
   timer_overrun (rearm_periodic \<lparr>tv_sec = 14, tv_nsec = 700000000\<rparr> demo_timer) = 3"
  using rearm_periodic_correct [of demo_timer "\<lparr>tv_sec = 14, tv_nsec = 700000000\<rparr>"]
  by (simp add: demo_timer_def normalised_def timespec_ns_def INT_MAX_def Let_def)

section \<open>A sample state\<close>

definition demo_timers :: timers where
  "demo_timers = \<lparr>proc_pool = [demo_pcb], g_timers = (replicate 32 zero_timer)[3 := demo_timer], g_next_timer_id = 6,
     g_timers_initialized = True, g_armed_posix_timers = 1, g_armed_realtime_interval_timers = 1\<rparr>"

definition demo_env :: "nat \<Rightarrow> timer_env" where
  "demo_env t = \<lparr>env_hw = demo_hw t, env_tm = \<lparr>g_realtime_offset_ns = 0, trap_ticks = 90\<rparr>, env_current = Some 0,
     env_unmasked = (\<lambda>_. True), env_after_remove = (\<lambda>_ s. s)\<rparr>"

lemma demo_slots: "k < 32 \<Longrightarrow> (replicate 32 zero_timer)[3 := demo_timer] ! k = (if k = 3 then demo_timer else zero_timer)"
  by (simp add: nth_list_update)

lemma demo_timers_inv: "timers_inv demo_timers"
proof -
  have z: "\<not> timer_active zero_timer" "\<not> timer_armed zero_timer" by (simp_all add: zero_timer_def)
  have "filter timer_armed (replicate 32 zero_timer) = []" using z by (simp add: filter_empty_conv)
  then have "length (filter timer_armed ((replicate 32 zero_timer)[3 := demo_timer])) = 1"
    using count_update [of 3 "replicate 32 zero_timer" timer_armed demo_timer] z by (simp add: demo_timer_def)
  moreover have "\<forall>t\<in>set ((replicate 32 zero_timer)[3 := demo_timer]). slot_ok demo_timers t"
  proof
    fix t
    assume "t \<in> set ((replicate 32 zero_timer)[3 := demo_timer])"
    then have "t \<in> insert demo_timer (set (replicate 32 zero_timer))" using set_update_subset_insert by fast
    then have "t = demo_timer \<or> t = zero_timer" by simp
    then show "slot_ok demo_timers t"
      by (auto simp: slot_ok_def demo_timer_def zero_timer_def demo_timers_def)
  qed
  moreover have "ids_unique ((replicate 32 zero_timer)[3 := demo_timer])"
    unfolding ids_unique_def
  proof (intro allI impI)
    fix j k
    assume jk: "j < length ((replicate 32 zero_timer)[3 := demo_timer])" "k < length ((replicate 32 zero_timer)[3 := demo_timer])"
      "timer_active ((replicate 32 zero_timer)[3 := demo_timer] ! j)" "timer_active ((replicate 32 zero_timer)[3 := demo_timer] ! k)"
    then have "j < 32" "k < 32" by simp_all
    with jk(3,4) show "j = k"
      unfolding demo_slots [OF \<open>j < 32\<close>] demo_slots [OF \<open>k < 32\<close>] using z by (simp split: if_splits)
  qed
  moreover have "pcb_ok demo_pcb" by (simp add: pcb_ok_def demo_pcb_def k_interval_timer_count_def)
  moreover have "real_armed demo_pcb" by (simp add: real_armed_def demo_pcb_def)
  ultimately show ?thesis
    by (simp add: timers_inv_def armed_slots_def armed_real_def demo_timers_def)
qed

lemma demo_env_ok:
  assumes "t < 10 ^ 12"
  shows "env_ok (demo_env t) demo_timers"
proof -
  have "cycles_per_tick 10000000 = 100000"
    by (simp add: cycles_per_tick_def microseconds_to_cycles_def tick_period_us_def M_dec_def K_dec_def u64_mul_def u64_add_def Let_def)
  then have "task_clock_ok (demo_env t) demo_pcb" by (simp add: task_clock_ok_def demo_env_def demo_pcb_def demo_hw_def)
  then have "task_clock_ok (demo_env t) (strip demo_pcb)" by (simp add: task_clock_ok_def)
  then show ?thesis
    using demo_hw_ok [OF assms] by (simp add: env_ok_def demo_env_def demo_timers_def) (simp add: demo_hw_def)
qed

lemma demo_window: "window_ok (demo_env t)"
  by (simp add: window_ok_def window_inv_def stable_def demo_env_def)

section \<open>Interval timers\<close>

text \<open>The first multiple of \<open>p\<close> above \<open>d\<close>.\<close>

lemma next_multiple:
  assumes "0 < (p::nat)"
  shows "(d div p + 1) * p = d + (p - d mod p)"
proof -
  have "(d div p + 1) * p = d div p * p + p" by simp
  also have "\<dots> = d - d mod p + p" by (simp add: minus_mod_eq_div_mult)
  also have "\<dots> = d + (p - d mod p)" using assms mod_less_divisor [of p d] mod_less_eq_dividend [of d p] by linarith
  finally show ?thesis .
qed

text \<open>C37. The loop that advances a periodic interval timer terminates for every positive interval and
  ends at the first multiple of the interval after the present (no wrap-around of the sum).\<close>

theorem advance_expiry_terminates:
  assumes "0 < interval" "now + interval < 2 ^ 64" "expiry \<le> now"
  shows "\<exists>x. advance_expiry expiry interval now = Some x \<and> now < x \<and> x \<le> now + interval \<and> interval dvd (x - expiry)"
proof -
  let ?m = "(now - expiry) div interval"
  have "(now - expiry) mod interval < interval" using assms(1) by simp
  then have "now < expiry + (?m + 1) * interval" "expiry + (?m + 1) * interval \<le> now + interval"
    unfolding next_multiple [OF assms(1)] using assms(3) by linarith+
  then show ?thesis using advance_expiry_Some [OF assms] by auto
qed

theorem advance_expiry_terminates_witness:
  "\<exists>x. advance_expiry 950 100 2030 = Some x \<and> 2030 < x \<and> x \<le> 2030 + 100 \<and> 100 dvd (x - 950)"
  by (rule advance_expiry_terminates) simp_all

text \<open>An interval timer that is looked at is left alone while it is disarmed or not due; when it is
  due its signal is sent, a one-shot timer is disarmed and a periodic one is moved past the present; the
  other timers of the task stay, and the count of armed real timers stays exact. This holds as long as the
  task's own timers are left alone while its lock is given up for the signal.\<close>

theorem interval_timer_fires:
  assumes "timers_inv s" "env_ok e s" "window_ok e" "i < length (proc_pool s)" "is_valid_interval_timer_kind which" "now < 2 ^ 63"
  shows "\<exists>s' evs. maybe_fire_interval_timer e i which now s = Some (s', evs) \<and> timers_inv s' \<and>
    itimer (proc_pool s' ! i) = (itimer (proc_pool s ! i))[nat which := itimer_at now (itimer (proc_pool s ! i) ! nat which)] \<and>
    (T_add_signal i (timer_signal_for_kind which) \<in> set evs \<longleftrightarrow>
       it_armed (itimer (proc_pool s ! i) ! nat which) \<and> expiry_us (itimer (proc_pool s ! i) ! nat which) \<le> now)"
  using maybe_fire_inv [OF assms] by blast

theorem interval_timer_fires_witness:
  "\<exists>s' evs. maybe_fire_interval_timer (demo_env 20300) 0 0 2030 demo_timers = Some (s', evs) \<and> timers_inv s' \<and>
    T_add_signal 0 14 \<in> set evs \<and> expiry_us (itimer (proc_pool s' ! 0) ! 0) = 2050"
  using interval_timer_fires [OF demo_timers_inv demo_env_ok [of 20300] demo_window, of 0 0 2030]
  by (auto simp: demo_timers_def demo_pcb_def is_valid_interval_timer_kind_def k_interval_timer_count_def itimer_at_def
      timer_signal_for_kind_def k_interval_timer_real_def SIGALRM_def)

text \<open>Setting a real interval timer and reading it later agree: the value read is the time left until
  the next expiration, counted from the time of the setting, and the interval is the one that was set.\<close>

theorem setitimer_getitimer:
  assumes "timers_inv s" "env_ok e s" "\<And>s. env_ok e s \<Longrightarrow> env_ok e' s" "window_ok e" "window_ok e'" "i < length (proc_pool s)"
    and "interval < 2 ^ 63" "0 < v" "realtime_now_usec e + v < 2 ^ 63"
  shows "\<exists>s1 old evs s2 evs'. set_interval_timer e (Some i) k_interval_timer_real v interval want_old s = Some (s1, old, evs) \<and>
    read_interval_timer e' (Some i) k_interval_timer_real s1 = Some (s2,
      (let now = realtime_now_usec e; now' = realtime_now_usec e'
       in if now' < now + v then now + v - now'
          else if interval = 0 then 0 else interval - (now' - (now + v)) mod interval, interval), evs') \<and>
    timers_inv s2"
proof -
  let ?w = k_interval_timer_real
  define now now' where "now = realtime_now_usec e" and "now' = realtime_now_usec e'"
  have w: "is_valid_interval_timer_kind ?w"
    by (simp add: is_valid_interval_timer_kind_def k_interval_timer_real_def k_interval_timer_count_def)
  obtain s1 old evs where s1: "set_interval_timer e (Some i) ?w v interval want_old s = Some (s1, old, evs)" "timers_inv s1"
    "stable e s s1" "itimer (proc_pool s1 ! i) = (itimer (proc_pool s ! i))[nat ?w :=
       \<lparr>it_armed = True, interval_us = interval, expiry_us = u64_add now v\<rparr>]"
    using set_interval_timer_inv [OF assms(1,2,4,6) w assms(7) now_real [OF assms(6)], of v want_old] assms(8)
    by (auto simp: now_def)
  have u: "u64_add now v = now + v" using assms(9) by (simp add: u64_add_small now_def)
  have k: "nat ?w < length (itimer (proc_pool s ! i))"
    using w timers_invD(3) [OF assms(1,6)] by (auto simp: pcb_ok_def is_valid_interval_timer_kind_def)
  have i1: "i < length (proc_pool s1)" using assms(6) stableD(2) [OF s1(3)] by simp
  let ?t = "\<lparr>it_armed = True, interval_us = interval, expiry_us = now + v\<rparr>"
  have t: "itimer (proc_pool s1 ! i) ! nat ?w = ?t" using s1(4) k u by simp
  have n1: "interval_timer_now_usec e' s1 i ?w = Some now'" using now_real [OF i1] by (simp add: now'_def)
  obtain s2 evs' where s2: "read_interval_timer_locked e' i ?w s1 = Some (s2, (let t = itimer_at now' ?t
      in (if it_armed t then expiry_us t - now' else 0, interval_us t)), evs')" "timers_inv s2"
    using read_interval_timer_locked_inv [OF s1(2) assms(3) [OF stableD(1) [OF s1(3)]] assms(5) i1 w n1] t by auto
  have "expiry_us (itimer_at now' ?t) - now' = interval - (now' - (now + v)) mod interval" if "\<not> now' < now + v" "0 < interval"
  proof -
    let ?d = "now' - (now + v)"
    have "?d mod interval < interval" using that(2) by simp
    then have "now + v + (?d div interval + 1) * interval - now' = interval - ?d mod interval"
      unfolding next_multiple [OF that(2)] using that(1) by linarith
    then show ?thesis using that by (simp add: itimer_at_def)
  qed
  then have "(let t = itimer_at now' ?t in (if it_armed t then expiry_us t - now' else 0, interval_us t)) =
      (if now' < now + v then now + v - now' else if interval = 0 then 0 else interval - (now' - (now + v)) mod interval, interval)"
    by (auto simp: itimer_at_def Let_def)
  with s1 s2 w show ?thesis by (auto simp: read_interval_timer_def now_def now'_def Let_def)
qed

theorem setitimer_getitimer_witness:
  "\<exists>s1 old evs s2 evs'. set_interval_timer (demo_env 20000) (Some 0) k_interval_timer_real 500 300 True demo_timers = Some (s1, old, evs) \<and>
    read_interval_timer (demo_env 27000) (Some 0) k_interval_timer_real s1 = Some (s2, (100, 300), evs') \<and> timers_inv s2"
proof -
  have "realtime_now_usec (demo_env t) = t div 10" if "t = 20000 \<or> t = 27000" for t
    using that by (auto simp: realtime_now_usec_def demo_env_def demo_hw_def time_stamp_to_usec_def cycles_to_microseconds_def
        cycles_to_units_def u64_mul_def u64_add_def M_dec_def K_dec_def)
  moreover have "env_ok (demo_env 27000) s" if "env_ok (demo_env 20000) s" for s
    using that demo_hw_ok [of 27000] by (simp add: env_ok_def task_clock_ok_def demo_env_def) (simp add: demo_hw_def)
  ultimately show ?thesis
    using setitimer_getitimer [OF demo_timers_inv demo_env_ok [of 20000], of "demo_env 27000" 0 300 500 True] demo_window
    by (simp add: demo_timers_def Let_def)
qed

section \<open>Skipping the scans\<close>





text \<open>When a task exits, exactly the slots that it owns are cleared: no armed slot is left that would
  send a signal to the next user of its process control block.\<close>

theorem cleanup_clears_owner:
  assumes "timers_inv s" "g_timers_initialized s"
  shows "\<exists>s'. cleanup_posix_timers_for_owner (Some i) s = Some s' \<and> timers_inv s' \<and>
    (\<forall>k<32. (timer_active (g_timers s' ! k) \<longrightarrow> timer_owner (g_timers s' ! k) \<noteq> Some i) \<and>
      (g_timers s' ! k = (if timer_active (g_timers s ! k) \<and> timer_owner (g_timers s ! k) = Some i then zero_timer else g_timers s ! k)))"
proof -
  obtain s' where s': "cleanup_posix_timers_for_owner (Some i) s = Some s'" "timers_inv s'"
    "\<forall>k<32. g_timers s' ! k = (if timer_active (g_timers s ! k) \<and> timer_owner (g_timers s ! k) = Some i then zero_timer else g_timers s ! k)"
    using cleanup_inv [OF assms(1), of "Some i"] assms(2) by auto
  have "timer_active (g_timers s' ! k) \<longrightarrow> timer_owner (g_timers s' ! k) \<noteq> Some i" if "k < 32" for k
    using s'(3) that by (auto simp: zero_timer_def)
  then show ?thesis using s' by blast
qed

theorem cleanup_clears_owner_witness:
  "\<exists>s'. cleanup_posix_timers_for_owner (Some 0) demo_timers = Some s' \<and> timers_inv s' \<and> g_timers s' ! 3 = zero_timer"
proof -
  have 3: "(3::nat) < 32" by simp
  have t: "g_timers demo_timers ! 3 = demo_timer" by (simp add: demo_timers_def)
  have "g_timers_initialized demo_timers" by (simp add: demo_timers_def)
  then obtain s' where "cleanup_posix_timers_for_owner (Some 0) demo_timers = Some s'" "timers_inv s'"
    "g_timers s' ! 3 = (if timer_active (g_timers demo_timers ! 3) \<and> timer_owner (g_timers demo_timers ! 3) = Some 0
       then zero_timer else g_timers demo_timers ! 3)"
    using cleanup_clears_owner [OF demo_timers_inv, of 0] 3 by blast
  then show ?thesis unfolding t by (simp add: demo_timer_def)
qed

section \<open>The life of a POSIX timer\<close>

text \<open>C36. \<open>timer_create\<close> with arguments that pass its checks (addresses in range, the identifier's not null; a
  supported clock, the alarm clocks for the superuser only; a null or valid notification), called while
  identifiers are left, takes the first free slot, gives it an identifier that no live timer has, the clock
  and the notification (with the identifier as the value when none was given), and leaves every other slot
  alone; the caller finds the new, disarmed timer under that identifier. When the identifier cannot be
  stored in user memory, the slot is cleared again, but only if it still holds this very timer after what
  the other threads, which keep the invariant, did in the meantime. With all slots in use the call fails
  with \<open>EAGAIN\<close> and changes nothing.\<close>

theorem timer_create_correct:
  assumes inv: "timers_inv s" and cur: "env_current e = Some i" "i < length (proc_pool s)" "g_next_timer_id s + 1 < 2 ^ 31"
    and o: "others_ok others" and addr: "a1 < MAXVA" "0 < a2" "a2 < MAXVA"
    and clock: "c = clock_of_id (arg_int a0)" "timer_clock_allowed c"
      "c \<in> {CLOCK_REALTIME_ALARM, CLOCK_BOOTTIME_ALARM} \<longrightarrow> euid (proc_pool s ! i) = 0"
    and sev: "read_sigevent cin s (proc_pool s ! i) a1 = Some (Inr sev)"
  shows "\<exists>s' r out. sys_timer_create MAXVA e cin cout others a0 a1 a2 s = Some (s', r, out, []) \<and> timers_inv s' \<and>
    (case List.find (\<lambda>k. \<not> timer_active (g_timers s ! k)) [0..<32] of
       None \<Rightarrow> r = SYS_EAGAIN \<and> out = None \<and> s' = s
     | Some k \<Rightarrow> \<exists>s1. let n = g_next_timer_id s; t = g_timers s1 ! k; held = g_timers (others s1) ! k in
         (\<forall>j<32. timer_active (g_timers s ! j) \<longrightarrow> timer_id (g_timers s ! j) \<noteq> n) \<and>
         (\<forall>j<32. j \<noteq> k \<longrightarrow> g_timers s1 ! j = g_timers s ! j) \<and>
         find_owned_slot n (Some i) s1 = Some (Some k) \<and> \<not> timer_armed t \<and> timer_clock t = c \<and>
         timer_event t = (if a1 = 0 then sev\<lparr>sival_ptr := nat n\<rparr> else sev) \<and>
         (if cout a2 then r = 0 \<and> out = Some n \<and> s' = others s1
          else r = SYS_EFAULT \<and> out = None \<and>
            (\<forall>j<32. g_timers s' ! j =
              (if j = k \<and> timer_active held \<and> timer_id held = n \<and> timer_owner held = Some i then zero_timer
               else g_timers (others s1) ! j))))"
proof -
  have l: "length (g_timers s) = 32" using timers_invD(1) [OF inv] .
  have a: "arg_addr MAXVA a1 = Some a1" "arg_addr MAXVA a2 = Some a2" using addr by (auto simp: arg_addr_def)
  have perm: "((c = CLOCK_REALTIME_ALARM \<or> c = CLOCK_BOOTTIME_ALARM) \<and> euid (proc_pool s ! i) \<noteq> 0) = False"
    using clock(3) by auto
  have start: "sys_timer_create MAXVA e cin cout others a0 a1 a2 s =
      (case List.find (\<lambda>k. \<not> timer_active (g_timers s ! k)) [0..<32] of
         None \<Rightarrow> Some (s, SYS_EAGAIN, None, [])
       | Some k \<Rightarrow> do {
           (s, id') \<leftarrow> publish_timer c i sev (a1 = 0) k s;
           if cout a2 then Some (others s, 0, Some id', [])
           else do { s \<leftarrow> roll_back_timer k id' i (others s); Some (s, SYS_EFAULT, None, []) }
         })"
    using a addr(2) clock(2) cur sev find_free_slot_ok [OF inv]
    by (simp add: sys_timer_create_def array_simps Let_def clock(1) [symmetric] perm del: de_Morgan_conj de_Morgan_disj
        split: option.split)
  show ?thesis
  proof (cases "List.find (\<lambda>k. \<not> timer_active (g_timers s ! k)) [0..<32]")
    case None
    then show ?thesis using inv start by simp
  next
    case (Some k)
    have k: "k < 32" "\<not> timer_active (g_timers s ! k)" using find_SomeD [OF Some] by auto
    let ?n = "g_next_timer_id s"
    have pos: "0 < ?n" "?n < 2 ^ 32" using inv cur(3) by (simp_all add: timers_inv_def)
    let ?ev = "if a1 = 0 then sev\<lparr>sival_ptr := nat ?n\<rparr> else sev"
    let ?t = "zero_timer\<lparr>timer_id := ?n, timer_clock := c, timer_owner := Some i, timer_event := ?ev, timer_active := True\<rparr>"
    obtain s1 where s1: "publish_timer c i sev (a1 = 0) k s = Some (s1, ?n)" "timers_inv s1" "same_tasks s s1"
      "g_timers s1 = (g_timers s)[k := ?t]"
      using publish_timer_inv [OF inv k cur(2,3), of c sev "a1 = 0"] pos by auto
    have t1: "g_timers s1 ! k = ?t" using s1(4) k l by simp
    have i1: "i < length (proc_pool s1)" using cur(2) same_tasks_length [OF s1(3)] by simp
    have "owned_by s1 ?n (Some i) k" by (simp add: owned_by_def t1)
    then have own: "find_owned_slot ?n (Some i) s1 = Some (Some k)"
      using find_owned_slot_ok [OF s1(2), of "Some i" ?n] owned_by_unique [OF s1(2) k(1)] i1 by simp
    have fresh: "\<forall>j<32. timer_active (g_timers s ! j) \<longrightarrow> timer_id (g_timers s ! j) \<noteq> ?n"
      using timers_invD(4) [OF inv] by (fastforce simp: slot_ok_def)
    have new: "\<forall>j<32. j \<noteq> k \<longrightarrow> g_timers s1 ! j = g_timers s ! j" "\<not> timer_armed ?t" "timer_clock ?t = c" "timer_event ?t = ?ev"
      using s1(4) by (simp_all add: zero_timer_def)
    have o1: "timers_inv (others s1)" using o s1(2) by (simp add: others_ok_def)
    let ?h = "g_timers (others s1) ! k"
    obtain s2 where s2: "roll_back_timer k ?n i (others s1) = Some s2" "timers_inv s2"
      "\<forall>j<32. g_timers s2 ! j = (if j = k \<and> timer_active ?h \<and> timer_id ?h = ?n \<and> timer_owner ?h = Some i then zero_timer
         else g_timers (others s1) ! j)"
      by (rule roll_back_timer_outcome [OF o1 k(1)])
    show ?thesis
      using start Some s1(1) own fresh t1 new o1 s2 by (cases "cout a2") (auto simp: Let_def intro!: exI [of _ s1])
  qed
qed

theorem timer_create_correct_witness:
  "\<exists>s' r out. sys_timer_create (2 ^ 38) (demo_env 100) (\<lambda>_. None) (\<lambda>_. True) (\<lambda>s. s) 1 0 4096 demo_timers = Some (s', r, out, []) \<and>
     out = Some 6 \<and> find_owned_slot 6 (Some 0) s' = Some (Some 0)"
proof -
  have z: "\<not> timer_active (g_timers demo_timers ! 0)" by (simp add: demo_timers_def zero_timer_def)
  have u: "[0..<32] = 0 # [Suc 0..<32]" by (simp add: upt_rec)
  have f: "List.find (\<lambda>k. \<not> timer_active (g_timers demo_timers ! k)) [0..<32] = Some 0"
    unfolding u using z by simp
  have "others_ok (\<lambda>s. s)" by (simp add: others_ok_def)
  moreover have "g_next_timer_id demo_timers = 6" "length (proc_pool demo_timers) = 1" by (simp_all add: demo_timers_def)
  moreover have "clock_of_id (arg_int 1) = CLOCK_MONOTONIC" by (simp add: arg_int_def to_s32_def clock_of_id_def)
  ultimately show ?thesis
    using timer_create_correct [OF demo_timers_inv, of "demo_env 100" 0 "\<lambda>s. s" 0 "2 ^ 38" 4096 CLOCK_MONOTONIC 1 "\<lambda>_. None" _ "\<lambda>_. True"] f
    by (auto simp: demo_env_def timer_clock_allowed_def read_sigevent_def Let_def)
qed

lemma clock_gettime_strip:
  assumes "strip p = strip q"
  shows "clock_gettime hw (Some p) tm c b = clock_gettime hw (Some q) tm c b"
proof -
  have "user_ticks p = user_ticks q" "stime p = stime q" "monotonic_offset_ns p = monotonic_offset_ns q"
    "boottime_offset_ns p = boottime_offset_ns q"
    using arg_cong [OF assms, of user_ticks] arg_cong [OF assms, of stime] arg_cong [OF assms, of monotonic_offset_ns]
      arg_cong [OF assms, of boottime_offset_ns] by simp_all
  then show ?thesis by (simp add: clock_gettime_def apply_time_namespace_offset_def cpu_time_def)
qed

lemma remaining_exact:
  assumes n: "normalised x" "normalised now" and b: "\<bar>tv_sec x\<bar> < 2 ^ 62" "\<bar>tv_sec now\<bar> < 2 ^ 60"
  shows "\<exists>r. remaining_time x now = Some r \<and> normalised r \<and> timespec_ns r = max 0 (timespec_ns x - timespec_ns now)"
proof -
  let ?s = "tv_sec x - tv_sec now" and ?n = "tv_nsec x - tv_nsec now"
  have e: "timespec_ns x - timespec_ns now = ?s * 1000000000 + ?n" by (simp add: timespec_ns_def algebra_simps)
  have nn: "- 1000000000 < ?n" "?n < 1000000000" using n by (auto simp: normalised_def)
  have s: "s64_add (tv_sec x) (- tv_sec now) = Some ?s" "s64_add ?s (-1) = Some (?s - 1)"
    using b by (auto simp: s64_add_def in_s64_def)
  define S N where "S = (if ?n < 0 then ?s - 1 else ?s)" and "N = (if ?n < 0 then ?n + 1000000000 else ?n)"
  have SN: "timespec_ns x - timespec_ns now = S * 1000000000 + N" "0 \<le> N" "N < 1000000000"
    using e nn by (auto simp: S_def N_def)
  have r: "remaining_time x now = Some (if S < 0 \<or> (S = 0 \<and> N \<le> 0) then zero_timespec else \<lparr>tv_sec = S, tv_nsec = N\<rparr>)"
    unfolding remaining_time_def s(1) Option.bind.simps(2) Let_def S_def N_def
    by (cases "?n < 0") (simp_all only: if_True if_False s(2) Option.bind.simps(2) prod.case)
  have "S * 1000000000 + N \<le> 0" if "S < 0 \<or> (S = 0 \<and> N \<le> 0)" using that SN by (cases "S < 0") auto
  moreover have "0 \<le> S * 1000000000 + N" if "\<not> (S < 0 \<or> (S = 0 \<and> N \<le> 0))" using that SN by auto
  ultimately show ?thesis
    unfolding r using SN by (auto simp: normalised_def timespec_ns_def zero_timespec_def max_def)
qed

lemma settime_expiry_exact:
  assumes n: "normalised now" "normalised v" and b: "\<bar>tv_sec now\<bar> < 2 ^ 60" "0 \<le> tv_sec v" "tv_sec v < 2 ^ 60"
  shows "\<exists>x. settime_expiry 0 now v = Some x \<and> normalised x \<and> timespec_ns x = timespec_ns now + timespec_ns v \<and> \<bar>tv_sec x\<bar> < 2 ^ 62"
proof -
  have s: "s64_add (tv_sec now) (tv_sec v) = Some (tv_sec now + tv_sec v)" "s64_add (tv_sec now + tv_sec v) 1 = Some (tv_sec now + tv_sec v + 1)"
    using b by (auto simp: s64_add_def in_s64_def)
  then show ?thesis
    using n b by (auto simp: settime_expiry_def TIMER_ABSTIME_def normalised_def timespec_ns_def Let_def algebra_simps)
qed

text \<open>C35. A timer armed with \<open>timer_settime\<close> for a relative time reads back, at any later moment and on the
  same clock, the time that is left of it (zero once it has passed), with its interval. The old value that
  \<open>timer_settime\<close> reports is the specification of the last call, not the time left.\<close>

theorem timer_settime_gettime:
  assumes inv: "timers_inv s" and env: "env_ok e s" "env_ok e' s" "g_timers_initialized s"
    and cur: "env_current e = Some i" "env_current e' = Some i"
    and slot: "k < 32" "owned_by s (arg_int a0) (Some i) k"
    and args: "arg_int a1 = 0" "0 < a2" "a2 < MAXVA" "0 < a3" "a3 < MAXVA" "cin a2 = Some spec" "cout a3"
    and spec: "itimerspec_valid spec" "it_value spec \<noteq> zero_timespec" "tv_sec (it_value spec) < 2 ^ 60"
    and now: "clock_gettime (env_hw e) (Some (proc_pool s ! i)) (env_tm e) (timer_clock (g_timers s ! k)) False = Some (0, Some now)"
      "clock_gettime (env_hw e') (Some (proc_pool s ! i)) (env_tm e') (timer_clock (g_timers s ! k)) False = Some (0, Some now')"
  shows "\<exists>s' v. sys_timer_settime MAXVA e cin cout (\<lambda>s. s) a0 a1 a2 a3 s =
      Some (s', 0, Some (if timer_armed (g_timers s ! k) then timer_spec (g_timers s ! k) else zero_itimerspec), []) \<and> timers_inv s' \<and>
    (\<forall>j<32. j \<noteq> k \<longrightarrow> g_timers s' ! j = g_timers s ! j) \<and>
    sys_timer_gettime MAXVA e' cout a0 a3 s' = Some (0, Some \<lparr>it_interval = it_interval spec, it_value = v\<rparr>) \<and>
    normalised v \<and> timespec_ns v = max 0 (timespec_ns now + timespec_ns (it_value spec) - timespec_ns now')"
proof -
  have i: "i < length (proc_pool s)" using env(1) cur(1) by (simp add: env_ok_def)
  have c: "Some (proc_pool s ! i) = None \<or> (\<exists>j<length (proc_pool s). Some (proc_pool s ! i) = Some (proc_pool s ! j))" using i by blast
  have l: "length (g_timers s) = 32" using timers_invD(1) [OF inv] .
  have nw: "normalised now" "\<bar>tv_sec now\<bar> < 2 ^ 60" "normalised now'" "\<bar>tv_sec now'\<bar> < 2 ^ 60"
    using clock_gettime_range [OF env(1) c now(1)] clock_gettime_range [OF env(2) c now(2)] by (auto simp: normalised_def)
  obtain x where x: "settime_expiry 0 now (it_value spec) = Some x" "normalised x"
    "timespec_ns x = timespec_ns now + timespec_ns (it_value spec)" "\<bar>tv_sec x\<bar> < 2 ^ 62"
    using settime_expiry_exact [OF nw(1) _ nw(2), of "it_value spec"] spec by (auto simp: itimerspec_valid_def normalised_def)
  obtain v where v: "remaining_time x now' = Some v" "normalised v" "timespec_ns v = max 0 (timespec_ns x - timespec_ns now')"
    using remaining_exact [OF x(2) nw(3) x(4) nw(4)] by blast
  have f: "find_owned_slot (arg_int a0) (Some i) s = Some (Some k)"
    using find_owned_slot_ok [OF inv, of "Some i" "arg_int a0"] owned_by_unique [OF inv slot] i by simp
  let ?t = "(g_timers s ! k)\<lparr>timer_spec := spec, timer_armed := True, timer_overrun := 0, expiry_time := x\<rparr>"
  obtain s' where s': "commit_settime k spec True x s = Some s'" "timers_inv s'" "same_tasks s s'"
    "g_timers_initialized s' = g_timers_initialized s" "g_timers s' = (g_timers s)[k := ?t]"
    using commit_settime_inv [OF inv slot(1), of spec True x] slot(2) by (auto simp: owned_by_def)
  have x1: "settime_new_expiry e s 0 (timer_clock (g_timers s ! k)) spec = Some (Inr x)"
    using spec(2) cur i now(1) x(1) by (simp add: settime_new_expiry_def cur_pcb_def array_simps)
  have a: "arg_addr MAXVA a2 = Some a2" "arg_addr MAXVA a3 = Some a3" using args by (auto simp: arg_addr_def)
  have set: "sys_timer_settime MAXVA e cin cout (\<lambda>s. s) a0 a1 a2 a3 s =
      Some (s', 0, Some (if timer_armed (g_timers s ! k) then timer_spec (g_timers s ! k) else zero_itimerspec), [])"
    using a args cur f x1 s'(1) spec env(3) slot(1) l
    by (simp add: sys_timer_settime_def settime_checked_def array_simps Let_def)
  have i': "i < length (proc_pool s')" using i same_tasks_length [OF s'(3)] by simp
  have t': "g_timers s' ! k = ?t" using s'(5) slot(1) l by simp
  have "owned_by s' (arg_int a0) (Some i) k"
  proof -
    obtain o1 where o1: "timer_owner (g_timers s ! k) = Some o1" "tgid (proc_pool s ! o1) = tgid (proc_pool s ! i)"
      using slot(2) by (auto simp: owned_by_def)
    have "o1 < length (proc_pool s)" using timers_invD(4) [OF inv slot(1)] o1(1) by (simp add: slot_ok_def)
    then have "tgid (proc_pool s' ! o1) = tgid (proc_pool s ! o1)" "tgid (proc_pool s' ! i) = tgid (proc_pool s ! i)"
      using arg_cong [OF same_tasks_strip [OF s'(3)], of _ tgid] i by simp_all
    then show ?thesis using slot(2) o1 t' by (simp add: owned_by_def)
  qed
  then have f': "find_owned_slot (arg_int a0) (Some i) s' = Some (Some k)"
    using find_owned_slot_ok [OF s'(2), of "Some i" "arg_int a0"] owned_by_unique [OF s'(2) slot(1)] i' by simp
  have clk: "clock_gettime (env_hw e') (Some (proc_pool s' ! i)) (env_tm e') (timer_clock (g_timers s ! k)) False = Some (0, Some now')"
    using now(2) clock_gettime_strip [OF same_tasks_strip [OF s'(3) i]] by simp
  have "sys_timer_gettime MAXVA e' cout a0 a3 s' = Some (0, Some \<lparr>it_interval = it_interval spec, it_value = v\<rparr>)"
    using a(2) args(4,7) cur(2) f' t' i' v(1) clk s'(4) env(3) slot(1) timers_invD(1) [OF s'(2)]
    by (simp add: sys_timer_gettime_def cur_pcb_def array_simps)
  then show ?thesis
    using set s'(2,5) v x(3) l by (auto simp: nth_list_update)
qed

theorem timer_settime_gettime_witness:
  "\<exists>s' v. sys_timer_settime (2 ^ 38) (demo_env 20000000) (\<lambda>_. Some \<lparr>it_interval = zero_timespec, it_value = \<lparr>tv_sec = 5, tv_nsec = 0\<rparr>\<rparr>)
      (\<lambda>_. True) (\<lambda>s. s) 5 0 4096 8192 demo_timers = Some (s', 0, Some (timer_spec demo_timer), []) \<and>
    sys_timer_gettime (2 ^ 38) (demo_env 45000000) (\<lambda>_. True) 5 8192 s' = Some (0, Some \<lparr>it_interval = zero_timespec, it_value = v\<rparr>) \<and>
    timespec_ns v = 2500000000"
proof -
  have t: "g_timers demo_timers ! 3 = demo_timer" and p: "proc_pool demo_timers ! 0 = demo_pcb" and g: "g_timers_initialized demo_timers"
    by (simp_all add: demo_timers_def)
  have clk: "clock_gettime (env_hw (demo_env n)) (Some demo_pcb) (env_tm (demo_env n)) CLOCK_MONOTONIC False =
      Some (0, Some (ns_to_timespec (int n * 100)))" if "n = 20000000 \<or> n = 45000000" for n
    using that by (auto simp: clock_gettime_def demo_env_def demo_hw_def demo_pcb_def apply_time_namespace_offset_def cycles_to_ns_def
        k_nsec_per_sec_def u64_mul_def u64_add_def to_s64_def s64_add_def in_s64_def)
  have ns: "timespec_ns (ns_to_timespec (int n * 100)) = int n * 100" for n by (rule ns_to_timespec_ns)
  have "owned_by demo_timers 5 (Some 0) 3" by (simp add: owned_by_def t demo_timer_def)
  moreover have "arg_int 5 = 5" "arg_int 0 = 0" by (simp_all add: arg_int_def to_s32_def)
  moreover have "timer_clock demo_timer = CLOCK_MONOTONIC" "timer_armed demo_timer" by (simp_all add: demo_timer_def)
  moreover have "env_current (demo_env n) = Some 0" for n by (simp add: demo_env_def)
  ultimately show ?thesis
    using timer_settime_gettime [OF demo_timers_inv demo_env_ok [of 20000000] demo_env_ok [of 45000000] g, of 0 3 5 0 4096 "2 ^ 38" 8192
        "\<lambda>_. Some \<lparr>it_interval = zero_timespec, it_value = \<lparr>tv_sec = 5, tv_nsec = 0\<rparr>\<rparr>"
        "\<lparr>it_interval = zero_timespec, it_value = \<lparr>tv_sec = 5, tv_nsec = 0\<rparr>\<rparr>" "\<lambda>_. True"
        "ns_to_timespec (int 20000000 * 100)" "ns_to_timespec (int 45000000 * 100)"]
    unfolding t p ns using clk
    by (auto simp: itimerspec_valid_def zero_timespec_def) (auto simp: timespec_ns_def)
qed

section \<open>Sequences of operations\<close>

text \<open>Everything that changes the timers: the clock interrupt, the system calls, and the ends of tasks.
  The environment of each operation is its own.\<close>

datatype timer_op =
    Op_tick timer_env "nat option" bool
  | Op_expire timer_env
  | Op_setitimer nat timer_env bool "nat \<Rightarrow> KernelITimerValOld option" "nat \<Rightarrow> bool" nat nat nat
  | Op_getitimer nat timer_env bool "nat \<Rightarrow> bool" nat nat
  | Op_create nat timer_env "nat \<Rightarrow> KernelSigeventCompat option" "nat \<Rightarrow> bool" "timers \<Rightarrow> timers" nat nat nat
  | Op_settime nat timer_env "nat \<Rightarrow> itimerspec option" "nat \<Rightarrow> bool" "timers \<Rightarrow> timers" nat nat nat nat
  | Op_delete timer_env nat
  | Op_reset nat
  | Op_cleanup "nat option"

fun timer_exec :: "timer_op \<Rightarrow> timers \<Rightarrow> timers option" where
  "timer_exec (Op_tick e cur rt) s = map_option fst (check_interval_timers e cur rt s)"
| "timer_exec (Op_expire e) s = map_option fst (check_expired_timers e s)"
| "timer_exec (Op_setitimer MAXVA e pt cin cout a0 a1 a2) s = map_option fst (sys_setitimer MAXVA e pt cin cout a0 a1 a2 s)"
| "timer_exec (Op_getitimer MAXVA e pt cout a0 a1) s = map_option fst (sys_getitimer MAXVA e pt cout a0 a1 s)"
| "timer_exec (Op_create MAXVA e cin cout others a0 a1 a2) s = map_option fst (sys_timer_create MAXVA e cin cout others a0 a1 a2 s)"
| "timer_exec (Op_settime MAXVA e cin cout others a0 a1 a2 a3) s = map_option fst (sys_timer_settime MAXVA e cin cout others a0 a1 a2 a3 s)"
| "timer_exec (Op_delete e a0) s = map_option fst (sys_timer_delete e a0 s)"
| "timer_exec (Op_reset i) s = reset_interval_timers (Some i) s"
| "timer_exec (Op_cleanup owner) s = cleanup_posix_timers_for_owner owner s"

text \<open>The conditions of each operation: the clocks are in range and the current task exists; the other
  processors keep the invariant, and while the lock of a task is given up to signal the expiry of one of
  its interval timers they do not set or clear that task's timers; identifiers are left for
  \<open>timer_create\<close>; and the times that user space asks for are below \<open>2 ^ 60\<close> seconds (\<open>timer_settime\<close>) and
  \<open>2 ^ 63\<close> microseconds (the interval of \<open>setitimer\<close>).\<close>

fun op_ok :: "timer_op \<Rightarrow> timers \<Rightarrow> bool" where
  "op_ok (Op_tick e cur rt) s \<longleftrightarrow> env_ok e s \<and> window_ok e \<and> (\<forall>i. cur = Some i \<longrightarrow> i < length (proc_pool s))"
| "op_ok (Op_expire e) s \<longleftrightarrow> env_ok e s \<and> window_inv e"
| "op_ok (Op_setitimer MAXVA e pt cin cout a0 a1 a2) s \<longleftrightarrow> env_ok e s \<and> window_ok e \<and>
     (\<forall>a v n. cin a = Some v \<longrightarrow> timeval_to_usec_checked (old_interval v) = Some n \<longrightarrow> n < 2 ^ 63)"
| "op_ok (Op_getitimer MAXVA e pt cout a0 a1) s \<longleftrightarrow> env_ok e s \<and> window_ok e"
| "op_ok (Op_create MAXVA e cin cout others a0 a1 a2) s \<longleftrightarrow> env_ok e s \<and> env_current e \<noteq> None \<and> others_ok others \<and>
     g_next_timer_id s + 1 < 2 ^ 31"
| "op_ok (Op_settime MAXVA e cin cout others a0 a1 a2 a3) s \<longleftrightarrow> env_ok e s \<and> env_current e \<noteq> None \<and> others_ok others \<and>
     (\<forall>a v. cin a = Some v \<longrightarrow> tv_sec (it_value v) < 2 ^ 60)"
| "op_ok (Op_delete e a0) s \<longleftrightarrow> env_ok e s"
| "op_ok (Op_reset i) s \<longleftrightarrow> i < length (proc_pool s)"
| "op_ok (Op_cleanup owner) s \<longleftrightarrow> True"

text \<open>A step is an operation, or a change of the tasks that leaves their interval timers alone (scheduling,
  accounting, credentials); the result of a faulting operation is \<^const>\<open>None\<close>.\<close>

inductive timer_step :: "timers \<Rightarrow> timers option \<Rightarrow> bool" where
  operation: "op_ok op s \<Longrightarrow> timer_step s (timer_exec op s)"
| tasks: "map itimer ps = map itimer (proc_pool s) \<Longrightarrow> timer_step s (Some (s\<lparr>proc_pool := ps\<rparr>))"

inductive timer_reaches :: "timers \<Rightarrow> timers option \<Rightarrow> bool" where
  start: "timer_reaches s (Some s)"
| more: "timer_reaches s (Some s') \<Longrightarrow> timer_step s' r \<Longrightarrow> timer_reaches s r"

inductive_cases timer_stepE: "timer_step s r"

lemma setitimer_exec_inv:
  assumes inv: "timers_inv s" and ok: "op_ok (Op_setitimer MAXVA e pt cin cout a0 a1 a2) s"
  shows "\<exists>s'. timer_exec (Op_setitimer MAXVA e pt cin cout a0 a1 a2) s = Some s' \<and> timers_inv s'"
proof (cases "env_current e = None \<or> arg_addr MAXVA a1 = None \<or> arg_addr MAXVA a2 = None \<or> \<not> is_valid_interval_timer_kind (arg_int a0)")
  case True
  then show ?thesis
    using inv by (auto simp: sys_setitimer_def Let_def split: option.split)
next
  case False
  then obtain i x y where i: "env_current e = Some i" and xy: "arg_addr MAXVA a1 = Some x" "arg_addr MAXVA a2 = Some y"
    and w: "is_valid_interval_timer_kind (arg_int a0)"
    by auto
  have env: "env_ok e s" and win: "window_ok e" and ib: "\<And>a v n. cin a = Some v \<Longrightarrow> timeval_to_usec_checked (old_interval v) = Some n \<Longrightarrow> n < 2 ^ 63"
    using ok by auto
  have il: "i < length (proc_pool s)" using env i by (simp add: env_ok_def)
  obtain now where now: "interval_timer_now_usec e s i (arg_int a0) = Some now" using interval_timer_now_bound [OF env il] by blast
  have st: "\<exists>s' old evs. set_interval_timer e (Some i) (arg_int a0) v n b s = Some (s', old, evs) \<and> timers_inv s'" if "n < 2 ^ 63" for v n b
    using set_interval_timer_inv [OF inv env win il w that now, of v b] by blast
  show ?thesis
  proof (cases "\<exists>t v n. cin x = Some t \<and> timeval_to_usec_checked (old_value t) = Some v \<and> timeval_to_usec_checked (old_interval t) = Some n")
    case False
    then show ?thesis using i xy w inv by (auto simp: sys_setitimer_def Let_def split: option.split)
  next
    case True
    then obtain t v n where t: "cin x = Some t" "timeval_to_usec_checked (old_value t) = Some v" "timeval_to_usec_checked (old_interval t) = Some n"
      by blast
    obtain s' old evs where "set_interval_timer e (Some i) (arg_int a0) v n (y \<noteq> 0) s = Some (s', old, evs)" "timers_inv s'"
      using st [OF ib [OF t(1,3)]] by blast
    then show ?thesis
      using t i xy w inv by (cases old) (simp_all add: sys_setitimer_def Let_def)
  qed
qed

lemma getitimer_exec_inv:
  assumes inv: "timers_inv s" and env: "env_ok e s" and win: "window_ok e"
  shows "\<exists>s'. timer_exec (Op_getitimer MAXVA e pt cout a0 a1) s = Some s' \<and> timers_inv s'"
proof (cases "env_current e = None \<or> \<not> is_valid_interval_timer_kind (arg_int a0)")
  case True
  then show ?thesis using inv by (auto simp: sys_getitimer_def Let_def split: option.split)
next
  case False
  then obtain i where i: "env_current e = Some i" and w: "is_valid_interval_timer_kind (arg_int a0)" by auto
  have il: "i < length (proc_pool s)" using env i by (simp add: env_ok_def)
  obtain now where now: "interval_timer_now_usec e s i (arg_int a0) = Some now" using interval_timer_now_bound [OF env il] by blast
  obtain s' v evs where "read_interval_timer_locked e i (arg_int a0) s = Some (s', v, evs)" "timers_inv s'"
    using read_interval_timer_locked_inv [OF inv env win il w now] by blast
  then have "read_interval_timer e (Some i) (arg_int a0) s = Some (s', v, evs)" using w by (simp add: read_interval_timer_def)
  then show ?thesis
    using i w inv \<open>timers_inv s'\<close> by (auto simp: sys_getitimer_def Let_def split: option.split)
qed

lemma timer_exec_inv:
  assumes inv: "timers_inv s" and ok: "op_ok op s"
  shows "\<exists>s'. timer_exec op s = Some s' \<and> timers_inv s'"
proof (cases op)
  case (Op_tick e cur rt)
  then show ?thesis using check_interval_timers_inv [OF inv, of e cur rt] ok by auto
next
  case (Op_expire e)
  then show ?thesis using check_expired_timers_inv [OF inv, of e] ok by auto
next
  case (Op_setitimer MAXVA e pt cin cout a0 a1 a2)
  then show ?thesis using setitimer_exec_inv [OF inv] ok by blast
next
  case (Op_getitimer MAXVA e pt cout a0 a1)
  then show ?thesis using getitimer_exec_inv [OF inv] ok by auto
next
  case (Op_create MAXVA e cin cout others a0 a1 a2)
  then obtain i where "env_current e = Some i" "i < length (proc_pool s)" using ok by (auto simp: env_ok_def)
  then show ?thesis
    using Op_create ok sys_timer_create_inv [OF inv, of e i others MAXVA cin cout a0 a1 a2] by auto
next
  case (Op_settime MAXVA e cin cout others a0 a1 a2 a3)
  then obtain i where i: "env_current e = Some i" "i < length (proc_pool s)" using ok by (auto simp: env_ok_def)
  have "settime_new_expiry e s flags c spec \<noteq> None" if "cin a = Some spec" "itimerspec_valid spec" for a spec c flags
    using that settime_new_expiry_ok [of e s spec flags c] Op_settime ok by auto
  then show ?thesis
    using Op_settime ok i sys_timer_settime_inv [OF inv i, of others cin MAXVA cout a0 a1 a2 a3] by auto
next
  case (Op_delete e a0)
  then show ?thesis using sys_timer_delete_inv [OF inv, of e a0] ok by (auto simp: env_ok_def)
next
  case (Op_reset i)
  then show ?thesis using reset_interval_timers_inv [OF inv, of i] ok by auto
next
  case (Op_cleanup owner)
  then show ?thesis using cleanup_inv [OF inv, of owner] by auto
qed

lemma tasks_inv:
  assumes inv: "timers_inv s" and it: "map itimer ps = map itimer (proc_pool s)"
  shows "timers_inv (s\<lparr>proc_pool := ps\<rparr>)"
proof -
  have l: "length ps = length (proc_pool s)" using it by (rule map_eq_imp_length_eq)
  have at: "itimer (ps ! j) = itimer (proc_pool s ! j)" if "j < length ps" for j using itimers_eq [OF it] that l by simp
  have "pcb_ok (ps ! j)" if "j < length ps" for j
    using at [OF that] timers_invD(3) [OF inv, of j] l that by (simp add: pcb_ok_def)
  then have ok: "\<forall>p\<in>set ps. pcb_ok p" by (auto simp: in_set_conv_nth)
  have "map real_armed ps = map real_armed (proc_pool s)" using at l by (intro nth_equalityI) (auto simp: real_armed_def)
  then have "length (filter id (map real_armed ps)) = length (filter id (map real_armed (proc_pool s)))" by simp
  then have "length (filter real_armed ps) = length (filter real_armed (proc_pool s))" by (simp add: filter_map comp_def)
  then have "armed_real (s\<lparr>proc_pool := ps\<rparr>) = armed_real s" by (simp add: armed_real_def)
  then show ?thesis using inv ok l by (auto simp: timers_inv_def slot_ok_def armed_slots_def)
qed

text \<open>C33. No sequence of clock interrupts, timer system calls, task exits and changes of the tasks, in any
  order, faults or breaks the invariant: the counters of armed timers stay equal to the number of armed
  timers, armed slots are active with a valid owner, and the identifiers of live timers stay distinct. The
  operations satisfy the conditions of \<^const>\<open>op_ok\<close>: clocks in range, times from user space below
  \<open>2 ^ 60\<close> seconds and \<open>2 ^ 63\<close> microseconds, identifiers not used up, and no other processor sets or
  clears the interval timers of a task in the moment its lock is given up to signal an expiry.\<close>

theorem timers_safe:
  assumes "timer_reaches s r" "timers_inv s"
  shows "\<exists>s'. r = Some s' \<and> timers_inv s'"
  using assms
proof (induction rule: timer_reaches.induct)
  case (start s)
  then show ?case by simp
next
  case (more s s' r)
  then have "timers_inv s'" by auto
  with more.hyps(2) show ?case
    by (elim timer_stepE) (auto dest: timer_exec_inv tasks_inv)
qed

theorem timers_safe_witness:
  "\<exists>s'. timer_exec (Op_tick (demo_env 20300) (Some 0) True) demo_timers = Some s' \<and> timers_inv s'"
proof (rule timers_safe)
  have "op_ok (Op_tick (demo_env 20300) (Some 0) True) demo_timers"
    using demo_env_ok [of 20300] demo_window by (simp add: demo_timers_def)
  then show "timer_reaches demo_timers (timer_exec (Op_tick (demo_env 20300) (Some 0) True) demo_timers)"
    by (intro timer_reaches.more [OF timer_reaches.start] timer_step.operation)
qed (rule demo_timers_inv)

section \<open>Where the code falls short\<close>

text \<open>C39. Two system calls check the seconds of a user time but not the sums they form with them. \<open>setitimer\<close>
  accepts the last second of the range of microseconds, where the value wraps around: asked for more than
  584000 years it returns success with a one-shot timer that expires within half a second, or (for exactly
  551616 microseconds) with the timer disarmed. \<open>timer_settime\<close> of an owned timer with a relative time whose
  seconds, added to the present, leave the signed 64-bit range is undefined behaviour.\<close>

theorem user_times_overflow:
  assumes inv: "timers_inv s" and env: "env_ok e s" "window_ok e" "env_current e = Some i" "g_timers_initialized s"
    and itimer_args: "arg_int a0 = k_interval_timer_real" "0 < a1" "a1 < MAXVA"
      "cin a1 = Some \<lparr>old_interval = \<lparr>old_sec = 0, old_usec = 0\<rparr>, old_value = \<lparr>old_sec = 18446744073709, old_usec = int u\<rparr>\<rparr>"
      "551616 \<le> u" "u < 1000000"
    and settime_args: "k < 32" "owned_by s (arg_int b0) (Some i) k" "arg_int b1 = 0" "0 < b2" "b2 < MAXVA" "cin' b2 = Some spec"
      "itimerspec_valid spec" "2 ^ 63 \<le> tv_sec now + tv_sec (it_value spec)"
      "clock_gettime (env_hw e) (Some (proc_pool s ! i)) (env_tm e) (timer_clock (g_timers s ! k)) False = Some (0, Some now)"
  shows "(\<exists>s' evs. sys_setitimer MAXVA e True cin cout a0 a1 0 s = Some (s', 0, None, evs) \<and>
      itimer (proc_pool s' ! i) ! 0 =
        (if u = 551616 then \<lparr>it_armed = False, interval_us = 0, expiry_us = 0\<rparr>
         else \<lparr>it_armed = True, interval_us = 0, expiry_us = u64_add (realtime_now_usec e) (u - 551616)\<rparr>)) \<and>
    sys_timer_settime MAXVA e cin' cout others b0 b1 b2 0 s = None"
proof
  have i: "i < length (proc_pool s)" using env by (simp add: env_ok_def)
  have w: "is_valid_interval_timer_kind k_interval_timer_real" "nat k_interval_timer_real = 0"
    by (simp_all add: is_valid_interval_timer_kind_def k_interval_timer_real_def k_interval_timer_count_def)
  have k0: "0 < length (itimer (proc_pool s ! i))"
    using timers_invD(3) [OF inv i] by (simp add: pcb_ok_def k_interval_timer_count_def)
  have us: "timeval_to_usec_checked \<lparr>old_sec = 18446744073709, old_usec = int u\<rparr> = Some (u - 551616)"
    "timeval_to_usec_checked \<lparr>old_sec = 0, old_usec = 0\<rparr> = Some 0"
    using itimer_args(5,6)
    by (simp_all add: timeval_to_usec_checked_def k_usec_per_sec_def to_u64_def UINT64_MAX_def u64_mul_def u64_add_def mod_if)
  have a: "arg_addr MAXVA a1 = Some a1" "arg_addr MAXVA 0 = Some 0" using itimer_args(3) by (simp_all add: arg_addr_def)
  obtain s' evs where s': "set_interval_timer e (Some i) k_interval_timer_real (u - 551616) 0 False s = Some (s', None, evs)"
    "itimer (proc_pool s' ! i) = (itimer (proc_pool s ! i))[nat k_interval_timer_real :=
      (if u - 551616 = 0 then \<lparr>it_armed = False, interval_us = 0, expiry_us = 0\<rparr>
       else \<lparr>it_armed = True, interval_us = 0, expiry_us = u64_add (realtime_now_usec e) (u - 551616)\<rparr>)]"
    using set_interval_timer_inv [OF inv env(1,2) i w(1) _ now_real [OF i], of 0 "u - 551616" False] by auto
  have "sys_setitimer MAXVA e True cin cout a0 a1 0 s = Some (s', 0, None, evs)"
    using itimer_args(1,2,4) a us s'(1) env(3) w(1) by (simp add: sys_setitimer_def Let_def)
  then show "\<exists>s' evs. sys_setitimer MAXVA e True cin cout a0 a1 0 s = Some (s', 0, None, evs) \<and>
      itimer (proc_pool s' ! i) ! 0 =
        (if u = 551616 then \<lparr>it_armed = False, interval_us = 0, expiry_us = 0\<rparr>
         else \<lparr>it_armed = True, interval_us = 0, expiry_us = u64_add (realtime_now_usec e) (u - 551616)\<rparr>)"
    using s'(2) w(2) k0 itimer_args(5) by auto
  have b: "arg_addr MAXVA b2 = Some b2" using settime_args(5) by (simp add: arg_addr_def)
  have f: "find_owned_slot (arg_int b0) (Some i) s = Some (Some k)"
    using find_owned_slot_ok [OF inv, of "Some i" "arg_int b0"] owned_by_unique [OF inv settime_args(1,2)] i by simp
  have "Some (proc_pool s ! i) = None \<or> (\<exists>j<length (proc_pool s). Some (proc_pool s ! i) = Some (proc_pool s ! j))" using i by blast
  then have "tv_sec now < 2 ^ 63" using clock_gettime_range [OF env(1) _ settime_args(9)] by auto
  then have nz: "it_value spec \<noteq> zero_timespec" using settime_args(8) by (auto simp: zero_timespec_def)
  have "settime_expiry 0 now (it_value spec) = None"
    using settime_args(8) by (simp add: settime_expiry_def TIMER_ABSTIME_def s64_add_def in_s64_def)
  then have "settime_new_expiry e s 0 (timer_clock (g_timers s ! k)) spec = None"
    using nz env(3) i settime_args(9) by (simp add: settime_new_expiry_def cur_pcb_def array_simps)
  then show "sys_timer_settime MAXVA e cin' cout others b0 b1 b2 0 s = None"
    using b a(2) f settime_args env timers_invD(1) [OF inv]
    by (simp add: sys_timer_settime_def settime_checked_def array_simps Let_def)
qed

theorem user_times_overflow_witness:
  "(\<exists>s' evs. sys_setitimer (2 ^ 38) (demo_env 20000000) True
      (\<lambda>_. Some \<lparr>old_interval = \<lparr>old_sec = 0, old_usec = 0\<rparr>, old_value = \<lparr>old_sec = 18446744073709, old_usec = int 551616\<rparr>\<rparr>)
      (\<lambda>_. True) 0 4096 0 demo_timers = Some (s', 0, None, evs) \<and> \<not> it_armed (itimer (proc_pool s' ! 0) ! 0)) \<and>
    sys_timer_settime (2 ^ 38) (demo_env 20000000)
      (\<lambda>_. Some \<lparr>it_interval = zero_timespec, it_value = \<lparr>tv_sec = 9223372036854775807, tv_nsec = 0\<rparr>\<rparr>)
      (\<lambda>_. True) (\<lambda>s. s) 5 0 4096 0 demo_timers = None"
proof -
  have t: "g_timers demo_timers ! 3 = demo_timer" and p: "proc_pool demo_timers ! 0 = demo_pcb" and g: "g_timers_initialized demo_timers"
    by (simp_all add: demo_timers_def)
  have clk: "clock_gettime (env_hw (demo_env 20000000)) (Some demo_pcb) (env_tm (demo_env 20000000)) CLOCK_MONOTONIC False =
      Some (0, Some (ns_to_timespec (int 20000000 * 100)))"
    by (auto simp: clock_gettime_def demo_env_def demo_hw_def demo_pcb_def apply_time_namespace_offset_def cycles_to_ns_def
        k_nsec_per_sec_def u64_mul_def u64_add_def to_s64_def s64_add_def in_s64_def)
  have "tv_sec (ns_to_timespec (int 20000000 * 100)) = 2" by (simp add: ns_to_timespec_def k_nsec_per_sec_def cdiv_def cmod_def)
  moreover have "owned_by demo_timers 5 (Some 0) 3" by (simp add: owned_by_def t demo_timer_def)
  moreover have "arg_int 5 = 5" "arg_int 0 = 0" by (simp_all add: arg_int_def to_s32_def)
  moreover have "timer_clock demo_timer = CLOCK_MONOTONIC" by (simp add: demo_timer_def)
  moreover have "env_current (demo_env n) = Some 0" for n by (simp add: demo_env_def)
  ultimately show ?thesis
    using user_times_overflow [OF demo_timers_inv demo_env_ok [of 20000000] demo_window, of 0 0 4096 "2 ^ 38"
        "\<lambda>_. Some \<lparr>old_interval = \<lparr>old_sec = 0, old_usec = 0\<rparr>, old_value = \<lparr>old_sec = 18446744073709, old_usec = int 551616\<rparr>\<rparr>"
        551616 3 5 0 4096 "\<lambda>_. Some \<lparr>it_interval = zero_timespec, it_value = \<lparr>tv_sec = 9223372036854775807, tv_nsec = 0\<rparr>\<rparr>"
        "\<lparr>it_interval = zero_timespec, it_value = \<lparr>tv_sec = 9223372036854775807, tv_nsec = 0\<rparr>\<rparr>" "ns_to_timespec (int 20000000 * 100)"
        "\<lambda>_. True" "\<lambda>s. s"] g clk
    unfolding t p by (auto simp: k_interval_timer_real_def itimerspec_valid_def zero_timespec_def)
qed

text \<open>C38. A race loses alarms. A one-shot real timer of a sleeping task is due; while its lock is given up for
  the signal, the task wakes up on another processor and clears the timer with \<open>setitimer\<close>. The expiry, which
  does not look at the armed bit again, disarms it a second time: the count of armed real timers ends one
  below their number. If one other task has such a timer, the count is zero and the clock interrupt no longer
  scans the tasks, so that the other task's alarm is not sent as long as the count stays so.\<close>

theorem alarm_race_miscounts:
  assumes inv: "timers_inv s" and i: "i < length (proc_pool s)"
    and asleep: "pcb_state (proc_pool s ! i) = SLEEPING" "env_unmasked e i"
    and due: "itimer (proc_pool s ! i) ! 0 = \<lparr>it_armed = True, interval_us = 0, expiry_us = x\<rparr>" "x \<le> now"
    and race: "set_interval_timer e' (Some i) k_interval_timer_real 0 0 False
        (s\<lparr>proc_pool := (proc_pool s)[i := (proc_pool s ! i)\<lparr>pcb_state := RUNNING\<rparr>]\<rparr>) = Some (env_after_remove e i s, None, [])"
  shows "\<exists>s' evs. maybe_fire_interval_timer e i k_interval_timer_real now s = Some (s', evs) \<and>
    armed_real s' = armed_real s - 1 \<and> g_armed_realtime_interval_timers s' = u32_sub (armed_real s - 1) 1 \<and>
    (armed_real s = 2 \<longrightarrow> (\<exists>j<length (proc_pool s'). real_armed (proc_pool s' ! j)) \<and>
       (\<forall>e cur. check_interval_timers e cur True s' = check_interval_timers e cur False s'))"
proof -
  let ?p = "proc_pool s ! i" and ?off = "\<lparr>it_armed = False, interval_us = 0, expiry_us = 0\<rparr>" and ?n = "g_armed_realtime_interval_timers s"
  define q where "q = ?p\<lparr>pcb_state := RUNNING, itimer := (itimer ?p)[0 := ?off]\<rparr>"
  have k: "0 < length (itimer ?p)" using timers_invD(3) [OF inv i] by (simp add: pcb_ok_def k_interval_timer_count_def)
  have z: "nat k_interval_timer_real = 0" "is_valid_interval_timer_kind k_interval_timer_real" "0 < timer_signal_for_kind k_interval_timer_real"
    by (simp_all add: is_valid_interval_timer_kind_def k_interval_timer_real_def k_interval_timer_count_def timer_signal_for_kind_def SIGALRM_def)
  have w: "s\<lparr>g_armed_realtime_interval_timers := u32_sub ?n 1, proc_pool := (proc_pool s)[i := q]\<rparr> = env_after_remove e i s"
    using race i k due(1) z(1,2)
    by (simp add: set_interval_timer_def set_itimer_def note_realtime_interval_timer_disarmed_def array_simps q_def)
  let ?s' = "s\<lparr>g_armed_realtime_interval_timers := u32_sub (u32_sub ?n 1) 1, proc_pool := (proc_pool s)[i := q]\<rparr>"
  have "interrupt_sleep_for_signal e i s = Some (env_after_remove e i s, False, [T_futex_remove i])"
    using asleep i by (simp add: interrupt_sleep_for_signal_def array_simps w [symmetric] q_def)
  then have run: "maybe_fire_interval_timer e i k_interval_timer_real now s =
      Some (?s', [T_add_signal i (timer_signal_for_kind k_interval_timer_real), T_futex_remove i])"
    using z due i k
    by (simp add: w [symmetric] maybe_fire_interval_timer_def fire_signal_def set_itimer_def note_realtime_interval_timer_disarmed_def array_simps q_def)
  have armed: "real_armed ?p" "\<not> real_armed q" using due(1) k by (simp_all add: real_armed_def q_def)
  have cnt: "armed_real ?s' + 1 = armed_real s" using count_update [OF i, of real_armed q] armed by (simp add: armed_real_def)
  have "?n = armed_real s" "armed_real s < 2 ^ 32"
    using timers_invD(6) [OF inv] inv le_less_trans [OF length_filter_le [of real_armed "proc_pool s"]]
    by (auto simp: timers_inv_def armed_real_def)
  then have g: "u32_sub (u32_sub ?n 1) 1 = u32_sub (armed_real s - 1) 1" using cnt by (simp add: u32_sub_def)
  have last: "(\<exists>j<length (proc_pool ?s'). real_armed (proc_pool ?s' ! j)) \<and>
       (\<forall>e cur. check_interval_timers e cur True ?s' = check_interval_timers e cur False ?s')" if two: "armed_real s = 2"
  proof
    have "filter real_armed (proc_pool ?s') \<noteq> []" using cnt two by (auto simp: armed_real_def)
    then show "\<exists>j<length (proc_pool ?s'). real_armed (proc_pool ?s' ! j)" by (auto simp: filter_empty_conv in_set_conv_nth)
    show "\<forall>e cur. check_interval_timers e cur True ?s' = check_interval_timers e cur False ?s'"
      using g two by (simp add: check_interval_timers_def u32_sub_def)
  qed
  show ?thesis using run cnt g last by (intro exI [of _ ?s'] exI conjI) auto
qed

text \<open>Two tasks with armed real timers; the first one is due.\<close>

definition race_timers :: timers where
  "race_timers = demo_timers\<lparr>proc_pool := [demo_pcb\<lparr>itimer := (itimer demo_pcb)[0 := \<lparr>it_armed = True, interval_us = 0, expiry_us = 950\<rparr>]\<rparr>,
     demo_pcb\<lparr>pid := 13, tid := 13, tgid := 13\<rparr>], g_armed_realtime_interval_timers := 2\<rparr>"

definition race_window :: "nat \<Rightarrow> timers \<Rightarrow> timers" where
  "race_window i s = fst (the (set_interval_timer (demo_env 100) (Some i) k_interval_timer_real 0 0 False
     (s\<lparr>proc_pool := (proc_pool s)[i := (proc_pool s ! i)\<lparr>pcb_state := RUNNING\<rparr>]\<rparr>)))"

lemma race_timers_inv: "timers_inv race_timers"
proof -
  have "slot_ok demo_timers t \<Longrightarrow> slot_ok race_timers t" for t
    by (auto simp: slot_ok_def race_timers_def demo_timers_def)
  moreover have "armed_real race_timers = 2" "\<forall>p\<in>set (proc_pool race_timers). pcb_ok p" "length (proc_pool race_timers) = 2"
    by (simp_all add: armed_real_def race_timers_def demo_timers_def real_armed_def pcb_ok_def demo_pcb_def k_interval_timer_count_def)
  moreover have "g_timers race_timers = g_timers demo_timers" "g_next_timer_id race_timers = g_next_timer_id demo_timers"
    "g_armed_posix_timers race_timers = g_armed_posix_timers demo_timers" "g_armed_realtime_interval_timers race_timers = 2"
    by (simp_all add: race_timers_def)
  ultimately show ?thesis using demo_timers_inv by (simp add: timers_inv_def armed_slots_def)
qed

theorem alarm_race_miscounts_witness:
  "\<exists>s' evs. maybe_fire_interval_timer ((demo_env 20300)\<lparr>env_after_remove := race_window\<rparr>) 0 k_interval_timer_real 2030 race_timers = Some (s', evs) \<and>
    armed_real s' = 1 \<and> g_armed_realtime_interval_timers s' = 0"
proof -
  have "armed_real race_timers = 2" by (simp add: armed_real_def race_timers_def demo_timers_def real_armed_def demo_pcb_def)
  moreover have "set_interval_timer (demo_env 100) (Some 0) k_interval_timer_real 0 0 False
      (race_timers\<lparr>proc_pool := (proc_pool race_timers)[0 := (proc_pool race_timers ! 0)\<lparr>pcb_state := RUNNING\<rparr>]\<rparr>) =
      Some (race_window 0 race_timers, None, [])"
    by (simp add: race_window_def race_timers_def demo_timers_def demo_pcb_def set_interval_timer_def set_itimer_def arr_get_def arr_set_def
        note_realtime_interval_timer_disarmed_def k_interval_timer_real_def is_valid_interval_timer_kind_def k_interval_timer_count_def)
  ultimately show ?thesis
    using alarm_race_miscounts [OF race_timers_inv, of 0 "(demo_env 20300)\<lparr>env_after_remove := race_window\<rparr>" 950 2030 "demo_env 100"]
    by (auto simp: demo_env_def race_timers_def demo_timers_def demo_pcb_def u32_sub_def)
qed

end
