(* ===== verification/Vm_Area.thy ===== *)
theory Vm_Area
  imports Prelude
begin

text \<open>
  The virtual memory area of \<open>src/kernel/proc/vm_area.hh\<close>: the record \<open>VmArea\<close> and its range
  predicates. Addresses and lengths are \<open>uint64\<close>, so \<open>end_addr\<close> wraps around. Areas live outside
  the index that orders them: a \<open>vma *\<close> is a number and the memory of areas is a map from such
  numbers to records, whose undefined points are the dangling pointers.
\<close>

datatype VmaBackingKind = VMA_BACKING_NONE | VMA_BACKING_FILE | VMA_BACKING_SHM

datatype VmAreaKind = ElfLoad | InterpreterLoad | Heap | UserStack | Mmap | SysvShm

datatype VmGrowPolicy = GrowNone | GrowUp | GrowDown

datatype VmAdviceState = AdviceNone | WipeOnFork

text \<open>
  \<open>private_page_overlay\<close> is the content of the overlay table in its iteration order, each area owning
  its table; files, objects, owners and debug names are identified by numbers.
\<close>

record VmArea =
  used :: int
  addr :: nat
  len :: nat
  prot :: u32
  flags :: u32
  vfd :: int
  vfile :: "nat option"
  voffset :: nat
  max_len :: nat
  is_expandable :: bool
  backing_kind :: VmaBackingKind
  backing_shmid :: int
  backing_base :: nat
  has_resident_pages :: bool
  wipe_on_fork :: bool
  owner_mm :: "nat option"
  vobject :: "nat option"
  page_offset :: nat
  area_kind :: VmAreaKind
  grow_policy :: VmGrowPolicy
  advice_state :: VmAdviceState
  guard_pages :: nat
  zero_fill_past_file :: bool
  file_backed_bytes :: nat
  debug_name :: "nat option"
  private_page_overlay :: "(nat \<times> nat) list option"

type_synonym vma_mem = "nat \<rightharpoonup> VmArea"

text \<open>\<open>vma area = {}\<close>: every member takes its default initialiser.\<close>

definition default_vma :: VmArea where
  "default_vma = \<lparr>used = 0, addr = 0, len = 0, prot = 0, flags = 0, vfd = - 1, vfile = None, voffset = 0,
     max_len = 0, is_expandable = False, backing_kind = VMA_BACKING_NONE, backing_shmid = - 1, backing_base = 0,
     has_resident_pages = False, wipe_on_fork = False, owner_mm = None, vobject = None, page_offset = 0,
     area_kind = Mmap, grow_policy = GrowNone, advice_state = AdviceNone, guard_pages = 0,
     zero_fill_past_file = False, file_backed_bytes = 0, debug_name = None, private_page_overlay = None\<rparr>"

definition MAP_SHARED :: u32 where "MAP_SHARED = 0x01"
definition MAP_PRIVATE :: u32 where "MAP_PRIVATE = 0x02"
definition MAP_ANONYMOUS :: u32 where "MAP_ANONYMOUS = 0x20"

definition end_addr :: "VmArea \<Rightarrow> nat" where
  "end_addr v = u64_add (addr v) (len v)"

definition valid_range :: "VmArea \<Rightarrow> bool" where
  "valid_range v \<longleftrightarrow> used v \<noteq> 0 \<and> len v \<noteq> 0 \<and> end_addr v > addr v"

definition covers :: "VmArea \<Rightarrow> nat \<Rightarrow> bool" where
  "covers v target \<longleftrightarrow> valid_range v \<and> target \<ge> addr v \<and> target < end_addr v"

definition overlaps :: "VmArea \<Rightarrow> nat \<Rightarrow> nat \<Rightarrow> bool" where
  "overlaps v start stop \<longleftrightarrow> valid_range v \<and> start < end_addr v \<and> stop > addr v"

definition overlaps_vma :: "VmArea \<Rightarrow> VmArea \<Rightarrow> bool" where
  "overlaps_vma v other \<longleftrightarrow> overlaps v (addr other) (end_addr other)"

definition is_private_mapping :: "VmArea \<Rightarrow> bool" where
  "is_private_mapping v \<longleftrightarrow>
     (if area_kind v = Heap \<or> area_kind v = UserStack then True else flags v AND MAP_PRIVATE \<noteq> 0)"

definition is_shared_mapping :: "VmArea \<Rightarrow> bool" where
  "is_shared_mapping v \<longleftrightarrow> area_kind v = SysvShm \<or> flags v AND MAP_SHARED \<noteq> 0"

definition grows_down :: "VmArea \<Rightarrow> bool" where
  "grows_down v \<longleftrightarrow> grow_policy v = GrowDown"

definition grows_up :: "VmArea \<Rightarrow> bool" where
  "grows_up v \<longleftrightarrow> grow_policy v = GrowUp"

definition page_index_for_va :: "VmArea \<Rightarrow> nat \<Rightarrow> nat" where
  "page_index_for_va v va = u64_sub (pg_down va) (pg_down (addr v)) div PGSIZE"

definition mapped_page_offset :: "VmArea \<Rightarrow> nat \<Rightarrow> nat" where
  "mapped_page_offset v va = u64_add (page_offset v) (u64_mul (page_index_for_va v va) PGSIZE)"

subsection \<open>Ranges\<close>

text \<open>An area whose fields are in the range of their types.\<close>

definition vma_typed :: "VmArea \<Rightarrow> bool" where
  "vma_typed v \<longleftrightarrow> addr v < 2 ^ 64 \<and> len v < 2 ^ 64"

lemma valid_range_end: "vma_typed v \<Longrightarrow> valid_range v \<Longrightarrow> end_addr v = addr v + len v \<and> addr v + len v < 2 ^ 64"
  by (auto simp: valid_range_def end_addr_def u64_add_def vma_typed_def mod_if split: if_splits)

lemma end_addr_typed: "end_addr v < 2 ^ 64"
  by (simp add: end_addr_def u64_add_def)

lemma valid_range_less: "valid_range v \<Longrightarrow> addr v < end_addr v"
  by (simp add: valid_range_def)

text \<open>Overlap of valid areas is symmetric, and apart areas are ordered by their starts.\<close>

lemma overlaps_vma_iff:
  "valid_range v \<Longrightarrow> overlaps_vma v w \<longleftrightarrow> addr w < end_addr v \<and> addr v < end_addr w"
  by (auto simp: overlaps_vma_def overlaps_def)

lemma apart_ordered:
  "valid_range v \<Longrightarrow> valid_range w \<Longrightarrow> \<not> overlaps_vma v w \<Longrightarrow> addr v \<le> addr w \<Longrightarrow> end_addr v \<le> addr w"
  by (auto simp: overlaps_vma_iff valid_range_def)

end
