(* ===== verification/Vma_Tree.thy ===== *)
theory Vma_Tree
  imports Vm_Area
begin

text \<open>
  The index of virtual memory areas, class \<open>VmaMapleTree\<close> of
  \<open>src/kernel/proc/vma_maple_tree.hh\<close> and \<open>vma_maple_tree.cc\<close>: a B+-tree of fan-out 12 whose leaves
  hold pointers to areas in the order of their start addresses and are linked into a list.

  The nodes live in an explicit heap: \<open>tnodes\<close> maps a node pointer to the node, \<open>new\<close> takes a fresh
  pointer, \<open>delete\<close> of a pointer removes it, and an access through a pointer that is not in the heap, a
  cast to the wrong kind of node or an index outside an array is a fault. A node has the members of
  both node classes. The areas themselves belong to the caller: every operation that reads them
  takes their memory as an argument. Loops that follow pointers are partial functions, so that a
  cyclic heap would make them undefined.
\<close>

datatype Kind = Leaf | Internal

record Node =
  kind :: Kind
  ncount :: nat
  parent :: "nat option"
  entries :: "nat option list"
  prev_leaf :: "nat option"
  next_leaf :: "nat option"
  keys :: "nat list"
  children :: "nat option list"

record VmaMapleTree =
  tnodes :: "nat \<rightharpoonup> Node"
  tfresh :: nat
  root :: "nat option"
  head :: "nat option"
  tail :: "nat option"
  tsize :: int

definition k_leaf_capacity :: nat where "k_leaf_capacity = 12"
definition k_internal_capacity :: nat where "k_internal_capacity = 12"

subsection \<open>Memory\<close>

definition leaf_at :: "VmaMapleTree \<Rightarrow> nat \<Rightarrow> Node option" where
  "leaf_at t p = do { n \<leftarrow> tnodes t p; if kind n = Leaf then Some n else None }"

definition internal_at :: "VmaMapleTree \<Rightarrow> nat \<Rightarrow> Node option" where
  "internal_at t p = do { n \<leftarrow> tnodes t p; if kind n = Internal then Some n else None }"

definition set_node :: "VmaMapleTree \<Rightarrow> nat \<Rightarrow> Node \<Rightarrow> VmaMapleTree" where
  "set_node t p n = t\<lparr>tnodes := (tnodes t)(p \<mapsto> n)\<rparr>"

definition new_node :: "VmaMapleTree \<Rightarrow> Node \<Rightarrow> VmaMapleTree \<times> nat" where
  "new_node t n = (t\<lparr>tfresh := tfresh t + 1, tnodes := (tnodes t)(tfresh t \<mapsto> n)\<rparr>, tfresh t)"

definition delete_node :: "VmaMapleTree \<Rightarrow> nat \<Rightarrow> VmaMapleTree option" where
  "delete_node t p = do { _ \<leftarrow> tnodes t p; Some (t\<lparr>tnodes := (tnodes t)(p := None)\<rparr>) }"

definition LeafNode :: Node where
  "LeafNode = \<lparr>kind = Leaf, ncount = 0, parent = None, entries = replicate (k_leaf_capacity + 1) None,
     prev_leaf = None, next_leaf = None, keys = [], children = []\<rparr>"

definition InternalNode :: Node where
  "InternalNode = \<lparr>kind = Internal, ncount = 0, parent = None, entries = [], prev_leaf = None, next_leaf = None,
     keys = replicate (k_internal_capacity + 1) 0, children = replicate (k_internal_capacity + 1) None\<rparr>"

definition VmaMapleTree_init :: VmaMapleTree where
  "VmaMapleTree_init = \<lparr>tnodes = Map.empty, tfresh = 0, root = None, head = None, tail = None, tsize = 0\<rparr>"

subsection \<open>Loops over the arrays of a node\<close>

text \<open>
  \<open>scan test xs i n\<close> is the loop \<open>for (j = i; j < n; ++j) if (test(xs[j])) ...\<close> up to its first hit,
  \<open>scan_down test xs n\<close> the same loop from \<open>n - 1\<close> down to \<open>0\<close>; the test may fault.
\<close>

function scan :: "('a \<Rightarrow> bool option) \<Rightarrow> 'a list \<Rightarrow> nat \<Rightarrow> nat \<Rightarrow> nat option option" where
  "scan test xs i n =
     (if i < n then do {
        x \<leftarrow> arr_get xs i;
        b \<leftarrow> test x;
        if b then Some (Some i) else scan test xs (i + 1) n
      } else Some None)"
  by pat_completeness auto
termination by (relation "measure (\<lambda>(_, _, i, n). n - i)") auto

primrec scan_down :: "('a \<Rightarrow> bool option) \<Rightarrow> 'a list \<Rightarrow> nat \<Rightarrow> nat option option" where
  "scan_down test xs 0 = Some None"
| "scan_down test xs (Suc i) = do {
     x \<leftarrow> arr_get xs i;
     b \<leftarrow> test x;
     if b then Some (Some i) else scan_down test xs i
   }"

definition nonnull :: "'a option \<Rightarrow> bool option" where
  "nonnull e = Some (e \<noteq> None)"

definition is_ptr :: "nat \<Rightarrow> nat option \<Rightarrow> bool option" where
  "is_ptr p e = Some (e = Some p)"

text \<open>A test on the start address of an entry, which skips a null entry.\<close>

definition addr_test :: "vma_mem \<Rightarrow> (nat \<Rightarrow> bool) \<Rightarrow> nat option \<Rightarrow> bool option" where
  "addr_test V P e = (case e of None \<Rightarrow> Some False | Some p \<Rightarrow> do { v \<leftarrow> V p; Some (P (addr v)) })"

text \<open>
  The two ways a slot is moved: \<open>for (i = n; i > at; --i) xs[i] = xs[i - 1]\<close> and
  \<open>for (i = at + 1; i < n; ++i) xs[i - 1] = xs[i]\<close>.
\<close>

definition shift_right :: "'a list \<Rightarrow> nat \<Rightarrow> nat \<Rightarrow> 'a list option" where
  "shift_right xs at n =
     for_each (\<lambda>i xs. do { x \<leftarrow> arr_get xs (i - 1); arr_set xs i x }) (rev [at + 1..<n + 1]) xs"

definition shift_left :: "'a list \<Rightarrow> nat \<Rightarrow> nat \<Rightarrow> 'a list option" where
  "shift_left xs at n =
     for_each (\<lambda>i xs. do { x \<leftarrow> arr_get xs i; arr_set xs (i - 1) x }) [at + 1..<n] xs"

subsection \<open>Slots and keys\<close>

definition align_up :: "nat \<Rightarrow> nat \<Rightarrow> nat" where
  "align_up value alignment =
     (if alignment = 0 then value
      else let remainder = value mod alignment in
        if remainder = 0 then value else u64_add value (u64_sub alignment remainder))"

definition find_entry_slot :: "vma_mem \<Rightarrow> VmaMapleTree \<Rightarrow> nat option \<Rightarrow> nat \<Rightarrow> nat option" where
  "find_entry_slot V t leaf key =
     (case leaf of None \<Rightarrow> Some 0
      | Some p \<Rightarrow> do {
          n \<leftarrow> leaf_at t p;
          r \<leftarrow> scan (addr_test V (\<lambda>a. a \<ge> key)) (entries n) 0 (ncount n);
          Some (case r of Some i \<Rightarrow> i | None \<Rightarrow> ncount n)
        })"

definition upper_bound_slot :: "vma_mem \<Rightarrow> VmaMapleTree \<Rightarrow> nat option \<Rightarrow> nat \<Rightarrow> nat option" where
  "upper_bound_slot V t leaf key =
     (case leaf of None \<Rightarrow> Some 0
      | Some p \<Rightarrow> do {
          n \<leftarrow> leaf_at t p;
          r \<leftarrow> scan (addr_test V (\<lambda>a. a > key)) (entries n) 0 (ncount n);
          Some (case r of Some i \<Rightarrow> i | None \<Rightarrow> ncount n)
        })"

text \<open>The first loop of \<open>child_slot\<close>: \<open>best\<close> is \<open>None\<close> for \<open>-1\<close>.\<close>

function child_best :: "Node \<Rightarrow> nat \<Rightarrow> nat \<Rightarrow> nat option \<Rightarrow> nat option option" where
  "child_best n key i best =
     (if i < ncount n then do {
        c \<leftarrow> arr_get (children n) i;
        (case c of None \<Rightarrow> child_best n key (i + 1) best
         | Some _ \<Rightarrow> do {
             k \<leftarrow> arr_get (keys n) i;
             if k \<le> key then child_best n key (i + 1) (Some i) else Some best
           })
      } else Some best)"
  by pat_completeness auto
termination by (relation "measure (\<lambda>(n, _, i, _). ncount n - i)") auto

definition child_slot :: "VmaMapleTree \<Rightarrow> nat option \<Rightarrow> nat \<Rightarrow> nat option" where
  "child_slot t node key =
     (case node of None \<Rightarrow> Some 0
      | Some p \<Rightarrow> do {
          n \<leftarrow> internal_at t p;
          if ncount n = 0 then Some 0
          else do {
            best \<leftarrow> child_best n key 0 None;
            (case best of Some i \<Rightarrow> Some i
             | None \<Rightarrow> do {
                 r \<leftarrow> scan nonnull (children n) 0 (ncount n);
                 Some (case r of Some i \<Rightarrow> i | None \<Rightarrow> 0)
               })
          }
        })"

definition find_child_index :: "VmaMapleTree \<Rightarrow> nat option \<Rightarrow> nat option \<Rightarrow> nat option option" where
  "find_child_index t node child =
     (case node of None \<Rightarrow> Some None
      | Some p \<Rightarrow> (case child of None \<Rightarrow> Some None
         | Some c \<Rightarrow> do {
             n \<leftarrow> internal_at t p;
             scan (is_ptr c) (children n) 0 (ncount n)
           }))"

partial_function (option) first_key :: "vma_mem \<Rightarrow> VmaMapleTree \<Rightarrow> nat option \<Rightarrow> nat option" where
  "first_key V t node =
     (case node of None \<Rightarrow> Some 0
      | Some p \<Rightarrow> do {
          n \<leftarrow> tnodes t p;
          if ncount n = 0 then Some 0
          else if kind n = Leaf then do {
            r \<leftarrow> scan nonnull (entries n) 0 (ncount n);
            (case r of None \<Rightarrow> Some 0
             | Some i \<Rightarrow> do { e \<leftarrow> arr_get (entries n) i; q \<leftarrow> e; v \<leftarrow> V q; Some (addr v) })
          }
          else do {
            r \<leftarrow> scan nonnull (children n) 0 (ncount n);
            (case r of None \<Rightarrow> Some 0
             | Some i \<Rightarrow> do { c \<leftarrow> arr_get (children n) i; first_key V t c })
          }
        })"

definition last_entry :: "VmaMapleTree \<Rightarrow> nat option \<Rightarrow> nat option option" where
  "last_entry t leaf =
     (case leaf of None \<Rightarrow> Some None
      | Some p \<Rightarrow> do {
          n \<leftarrow> leaf_at t p;
          if ncount n = 0 then Some None
          else do {
            r \<leftarrow> scan_down nonnull (entries n) (ncount n);
            (case r of None \<Rightarrow> Some None | Some i \<Rightarrow> arr_get (entries n) i)
          }
        })"

definition last_entry_mut :: "VmaMapleTree \<Rightarrow> nat option \<Rightarrow> nat option option" where
  "last_entry_mut t leaf = last_entry t leaf"

text \<open>The first entry of a leaf from slot \<open>i\<close> on: the scanning loop of \<open>lower_bound\<close>, \<open>next\<close> and \<open>insert\<close>.\<close>

definition entry_from :: "Node \<Rightarrow> nat \<Rightarrow> nat option option" where
  "entry_from n i = do {
     r \<leftarrow> scan nonnull (entries n) i (ncount n);
     (case r of None \<Rightarrow> Some None | Some j \<Rightarrow> arr_get (entries n) j)
   }"

text \<open>The first entry of the leaf \<open>leaf->next\<close>, null when there is no such leaf or it is empty.\<close>

definition next_leaf_first :: "VmaMapleTree \<Rightarrow> Node \<Rightarrow> nat option option" where
  "next_leaf_first t n =
     (case next_leaf n of None \<Rightarrow> Some None
      | Some q \<Rightarrow> do { m \<leftarrow> leaf_at t q; if ncount m > 0 then entry_from m 0 else Some None })"

subsection \<open>Keys of the inner nodes\<close>

text \<open>One round of the loop of \<open>refresh_keys\<close>.\<close>

definition refresh_key :: "vma_mem \<Rightarrow> nat \<Rightarrow> nat \<Rightarrow> VmaMapleTree \<Rightarrow> VmaMapleTree option" where
  "refresh_key V p i t = do {
     n \<leftarrow> internal_at t p;
     c \<leftarrow> arr_get (children n) i;
     k \<leftarrow> first_key V t c;
     ks \<leftarrow> arr_set (keys n) i k;
     Some (set_node t p (n\<lparr>keys := ks\<rparr>))
   }"

definition refresh_keys :: "vma_mem \<Rightarrow> VmaMapleTree \<Rightarrow> nat option \<Rightarrow> VmaMapleTree option" where
  "refresh_keys V t node =
     (case node of None \<Rightarrow> Some t
      | Some p \<Rightarrow> do {
          n \<leftarrow> internal_at t p;
          for_each (refresh_key V p) [0..<ncount n] t
        })"

partial_function (option) refresh_from :: "vma_mem \<Rightarrow> VmaMapleTree \<Rightarrow> nat option \<Rightarrow> VmaMapleTree option" where
  "refresh_from V t cursor =
     (case cursor of None \<Rightarrow> Some t
      | Some p \<Rightarrow> do {
          t \<leftarrow> refresh_keys V t (Some p);
          n \<leftarrow> tnodes t p;
          refresh_from V t (parent n)
        })"

definition refresh_ancestors :: "vma_mem \<Rightarrow> VmaMapleTree \<Rightarrow> nat option \<Rightarrow> VmaMapleTree option" where
  "refresh_ancestors V t node =
     (case node of None \<Rightarrow> Some t
      | Some p \<Rightarrow> do { n \<leftarrow> tnodes t p; refresh_from V t (parent n) })"

text \<open>One round of the compacting loop.\<close>

definition compact_step :: "nat \<Rightarrow> nat option list \<times> nat \<Rightarrow> (nat option list \<times> nat) option" where
  "compact_step read w = (case w of (es, write) \<Rightarrow> do {
     e \<leftarrow> arr_get es read;
     (case e of None \<Rightarrow> Some (es, write)
      | Some q \<Rightarrow> do { es \<leftarrow> arr_set es write (Some q); Some (es, write + 1) })
   })"

definition compact_leaf :: "vma_mem \<Rightarrow> VmaMapleTree \<Rightarrow> nat option \<Rightarrow> VmaMapleTree option" where
  "compact_leaf V t leaf =
     (case leaf of None \<Rightarrow> Some t
      | Some p \<Rightarrow> do {
          n \<leftarrow> leaf_at t p;
          if ncount n = 0 then Some t
          else do {
            (es, write) \<leftarrow> for_each compact_step [0..<ncount n] (entries n, 0);
            es \<leftarrow> for_each (\<lambda>i es. arr_set es i None) [write..<k_leaf_capacity + 1] es;
            if write < ncount n then do {
              let sz = tsize t - int (ncount n - write);
              let t = (set_node t p (n\<lparr>entries := es, ncount := write\<rparr>))\<lparr>tsize := if sz < 0 then 0 else sz\<rparr>;
              refresh_ancestors V t (Some p)
            }
            else Some (set_node t p (n\<lparr>entries := es\<rparr>))
          }
        })"

subsection \<open>Finding the leaf\<close>

partial_function (option) find_leaf_from :: "VmaMapleTree \<Rightarrow> nat \<Rightarrow> nat \<Rightarrow> nat option option" where
  "find_leaf_from t key p = do {
     n \<leftarrow> tnodes t p;
     if kind n = Leaf then Some (Some p)
     else do {
       slot \<leftarrow> child_slot t (Some p) key;
       if slot < ncount n then do {
         c \<leftarrow> arr_get (children n) slot;
         (case c of None \<Rightarrow> Some None | Some q \<Rightarrow> find_leaf_from t key q)
       }
       else Some None
     }
   }"

definition find_leaf :: "VmaMapleTree \<Rightarrow> nat \<Rightarrow> nat option option" where
  "find_leaf t key = (case root t of None \<Rightarrow> Some None | Some p \<Rightarrow> find_leaf_from t key p)"

partial_function (option) locate_forward ::
  "vma_mem \<Rightarrow> VmaMapleTree \<Rightarrow> nat \<Rightarrow> nat \<Rightarrow> nat option \<Rightarrow> nat option option" where
  "locate_forward V t entry key_hint candidate =
     (case candidate of None \<Rightarrow> Some None
      | Some p \<Rightarrow> do {
          n \<leftarrow> leaf_at t p;
          r \<leftarrow> scan (is_ptr entry) (entries n) 0 (ncount n);
          if r \<noteq> None then Some (Some p)
          else do {
            first \<leftarrow> first_key V t (Some p);
            if ncount n = 0 \<or> (first \<noteq> 0 \<and> first > key_hint) then Some None
            else locate_forward V t entry key_hint (next_leaf n)
          }
        })"

partial_function (option) locate_backward ::
  "vma_mem \<Rightarrow> VmaMapleTree \<Rightarrow> nat \<Rightarrow> nat \<Rightarrow> nat option \<Rightarrow> nat option option" where
  "locate_backward V t entry key_hint candidate =
     (case candidate of None \<Rightarrow> Some None
      | Some p \<Rightarrow> do {
          n \<leftarrow> leaf_at t p;
          if ncount n = 0 then locate_backward V t entry key_hint (prev_leaf n)
          else do {
            l \<leftarrow> last_entry t (Some p);
            stop \<leftarrow> addr_test V (\<lambda>a. a < key_hint) l;
            if stop then Some None
            else do {
              r \<leftarrow> scan (is_ptr entry) (entries n) 0 (ncount n);
              if r \<noteq> None then Some (Some p)
              else locate_backward V t entry key_hint (prev_leaf n)
            }
          }
        })"

definition locate_leaf_for_entry :: "vma_mem \<Rightarrow> VmaMapleTree \<Rightarrow> nat option \<Rightarrow> nat \<Rightarrow> nat option option" where
  "locate_leaf_for_entry V t entry key_hint =
     (case entry of None \<Rightarrow> Some None
      | Some e \<Rightarrow> do {
          leaf \<leftarrow> find_leaf t key_hint;
          (case leaf of None \<Rightarrow> Some None
           | Some p \<Rightarrow> do {
               r \<leftarrow> locate_forward V t e key_hint (Some p);
               (case r of Some q \<Rightarrow> Some (Some q)
                | None \<Rightarrow> do { n \<leftarrow> leaf_at t p; locate_backward V t e key_hint (prev_leaf n) })
             })
        })"

subsection \<open>Insertion\<close>

text \<open>
  \<open>split_internal\<close> and \<open>insert_right_sibling\<close> call each other; \<open>split_internal_move\<close> is the part of
  \<open>split_internal\<close> before its call, which returns the new right node.
\<close>

text \<open>One round of the loop that moves a child to the right node.\<close>

definition move_child :: "nat \<Rightarrow> nat \<Rightarrow> nat \<Rightarrow> nat \<Rightarrow> VmaMapleTree \<Rightarrow> VmaMapleTree option" where
  "move_child node right left_count i t = do {
     n \<leftarrow> internal_at t node;
     c \<leftarrow> arr_get (children n) (left_count + i);
     r \<leftarrow> internal_at t right;
     rcs \<leftarrow> arr_set (children r) i c;
     let t = set_node t right (r\<lparr>children := rcs\<rparr>);
     t \<leftarrow> (case c of None \<Rightarrow> Some t
           | Some q \<Rightarrow> do { m \<leftarrow> tnodes t q; Some (set_node t q (m\<lparr>parent := Some right\<rparr>)) });
     n \<leftarrow> internal_at t node;
     ncs \<leftarrow> arr_set (children n) (left_count + i) None;
     Some (set_node t node (n\<lparr>children := ncs\<rparr>))
   }"

definition split_internal_move :: "vma_mem \<Rightarrow> VmaMapleTree \<Rightarrow> nat \<Rightarrow> (VmaMapleTree \<times> nat) option" where
  "split_internal_move V t node = do {
     let (t, right) = new_node t InternalNode;
     n \<leftarrow> internal_at t node;
     let left_count = ncount n div 2;
     let right_count = ncount n - left_count;
     t \<leftarrow> for_each (move_child node right left_count) [0..<right_count] t;
     n \<leftarrow> internal_at t node;
     let t = set_node t node (n\<lparr>ncount := left_count\<rparr>);
     r \<leftarrow> internal_at t right;
     let t = set_node t right (r\<lparr>ncount := right_count\<rparr>);
     t \<leftarrow> refresh_keys V t (Some node);
     t \<leftarrow> refresh_keys V t (Some right);
     Some (t, right)
   }"

partial_function (option) insert_right_sibling ::
  "vma_mem \<Rightarrow> VmaMapleTree \<Rightarrow> nat \<Rightarrow> nat \<Rightarrow> VmaMapleTree option" where
  "insert_right_sibling V t left right = do {
     l \<leftarrow> tnodes t left;
     r \<leftarrow> tnodes t right;
     let t = set_node t right (r\<lparr>parent := parent l\<rparr>);
     (case parent l of
        None \<Rightarrow> do {
          let (t, new_root) = new_node t (InternalNode\<lparr>children := (children InternalNode)[0 := Some left, 1 := Some right], ncount := 2\<rparr>);
          l \<leftarrow> tnodes t left;
          let t = set_node t left (l\<lparr>parent := Some new_root\<rparr>);
          r \<leftarrow> tnodes t right;
          let t = set_node t right (r\<lparr>parent := Some new_root\<rparr>);
          t \<leftarrow> refresh_keys V t (Some new_root);
          Some (t\<lparr>root := Some new_root\<rparr>)
        }
      | Some p \<Rightarrow> do {
          left_index \<leftarrow> find_child_index t (Some p) (Some left);
          (case left_index of None \<Rightarrow> Some t
           | Some li \<Rightarrow> do {
               n \<leftarrow> internal_at t p;
               cs \<leftarrow> shift_right (children n) (li + 1) (ncount n);
               cs \<leftarrow> arr_set cs (li + 1) (Some right);
               t \<leftarrow> refresh_keys V (set_node t p (n\<lparr>children := cs, ncount := ncount n + 1\<rparr>)) (Some p);
               if ncount n + 1 > k_internal_capacity then do {
                 (t, right') \<leftarrow> split_internal_move V t p;
                 insert_right_sibling V t p right'
               }
               else refresh_ancestors V t (Some p)
             })
        })
   }"

definition split_internal :: "vma_mem \<Rightarrow> VmaMapleTree \<Rightarrow> nat \<Rightarrow> VmaMapleTree option" where
  "split_internal V t node = do { (t, right) \<leftarrow> split_internal_move V t node; insert_right_sibling V t node right }"

text \<open>One round of the loop that moves an entry to the right leaf: its array and that of the left leaf.\<close>

definition move_entry :: "nat \<Rightarrow> nat \<Rightarrow> nat option list \<times> nat option list \<Rightarrow> (nat option list \<times> nat option list) option" where
  "move_entry left_count i w = (case w of (res, les) \<Rightarrow> do {
     e \<leftarrow> arr_get les (left_count + i);
     res \<leftarrow> arr_set res i e;
     les \<leftarrow> arr_set les (left_count + i) None;
     Some (res, les)
   })"

definition split_leaf :: "vma_mem \<Rightarrow> VmaMapleTree \<Rightarrow> nat \<Rightarrow> VmaMapleTree option" where
  "split_leaf V t leaf = do {
     t \<leftarrow> compact_leaf V t (Some leaf);
     let (t, right) = new_node t LeafNode;
     n \<leftarrow> leaf_at t leaf;
     let left_count = ncount n div 2;
     let right_count = ncount n - left_count;
     (res, les) \<leftarrow> for_each (move_entry left_count) [0..<right_count] (entries LeafNode, entries n);
     let t = set_node t leaf (n\<lparr>entries := les, ncount := left_count\<rparr>);
     let t = set_node t right (LeafNode\<lparr>entries := res, ncount := right_count, next_leaf := next_leaf n, prev_leaf := Some leaf\<rparr>);
     t \<leftarrow> (case next_leaf n of
             Some q \<Rightarrow> do { m \<leftarrow> leaf_at t q; Some (set_node t q (m\<lparr>prev_leaf := Some right\<rparr>)) }
           | None \<Rightarrow> Some (t\<lparr>tail := Some right\<rparr>));
     n \<leftarrow> leaf_at t leaf;
     insert_right_sibling V (set_node t leaf (n\<lparr>next_leaf := Some right\<rparr>)) leaf right
   }"

text \<open>\<open>prev_entry->overlaps(*entry)\<close> for a pointer that may be null.\<close>

definition ptr_overlaps :: "vma_mem \<Rightarrow> nat option \<Rightarrow> VmArea \<Rightarrow> bool option" where
  "ptr_overlaps V e v = (case e of None \<Rightarrow> Some False | Some p \<Rightarrow> do { w \<leftarrow> V p; Some (overlaps_vma w v) })"

definition tree_insert :: "vma_mem \<Rightarrow> nat option \<Rightarrow> VmaMapleTree \<Rightarrow> (VmaMapleTree \<times> bool) option" where
  "tree_insert V entry t =
     (case entry of None \<Rightarrow> Some (t, False)
      | Some e \<Rightarrow> do {
          v \<leftarrow> V e;
          if used v = 0 \<or> \<not> valid_range v then Some (t, False)
          else if root t = None then do {
            let (t, leaf) = new_node t (LeafNode\<lparr>entries := (entries LeafNode)[0 := Some e], ncount := 1\<rparr>);
            Some (t\<lparr>root := Some leaf, head := Some leaf, tail := Some leaf, tsize := 1\<rparr>, True)
          }
          else do {
            found \<leftarrow> find_leaf t (addr v);
            (case found of None \<Rightarrow> Some (t, False)
             | Some leaf \<Rightarrow> do {
                 t \<leftarrow> compact_leaf V t (Some leaf);
                 slot \<leftarrow> find_entry_slot V t (Some leaf) (addr v);
                 n \<leftarrow> leaf_at t leaf;
                 prev_entry \<leftarrow> (if slot > 0 then arr_get (entries n) (slot - 1)
                                else if prev_leaf n \<noteq> None then last_entry_mut t (prev_leaf n) else Some None);
                 next_entry \<leftarrow> (if slot < ncount n then arr_get (entries n) slot else next_leaf_first t n);
                 o1 \<leftarrow> ptr_overlaps V prev_entry v;
                 o2 \<leftarrow> (if o1 then Some True else ptr_overlaps V next_entry v);
                 if o2 then Some (t, False)
                 else do {
                   es \<leftarrow> shift_right (entries n) slot (ncount n);
                   es \<leftarrow> arr_set es slot (Some e);
                   let t = (set_node t leaf (n\<lparr>entries := es, ncount := ncount n + 1\<rparr>))\<lparr>tsize := tsize t + 1\<rparr>;
                   t \<leftarrow> (if ncount n + 1 > k_leaf_capacity then split_leaf V t leaf
                         else refresh_ancestors V t (Some leaf));
                   Some (t, True)
                 }
               })
          }
        })"

subsection \<open>Removal\<close>

definition unlink_leaf :: "VmaMapleTree \<Rightarrow> nat \<Rightarrow> VmaMapleTree option" where
  "unlink_leaf t leaf = do {
     n \<leftarrow> leaf_at t leaf;
     t \<leftarrow> (case prev_leaf n of
             Some q \<Rightarrow> do { m \<leftarrow> leaf_at t q; Some (set_node t q (m\<lparr>next_leaf := next_leaf n\<rparr>)) }
           | None \<Rightarrow> Some (t\<lparr>head := next_leaf n\<rparr>));
     n \<leftarrow> leaf_at t leaf;
     (case next_leaf n of
        Some q \<Rightarrow> do { m \<leftarrow> leaf_at t q; Some (set_node t q (m\<lparr>prev_leaf := prev_leaf n\<rparr>)) }
      | None \<Rightarrow> Some (t\<lparr>tail := prev_leaf n\<rparr>))
   }"

partial_function (option) compress_root :: "vma_mem \<Rightarrow> VmaMapleTree \<Rightarrow> VmaMapleTree option" where
  "compress_root V t =
     (case root t of None \<Rightarrow> Some t
      | Some p \<Rightarrow> do {
          n \<leftarrow> tnodes t p;
          if kind n = Leaf then Some t
          else if ncount n \<noteq> 1 then refresh_keys V t (Some p)
          else do {
            c \<leftarrow> arr_get (children n) 0;
            let t = t\<lparr>root := c\<rparr>;
            t \<leftarrow> (case c of None \<Rightarrow> Some t
                  | Some q \<Rightarrow> do { m \<leftarrow> tnodes t q; Some (set_node t q (m\<lparr>parent := None\<rparr>)) });
            t \<leftarrow> delete_node t p;
            compress_root V t
          }
        })"

text \<open>The branch of \<open>remove_child\<close> for an inner node, not the root, that is left with one child.\<close>

definition hoist_only_child :: "vma_mem \<Rightarrow> VmaMapleTree \<Rightarrow> nat \<Rightarrow> Node \<Rightarrow> VmaMapleTree option" where
  "hoist_only_child V t p n = do {
     only_child \<leftarrow> arr_get (children n) 0;
     parent_slot \<leftarrow> find_child_index t (parent n) (Some p);
     (case (parent n, parent_slot) of
        (Some grand, Some ps) \<Rightarrow> do {
          g \<leftarrow> internal_at t grand;
          cs \<leftarrow> arr_set (children g) ps only_child;
          let t = set_node t grand (g\<lparr>children := cs\<rparr>);
          q \<leftarrow> only_child;
          m \<leftarrow> tnodes t q;
          t \<leftarrow> refresh_keys V (set_node t q (m\<lparr>parent := Some grand\<rparr>)) (Some grand);
          t \<leftarrow> delete_node t p;
          if root t = Some grand then compress_root V t else refresh_ancestors V t (Some grand)
        }
      | _ \<Rightarrow> Some t)
   }"

partial_function (option) remove_child :: "vma_mem \<Rightarrow> VmaMapleTree \<Rightarrow> nat option \<Rightarrow> VmaMapleTree option" where
  "remove_child V t child =
     (case child of None \<Rightarrow> Some t
      | Some c \<Rightarrow> do {
          m \<leftarrow> tnodes t c;
          (case parent m of
             None \<Rightarrow> Some (if root t = Some c then t\<lparr>root := None, head := None, tail := None\<rparr> else t)
           | Some p \<Rightarrow> do {
               slot \<leftarrow> find_child_index t (Some p) (Some c);
               (case slot of None \<Rightarrow> Some t
                | Some s \<Rightarrow> do {
                    n \<leftarrow> internal_at t p;
                    cs \<leftarrow> shift_left (children n) s (ncount n);
                    cs \<leftarrow> arr_set cs (ncount n - 1) None;
                    t \<leftarrow> refresh_keys V (set_node t p (n\<lparr>children := cs, ncount := ncount n - 1\<rparr>)) (Some p);
                    n \<leftarrow> internal_at t p;
                    if ncount n = 0 then do { t \<leftarrow> remove_child V t (Some p); delete_node t p }
                    else if root t = Some p then compress_root V t
                    else if ncount n = 1 then hoist_only_child V t p n
                    else refresh_ancestors V t (Some p)
                  })
             })
        })"

definition tree_erase_at :: "vma_mem \<Rightarrow> nat option \<Rightarrow> nat \<Rightarrow> VmaMapleTree \<Rightarrow> VmaMapleTree option" where
  "tree_erase_at V entry key_hint t =
     (case entry of None \<Rightarrow> Some t
      | Some e \<Rightarrow>
          if root t = None then Some t
          else do {
            found \<leftarrow> locate_leaf_for_entry V t entry key_hint;
            (case found of None \<Rightarrow> Some t
             | Some leaf \<Rightarrow> do {
                 t \<leftarrow> compact_leaf V t (Some leaf);
                 n \<leftarrow> leaf_at t leaf;
                 r \<leftarrow> scan (is_ptr e) (entries n) 0 (ncount n);
                 (case r of None \<Rightarrow> Some t
                  | Some slot \<Rightarrow> do {
                      es \<leftarrow> shift_left (entries n) slot (ncount n);
                      es \<leftarrow> arr_set es (ncount n - 1) None;
                      let t = (set_node t leaf (n\<lparr>entries := es, ncount := ncount n - 1\<rparr>))\<lparr>tsize := tsize t - 1\<rparr>;
                      if ncount n - 1 = 0 then do {
                        t \<leftarrow> unlink_leaf t leaf;
                        t \<leftarrow> remove_child V t (Some leaf);
                        delete_node t leaf
                      }
                      else refresh_ancestors V t (Some leaf)
                    })
               })
          })"

definition tree_erase :: "vma_mem \<Rightarrow> nat option \<Rightarrow> VmaMapleTree \<Rightarrow> VmaMapleTree option" where
  "tree_erase V entry t =
     (case entry of None \<Rightarrow> tree_erase_at V None 0 t
      | Some e \<Rightarrow> do { v \<leftarrow> V e; tree_erase_at V (Some e) (addr v) t })"

partial_function (option) destroy_subtree :: "VmaMapleTree \<Rightarrow> nat option \<Rightarrow> VmaMapleTree option" where
  "destroy_subtree t node =
     (case node of None \<Rightarrow> Some t
      | Some p \<Rightarrow> do {
          n \<leftarrow> tnodes t p;
          if kind n = Internal then do {
            t \<leftarrow> for_each (\<lambda>i t. do {
              n \<leftarrow> internal_at t p;
              c \<leftarrow> arr_get (children n) i;
              destroy_subtree t c
            }) [0..<ncount n] t;
            delete_node t p
          }
          else delete_node t p
        })"

definition tree_clear :: "VmaMapleTree \<Rightarrow> VmaMapleTree option" where
  "tree_clear t = do {
     t \<leftarrow> destroy_subtree t (root t);
     Some (t\<lparr>root := None, head := None, tail := None, tsize := 0\<rparr>)
   }"

subsection \<open>Queries\<close>

text \<open>The test \<open>entry != nullptr && entry->covers(addr)\<close>.\<close>

definition covers_test :: "vma_mem \<Rightarrow> nat \<Rightarrow> nat option \<Rightarrow> bool option" where
  "covers_test V a e = (case e of None \<Rightarrow> Some False | Some p \<Rightarrow> do { v \<leftarrow> V p; Some (covers v a) })"

definition tree_find :: "vma_mem \<Rightarrow> VmaMapleTree \<Rightarrow> nat \<Rightarrow> nat option option" where
  "tree_find V t a = do {
     found \<leftarrow> find_leaf t a;
     (case found of None \<Rightarrow> Some None
      | Some leaf \<Rightarrow> do {
          ub \<leftarrow> upper_bound_slot V t (Some leaf) a;
          n \<leftarrow> leaf_at t leaf;
          r \<leftarrow> scan_down (covers_test V a) (entries n) ub;
          (case r of Some i \<Rightarrow> arr_get (entries n) i
           | None \<Rightarrow>
               if ub = 0 \<and> prev_leaf n \<noteq> None then do {
                 e \<leftarrow> last_entry t (prev_leaf n);
                 c \<leftarrow> covers_test V a e;
                 Some (if c then e else None)
               }
               else Some None)
        })
   }"

definition lower_bound :: "vma_mem \<Rightarrow> VmaMapleTree \<Rightarrow> nat \<Rightarrow> nat option option" where
  "lower_bound V t start = do {
     found \<leftarrow> find_leaf t start;
     (case found of None \<Rightarrow> Some None
      | Some leaf \<Rightarrow> do {
          slot \<leftarrow> find_entry_slot V t (Some leaf) start;
          n \<leftarrow> leaf_at t leaf;
          e \<leftarrow> entry_from n slot;
          (case e of Some p \<Rightarrow> Some (Some p) | None \<Rightarrow> next_leaf_first t n)
        })
   }"

definition prev_by_start :: "vma_mem \<Rightarrow> VmaMapleTree \<Rightarrow> nat \<Rightarrow> nat option option" where
  "prev_by_start V t start = do {
     found \<leftarrow> find_leaf t start;
     (case found of None \<Rightarrow> Some None
      | Some leaf \<Rightarrow> do {
          slot \<leftarrow> find_entry_slot V t (Some leaf) start;
          n \<leftarrow> leaf_at t leaf;
          r \<leftarrow> scan_down nonnull (entries n) slot;
          (case r of Some i \<Rightarrow> arr_get (entries n) i | None \<Rightarrow> last_entry t (prev_leaf n))
        })
   }"

definition tree_next :: "vma_mem \<Rightarrow> VmaMapleTree \<Rightarrow> nat option \<Rightarrow> nat option option" where
  "tree_next V t entry =
     (case entry of None \<Rightarrow> Some None
      | Some e \<Rightarrow> do {
          v \<leftarrow> V e;
          found \<leftarrow> locate_leaf_for_entry V t entry (addr v);
          (case found of None \<Rightarrow> Some None
           | Some leaf \<Rightarrow> do {
               n \<leftarrow> leaf_at t leaf;
               r \<leftarrow> scan (is_ptr e) (entries n) 0 (ncount n);
               (case r of None \<Rightarrow> Some None
                | Some i \<Rightarrow> do {
                    x \<leftarrow> entry_from n (i + 1);
                    (case x of Some p \<Rightarrow> Some (Some p) | None \<Rightarrow> next_leaf_first t n)
                  })
             })
        })"

definition tree_prev :: "vma_mem \<Rightarrow> VmaMapleTree \<Rightarrow> nat option \<Rightarrow> nat option option" where
  "tree_prev V t entry =
     (case entry of None \<Rightarrow> Some None
      | Some e \<Rightarrow> do {
          v \<leftarrow> V e;
          found \<leftarrow> locate_leaf_for_entry V t entry (addr v);
          (case found of None \<Rightarrow> Some None
           | Some leaf \<Rightarrow> do {
               n \<leftarrow> leaf_at t leaf;
               r \<leftarrow> scan (is_ptr e) (entries n) 0 (ncount n);
               (case r of None \<Rightarrow> Some None
                | Some i \<Rightarrow> do {
                    r \<leftarrow> scan_down nonnull (entries n) i;
                    (case r of Some j \<Rightarrow> arr_get (entries n) j | None \<Rightarrow> last_entry t (prev_leaf n))
                  })
             })
        })"

definition has_conflict :: "vma_mem \<Rightarrow> VmaMapleTree \<Rightarrow> nat \<Rightarrow> nat \<Rightarrow> nat option \<Rightarrow> bool option" where
  "has_conflict V t start stop ignore =
     (if stop \<le> start then Some False
      else do {
        entry \<leftarrow> tree_find V t start;
        if entry \<noteq> None \<and> entry \<noteq> ignore then Some True
        else do {
          entry \<leftarrow> lower_bound V t start;
          (case entry of None \<Rightarrow> Some False
           | Some e \<Rightarrow> if entry = ignore then Some False else do { v \<leftarrow> V e; Some (addr v < stop) })
        }
      })"

text \<open>
  \<open>find_gap\<close>. \<open>gap_fits\<close> is the negation of the test \<open>cursor > max_addr || size > max_addr - cursor\<close>;
  \<open>need\<close> is the argument \<open>size\<close>.
\<close>

definition gap_fits :: "nat \<Rightarrow> nat \<Rightarrow> nat \<Rightarrow> bool" where
  "gap_fits max_addr need cursor \<longleftrightarrow> \<not> (cursor > max_addr \<or> need > u64_sub max_addr cursor)"

partial_function (option) find_gap_loop ::
  "vma_mem \<Rightarrow> VmaMapleTree \<Rightarrow> nat \<Rightarrow> nat \<Rightarrow> nat \<Rightarrow> nat \<Rightarrow> nat option \<Rightarrow> nat option" where
  "find_gap_loop V t max_addr need alignment cursor covering =
     (case covering of
        None \<Rightarrow> Some (if need \<le> u64_sub max_addr cursor then cursor else 0)
      | Some e \<Rightarrow> do {
          v \<leftarrow> V e;
          if addr v > max_addr then Some (if need \<le> u64_sub max_addr cursor then cursor else 0)
          else if cursor < addr v \<and> cursor \<le> addr v \<and> need \<le> u64_sub (addr v) cursor then Some cursor
          else do {
            let cursor' = (if end_addr v > cursor then align_up (end_addr v) alignment else cursor);
            if end_addr v > cursor \<and> \<not> gap_fits max_addr need cursor' then Some 0
            else do {
              covering' \<leftarrow> tree_next V t (Some e);
              find_gap_loop V t max_addr need alignment cursor' covering'
            }
          }
        })"

definition find_gap :: "vma_mem \<Rightarrow> VmaMapleTree \<Rightarrow> nat \<Rightarrow> nat \<Rightarrow> nat \<Rightarrow> nat \<Rightarrow> nat \<Rightarrow> nat option" where
  "find_gap V t start_hint min_addr max_addr need alignment =
     (if need = 0 \<or> max_addr \<le> min_addr then Some 0
      else let cursor = align_up (if start_hint > min_addr then start_hint else min_addr) alignment in
        if cursor < min_addr then Some 0
        else if \<not> gap_fits max_addr need cursor then Some 0
        else do {
          covering \<leftarrow> tree_find V t cursor;
          (case covering of
             Some e \<Rightarrow> do {
               v \<leftarrow> V e;
               let cursor = align_up (end_addr v) alignment;
               if \<not> gap_fits max_addr need cursor then Some 0
               else do {
                 covering \<leftarrow> tree_next V t covering;
                 find_gap_loop V t max_addr need alignment cursor covering
               }
             }
           | None \<Rightarrow> do {
               prev_entry \<leftarrow> prev_by_start V t cursor;
               past \<leftarrow> (case prev_entry of None \<Rightarrow> Some None
                        | Some e \<Rightarrow> do { v \<leftarrow> V e; Some (if end_addr v > cursor then Some (end_addr v) else None) });
               let cursor' = (case past of None \<Rightarrow> cursor | Some a \<Rightarrow> align_up a alignment);
               if past \<noteq> None \<and> \<not> gap_fits max_addr need cursor' then Some 0
               else do {
                 covering \<leftarrow> lower_bound V t cursor';
                 find_gap_loop V t max_addr need alignment cursor' covering
               }
             })
        })"

text \<open>
  The traversals; \<open>fn\<close> threads a state and returns whether to go on. They visit areas by pointer and may
  not change the index.
\<close>

function for_entries :: "(nat \<Rightarrow> 's \<Rightarrow> ('s \<times> bool) option) \<Rightarrow> Node \<Rightarrow> nat \<Rightarrow> 's \<Rightarrow> ('s \<times> bool) option" where
  "for_entries fn n i s =
     (if i < ncount n then do {
        e \<leftarrow> arr_get (entries n) i;
        (case e of None \<Rightarrow> for_entries fn n (i + 1) s
         | Some p \<Rightarrow> do {
             (s, go) \<leftarrow> fn p s;
             if go then for_entries fn n (i + 1) s else Some (s, False)
           })
      } else Some (s, True))"
  by pat_completeness auto
termination by (relation "measure (\<lambda>(_, n, i, _). ncount n - i)") auto

partial_function (option) for_leaves ::
  "(nat \<Rightarrow> 's \<Rightarrow> ('s \<times> bool) option) \<Rightarrow> VmaMapleTree \<Rightarrow> nat option \<Rightarrow> 's \<Rightarrow> ('s \<times> bool) option" where
  "for_leaves fn t leaf s =
     (case leaf of None \<Rightarrow> Some (s, True)
      | Some p \<Rightarrow> do {
          n \<leftarrow> leaf_at t p;
          r \<leftarrow> for_entries fn n 0 s;
          if snd r then for_leaves fn t (next_leaf n) (fst r) else Some (fst r, False)
        })"

definition tree_for_each :: "(nat \<Rightarrow> 's \<Rightarrow> ('s \<times> bool) option) \<Rightarrow> VmaMapleTree \<Rightarrow> 's \<Rightarrow> ('s \<times> bool) option" where
  "tree_for_each fn t s = for_leaves fn t (head t) s"

partial_function (option) range_loop ::
  "(nat \<Rightarrow> 's \<Rightarrow> ('s \<times> bool) option) \<Rightarrow> vma_mem \<Rightarrow> VmaMapleTree \<Rightarrow> nat \<Rightarrow> nat \<Rightarrow> nat option \<Rightarrow> 's \<Rightarrow> ('s \<times> bool) option" where
  "range_loop fn V t start stop entry s =
     (case entry of None \<Rightarrow> Some (s, True)
      | Some e \<Rightarrow> do {
          v \<leftarrow> V e;
          if addr v < stop then do {
            r \<leftarrow> (if overlaps v start stop then fn e s else Some (s, True));
            if snd r then do { entry' \<leftarrow> tree_next V t (Some e); range_loop fn V t start stop entry' (fst r) }
            else Some (fst r, False)
          }
          else Some (s, True)
        })"

definition for_each_in_range ::
  "(nat \<Rightarrow> 's \<Rightarrow> ('s \<times> bool) option) \<Rightarrow> vma_mem \<Rightarrow> VmaMapleTree \<Rightarrow> nat \<Rightarrow> nat \<Rightarrow> 's \<Rightarrow> ('s \<times> bool) option" where
  "for_each_in_range fn V t start stop s =
     (if stop \<le> start then Some (s, True)
      else do {
        entry \<leftarrow> tree_find V t start;
        entry \<leftarrow> (if entry = None then lower_bound V t start else Some entry);
        range_loop fn V t start stop entry s
      })"

end
