(* ===== verification/Vma_Rep.thy ===== *)
theory Vma_Rep
  imports Vma_Tree "HOL-Library.Multiset"
begin

text \<open>
  What a heap of nodes means: the tree it represents. \<open>mtree\<close> is the tree without its pointers,
  \<open>srep\<close> says that the heap holds its nodes with their counts, arrays and parents, \<open>kok\<close> that the keys
  of the inner nodes are the first addresses below them, \<open>chain\<close> that the leaves are linked in order.
  A position in a tree is a context (\<open>plug\<close>), so that an operation on a node and its
  ancestors is an induction on the context. The file also shows what the array loops and the key
  refreshing do on represented nodes.
\<close>

subsection \<open>Array loops\<close>

declare scan.simps [simp del]

lemma scan_done [simp]: "n \<le> i \<Longrightarrow> scan test xs i n = Some None"
  by (subst scan.simps) simp

lemma scan_step:
  "i < n \<Longrightarrow> i < length xs \<Longrightarrow>
   scan test xs i n = do { b \<leftarrow> test (xs ! i); if b then Some (Some i) else scan test xs (i + 1) n }"
  by (subst scan.simps) (simp add: array_simps)

lemma scan_skip:
  "\<forall>j. i \<le> j \<and> j < k \<longrightarrow> test (xs ! j) = Some False \<Longrightarrow> i \<le> k \<Longrightarrow> k \<le> n \<Longrightarrow> k \<le> length xs \<Longrightarrow>
   scan test xs i n = scan test xs k n"
proof (induction "k - i" arbitrary: i)
  case 0
  then show ?case by simp
next
  case (Suc d)
  have "scan test xs i n = scan test xs (i + 1) n"
    using Suc by (subst scan_step) auto
  also have "\<dots> = scan test xs k n"
    by (rule Suc.hyps(1)) (use Suc in auto)
  finally show ?case .
qed

lemma scan_append:
  "\<forall>x\<in>set A. test x = Some False \<Longrightarrow> length A \<le> n \<Longrightarrow> scan test (A @ B) 0 n = scan test (A @ B) (length A) n"
  by (rule scan_skip) (auto simp: nth_append)

lemma scan_hit:
  "\<forall>x\<in>set A. test x = Some False \<Longrightarrow> test b = Some True \<Longrightarrow> length A < n \<Longrightarrow>
   scan test (A @ b # B) 0 n = Some (Some (length A))"
  using scan_append [of A test n "b # B"] by (simp add: scan_step [of "length A"])

lemma scan_miss:
  "\<forall>x\<in>set A. test x = Some False \<Longrightarrow> scan test (A @ B) 0 (length A) = Some None"
  by (simp add: scan_append)

lemma scan_down_hit:
  "\<forall>x\<in>set B. test x = Some False \<Longrightarrow> test a = Some True \<Longrightarrow> length A + length B + 1 = n \<Longrightarrow>
   scan_down test (A @ a # B @ C) n = Some (Some (length A))"
proof (induction B arbitrary: C n rule: rev_induct)
  case Nil
  then show ?case by (auto simp: arr_get_def)
next
  case (snoc b B)
  have "scan_down test (A @ a # B @ b # C) (length A + length B + 1) = Some (Some (length A))"
    by (rule snoc.IH) (use snoc.prems in auto)
  with snoc.prems show ?case by (auto simp: arr_get_def nth_append)
qed

lemma scan_down_miss:
  "\<forall>x\<in>set A. test x = Some False \<Longrightarrow> scan_down test (A @ B) (length A) = Some None"
proof (induction A arbitrary: B rule: rev_induct)
  case Nil
  then show ?case by simp
next
  case (snoc a A)
  then show ?case using snoc.IH [of "a # B"] by (simp add: arr_get_def)
qed

lemma shift_right_eq:
  assumes "n = length A + length B"
  shows "shift_right (A @ B @ c # C) (length A) n = Some (A @ (if B = [] then [c] else hd B # B) @ C)"
  using assms
proof (induction B arbitrary: c C n rule: rev_induct)
  case Nil
  then show ?case by (simp add: shift_right_def)
next
  case (snoc b B)
  let ?f = "\<lambda>i xs. do { x \<leftarrow> arr_get xs (i - 1); arr_set xs i x }"
  have "rev [length A + 1..<n + 1] = n # rev [length A + 1..<(length A + length B) + 1]"
    using snoc.prems by simp
  moreover have "?f n ((A @ (B @ [b]) @ c # C)) = Some (A @ B @ b # b # C)"
    using snoc.prems by (simp add: arr_get_def arr_set_def nth_append list_update_append)
  ultimately have "shift_right (A @ (B @ [b]) @ c # C) (length A) n = shift_right (A @ B @ b # (b # C)) (length A) (length A + length B)"
    by (simp only: shift_right_def for_each.simps bind.bind_lunit)
  also have "\<dots> = Some (A @ (if B = [] then [b] else hd B # B) @ b # C)"
    by (rule snoc.IH) simp
  finally show ?case by simp
qed

lemma shift_left_eq:
  assumes "n = length A + 1 + length B"
  shows "shift_left (A @ a # B @ C) (length A) n = Some (A @ B @ last (a # B) # C)"
  using assms
proof (induction B arbitrary: A a n)
  case Nil
  then show ?case by (simp add: shift_left_def)
next
  case (Cons b B)
  let ?f = "\<lambda>i xs. do { x \<leftarrow> arr_get xs i; arr_set xs (i - 1) x }"
  have "[length A + 1..<n] = (length A + 1) # [length (A @ [b]) + 1..<n]"
    using Cons.prems upt_conv_Cons [of "length A + 1" n] by (simp del: upt_Suc)
  moreover have "?f (length A + 1) (A @ a # (b # B) @ C) = Some ((A @ [b]) @ b # B @ C)"
    by (simp add: arr_get_def arr_set_def nth_append list_update_append)
  ultimately have "shift_left (A @ a # (b # B) @ C) (length A) n = shift_left ((A @ [b]) @ b # B @ C) (length (A @ [b])) n"
    by (simp only: shift_left_def for_each.simps bind.bind_lunit)
  also have "\<dots> = Some ((A @ [b]) @ B @ last (b # B) # C)"
    by (rule Cons.IH) (use Cons.prems in simp)
  finally show ?case by simp
qed

subsection \<open>Padded arrays\<close>

definition pad :: "'a list \<Rightarrow> 'a option list" where
  "pad xs = map Some xs @ replicate (13 - length xs) None"

lemma length_pad [simp]: "length xs \<le> 13 \<Longrightarrow> length (pad xs) = 13"
  by (simp add: pad_def)

lemma pad_nth [simp]: "i < length xs \<Longrightarrow> pad xs ! i = Some (xs ! i)"
  by (simp add: pad_def nth_append)

lemma pad_get [simp]: "i < length xs \<Longrightarrow> arr_get (pad xs) i = Some (Some (xs ! i))"
  by (simp add: arr_get_def pad_def nth_append)

lemma scan_nonnull_pad [simp]: "i < n \<Longrightarrow> n \<le> length xs \<Longrightarrow> scan nonnull (pad xs) i n = Some (Some i)"
  by (simp add: scan_step nonnull_def pad_def nth_append)

lemma scan_ptr_hit: "c \<notin> set A \<Longrightarrow> scan (is_ptr c) (pad (A @ c # B)) 0 (length A + Suc (length B)) = Some (Some (length A))"
  using scan_hit [of "map Some A" "is_ptr c" "Some c" "length A + Suc (length B)" "map Some B @ replicate (13 - length (A @ c # B)) None"]
  by (auto simp: pad_def is_ptr_def)

lemma scan_ptr_miss: "c \<notin> set A \<Longrightarrow> scan (is_ptr c) (pad A) 0 (length A) = Some None"
  using scan_miss [of "map Some A" "is_ptr c" "replicate (13 - length A) None"] by (auto simp: pad_def is_ptr_def)

lemma pad_shift_right:
  assumes "length (A @ B) \<le> 12"
  shows "(do { xs \<leftarrow> shift_right (pad (A @ B)) (length A) (length (A @ B)); arr_set xs (length A) (Some x) })
    = Some (pad (A @ x # B))"
proof -
  obtain k where k: "13 - length (A @ B) = Suc k" using assms by (cases "13 - length (A @ B)") auto
  have "pad (A @ B) = map Some A @ map Some B @ None # replicate k None"
    unfolding pad_def k by simp
  then have "shift_right (pad (A @ B)) (length A) (length (A @ B)) =
      Some (map Some A @ (if map Some B = [] then [None] else hd (map Some B) # map Some B) @ replicate k None)"
    using shift_right_eq [of "length (A @ B)" "map Some A" "map Some B" None "replicate k None"] by simp
  moreover have "13 - length (A @ x # B) = k" using k by simp
  ultimately show ?thesis by (cases B) (simp_all add: arr_set_def pad_def list_update_append)
qed

lemma pad_shift_left:
  assumes "length (A @ x # B) \<le> 13"
  shows "(do { xs \<leftarrow> shift_left (pad (A @ x # B)) (length A) (length (A @ x # B)); arr_set xs (length (A @ B)) None })
    = Some (pad (A @ B))"
proof -
  let ?k = "13 - length (A @ x # B)"
  have "pad (A @ x # B) = map Some A @ Some x # map Some B @ replicate ?k None"
    by (simp add: pad_def)
  then have "shift_left (pad (A @ x # B)) (length A) (length (A @ x # B)) =
      Some (map Some A @ map Some B @ last (map Some (x # B)) # replicate ?k None)"
    using shift_left_eq [of "length (A @ x # B)" "map Some A" "map Some B" "Some x" "replicate ?k None"] by simp
  moreover have "13 - length (A @ B) = Suc ?k" using assms by simp
  ultimately show ?thesis by (simp add: arr_set_def pad_def list_update_append)
qed

subsection \<open>Trees and contexts\<close>

datatype mtree = LF nat "nat list" | IN nat "mtree list"

primrec nid :: "mtree \<Rightarrow> nat" where
  "nid (LF a es) = a"
| "nid (IN a ts) = a"

fun flat :: "mtree \<Rightarrow> nat list" where
  "flat (LF a es) = es"
| "flat (IN a ts) = concat (map flat ts)"

fun ids :: "mtree \<Rightarrow> nat list" where
  "ids (LF a es) = [a]"
| "ids (IN a ts) = a # concat (map ids ts)"

fun lvs :: "mtree \<Rightarrow> (nat \<times> nat list) list" where
  "lvs (LF a es) = [(a, es)]"
| "lvs (IN a ts) = concat (map lvs ts)"

text \<open>Occupancy: no empty node; every node within its capacity, inner nodes with at least two children.\<close>

fun ne :: "mtree \<Rightarrow> bool" where
  "ne (LF a es) \<longleftrightarrow> es \<noteq> []"
| "ne (IN a ts) \<longleftrightarrow> ts \<noteq> [] \<and> (\<forall>t\<in>set ts. ne t)"

fun wft :: "mtree \<Rightarrow> bool" where
  "wft (LF a es) \<longleftrightarrow> es \<noteq> [] \<and> length es \<le> 12"
| "wft (IN a ts) \<longleftrightarrow> 2 \<le> length ts \<and> length ts \<le> 12 \<and> (\<forall>t\<in>set ts. wft t)"

text \<open>A context is a list of frames, innermost first: an inner node with its children left and right of the hole.\<close>

type_synonym ctx = "(nat \<times> mtree list \<times> mtree list) list"

fun plug :: "mtree \<Rightarrow> ctx \<Rightarrow> mtree" where
  "plug t [] = t"
| "plug t ((a, ls, rs) # c) = plug (IN a (ls @ t # rs)) c"

fun cflat_l :: "ctx \<Rightarrow> nat list" where
  "cflat_l [] = []"
| "cflat_l ((a, ls, rs) # c) = cflat_l c @ concat (map flat ls)"

fun cflat_r :: "ctx \<Rightarrow> nat list" where
  "cflat_r [] = []"
| "cflat_r ((a, ls, rs) # c) = concat (map flat rs) @ cflat_r c"

fun clvs_l :: "ctx \<Rightarrow> (nat \<times> nat list) list" where
  "clvs_l [] = []"
| "clvs_l ((a, ls, rs) # c) = clvs_l c @ concat (map lvs ls)"

fun clvs_r :: "ctx \<Rightarrow> (nat \<times> nat list) list" where
  "clvs_r [] = []"
| "clvs_r ((a, ls, rs) # c) = concat (map lvs rs) @ clvs_r c"

fun cids :: "ctx \<Rightarrow> nat list" where
  "cids [] = []"
| "cids ((a, ls, rs) # c) = a # concat (map ids ls) @ concat (map ids rs) @ cids c"

fun wfc :: "ctx \<Rightarrow> bool" where
  "wfc [] \<longleftrightarrow> True"
| "wfc ((a, ls, rs) # c) \<longleftrightarrow> 1 \<le> length ls + length rs \<and> length ls + length rs \<le> 11
     \<and> (\<forall>t\<in>set ls. wft t) \<and> (\<forall>t\<in>set rs. wft t) \<and> wfc c"

fun cpar :: "ctx \<Rightarrow> nat option" where
  "cpar [] = None"
| "cpar ((a, ls, rs) # c) = Some a"

named_theorems mtree

lemma flat_plug [mtree]: "flat (plug t c) = cflat_l c @ flat t @ cflat_r c"
  by (induction t c rule: plug.induct) auto

lemma lvs_plug [mtree]: "lvs (plug t c) = clvs_l c @ lvs t @ clvs_r c"
  by (induction t c rule: plug.induct) auto

lemma ids_plug [mtree]: "mset (ids (plug t c)) = mset (ids t) + mset (cids c)"
  by (induction t c rule: plug.induct) auto

lemma set_ids_plug [mtree]: "set (ids (plug t c)) = set (ids t) \<union> set (cids c)"
  by (metis ids_plug set_mset_mset set_mset_union)

lemma distinct_ids_plug [mtree]: "distinct (ids (plug t c)) \<longleftrightarrow> distinct (ids t @ cids c)"
  by (rule mset_eq_imp_distinct_iff) (simp add: ids_plug)

lemma wft_plug [mtree]: "wft (plug t c) \<longleftrightarrow> wft t \<and> wfc c"
  by (induction t c rule: plug.induct) auto

lemma wft_ne: "wft t \<Longrightarrow> ne t"
  by (induction t rule: wft.induct) auto

lemma concat_map_concat: "concat (map (\<lambda>x. concat (f x)) xs) = concat (concat (map f xs))"
  by (induction xs) auto

lemma flat_lvs: "flat t = concat (map snd (lvs t))"
proof (induction t rule: flat.induct)
  case (2 a ts)
  then have "concat (map flat ts) = concat (map (\<lambda>t. concat (map snd (lvs t))) ts)"
    by (intro arg_cong [of _ _ concat] map_cong) auto
  then show ?case by (simp add: map_concat concat_map_concat comp_def)
qed simp

lemma nid_in_ids [simp]: "nid t \<in> set (ids t)"
  by (cases t) auto

lemma leaf_ids: "fst ` set (lvs t) \<subseteq> set (ids t)"
  by (induction t rule: lvs.induct) auto

lemma ne_flat: "ne t \<Longrightarrow> flat t \<noteq> []"
proof (induction t rule: ne.induct)
  case (2 a ts)
  then have "hd ts \<in> set ts" "ne (hd ts)" by auto
  with 2 show ?case by auto
qed simp

lemma ne_lvs: "ne t \<Longrightarrow> lvs t \<noteq> [] \<and> (\<forall>(a, es)\<in>set (lvs t). es \<noteq> [])"
proof (induction t rule: ne.induct)
  case (2 a ts)
  then have "hd ts \<in> set ts" "ne (hd ts)" by auto
  with 2 show ?case by fastforce
qed simp

text \<open>Where a leaf stands in the tree.\<close>

lemma concat_split:
  "concat xss = A @ x # B \<Longrightarrow> \<exists>ls xs rs C D. xss = ls @ xs # rs \<and> xs = C @ x # D \<and> A = concat ls @ C \<and> B = D @ concat rs"
proof (induction xss arbitrary: A)
  case Nil
  then show ?case by simp
next
  case (Cons ys xss)
  from Cons.prems obtain us where
    "(ys = A @ us \<and> us @ concat xss = x # B) \<or> (ys @ us = A \<and> concat xss = us @ x # B)"
    by (auto simp: append_eq_append_conv2)
  then consider (new) "us \<noteq> []" "ys = A @ us" "us @ concat xss = x # B" | (old) "A = ys @ us" "concat xss = us @ x # B"
    | (edge) "us = []" "ys = A" "concat xss = x # B" by (cases "us = []") auto
  then show ?case
  proof cases
    case new
    then obtain D where "us = x # D" "B = D @ concat xss" by (cases us) auto
    with new show ?thesis
      by (intro exI [of _ "[]"] exI [of _ ys] exI [of _ xss] exI [of _ A] exI [of _ D]) simp
  next
    case old
    from Cons.IH [OF old(2)] obtain ls xs rs C D where
      "xss = ls @ xs # rs" "xs = C @ x # D" "us = concat ls @ C" "B = D @ concat rs" by blast
    with old show ?thesis
      by (intro exI [of _ "ys # ls"] exI [of _ xs] exI [of _ rs] exI [of _ C] exI [of _ D]) simp
  next
    case edge
    from Cons.IH [of "[]"] edge(3) obtain ls xs rs C D where
      "xss = ls @ xs # rs" "xs = C @ x # D" "[] = concat ls @ C" "B = D @ concat rs" by auto
    with edge show ?thesis
      by (intro exI [of _ "ys # ls"] exI [of _ xs] exI [of _ rs] exI [of _ C] exI [of _ D]) simp
  qed
qed

lemma leaf_context:
  "lvs T = A @ (a, es) # B \<Longrightarrow> \<exists>c. T = plug (LF a es) c \<and> clvs_l c = A \<and> clvs_r c = B"
proof -
  have "lvs T = A @ (a, es) # B \<Longrightarrow> \<exists>c. plug T c0 = plug (LF a es) (c @ c0) \<and> clvs_l (c @ c0) = clvs_l c0 @ A \<and> clvs_r (c @ c0) = B @ clvs_r c0"
    for c0
  proof (induction T arbitrary: A B c0 rule: lvs.induct)
    case (1 b fs)
    then have "A = []" "b = a" "fs = es" "B = []" by (auto simp: Cons_eq_append_conv)
    then show ?case by (intro exI [of _ "[]"]) simp
  next
    case (2 b ts)
    from concat_split [of "map lvs ts" A "(a, es)" B] 2(2) obtain ls' xs rs' C D where
      s: "map lvs ts = ls' @ xs # rs'" "xs = C @ (a, es) # D" "A = concat ls' @ C" "B = D @ concat rs'" by auto
    from s(1) obtain ls t rs where ts: "ts = ls @ t # rs" "ls' = map lvs ls" "xs = lvs t" "rs' = map lvs rs"
      by (auto simp: map_eq_append_conv)
    have "t \<in> set ts" using ts by simp
    from 2(1) [OF this, of C D "(b, ls, rs) # c0"] s(2) ts(3) obtain c where
      "plug t ((b, ls, rs) # c0) = plug (LF a es) (c @ (b, ls, rs) # c0)"
      "clvs_l (c @ (b, ls, rs) # c0) = clvs_l ((b, ls, rs) # c0) @ C"
      "clvs_r (c @ (b, ls, rs) # c0) = D @ clvs_r ((b, ls, rs) # c0)" by auto
    then show ?case using s ts by (intro exI [of _ "c @ [(b, ls, rs)]"]) simp
  qed
  from this [of "[]"] show "lvs T = A @ (a, es) # B \<Longrightarrow> ?thesis" by simp
qed

subsection \<open>Representation of a tree in a heap\<close>

type_synonym heap = "nat \<rightharpoonup> Node"

definition lnode :: "heap \<Rightarrow> nat \<Rightarrow> nat option \<Rightarrow> nat list \<Rightarrow> bool" where
  "lnode h a p es \<longleftrightarrow> (\<exists>n. h a = Some n \<and> kind n = Leaf \<and> ncount n = length es \<and> parent n = p \<and> entries n = pad es) \<and> length es \<le> 13"

definition inode :: "heap \<Rightarrow> nat \<Rightarrow> nat option \<Rightarrow> nat list \<Rightarrow> bool" where
  "inode h a p cs \<longleftrightarrow> (\<exists>n. h a = Some n \<and> kind n = Internal \<and> ncount n = length cs \<and> parent n = p \<and> children n = pad cs \<and> length (keys n) = 13) \<and> length cs \<le> 13"

fun srep :: "heap \<Rightarrow> nat option \<Rightarrow> mtree \<Rightarrow> bool" where
  "srep h p (LF a es) \<longleftrightarrow> lnode h a p es"
| "srep h p (IN a ts) \<longleftrightarrow> inode h a p (map nid ts) \<and> (\<forall>t\<in>set ts. srep h (Some a) t)"

definition fk :: "vma_mem \<Rightarrow> mtree \<Rightarrow> nat" where
  "fk V t = addr (the (V (hd (flat t))))"

definition knode :: "vma_mem \<Rightarrow> heap \<Rightarrow> nat \<Rightarrow> mtree list \<Rightarrow> bool" where
  "knode V h a ts \<longleftrightarrow> (\<exists>n. h a = Some n \<and> take (length ts) (keys n) = map (fk V) ts)"

fun kok :: "vma_mem \<Rightarrow> heap \<Rightarrow> mtree \<Rightarrow> bool" where
  "kok V h (LF a es) \<longleftrightarrow> True"
| "kok V h (IN a ts) \<longleftrightarrow> knode V h a ts \<and> (\<forall>t\<in>set ts. kok V h t)"

text \<open>The context of a represented node.\<close>

fun crep :: "heap \<Rightarrow> ctx \<Rightarrow> nat \<Rightarrow> bool" where
  "crep h [] k \<longleftrightarrow> True"
| "crep h ((a, ls, rs) # c) k \<longleftrightarrow> inode h a (cpar c) (map nid ls @ k # map nid rs)
     \<and> (\<forall>t\<in>set ls. srep h (Some a) t) \<and> (\<forall>t\<in>set rs. srep h (Some a) t) \<and> crep h c a"

text \<open>The keys of a context: \<open>skok\<close> those of the subtrees beside the path, \<open>ckok\<close> those of the path as well.\<close>

fun skok :: "vma_mem \<Rightarrow> heap \<Rightarrow> ctx \<Rightarrow> bool" where
  "skok V h [] \<longleftrightarrow> True"
| "skok V h ((a, ls, rs) # c) \<longleftrightarrow> (\<forall>t\<in>set ls. kok V h t) \<and> (\<forall>t\<in>set rs. kok V h t) \<and> skok V h c"

fun ckok :: "vma_mem \<Rightarrow> heap \<Rightarrow> ctx \<Rightarrow> mtree \<Rightarrow> bool" where
  "ckok V h [] t \<longleftrightarrow> True"
| "ckok V h ((a, ls, rs) # c) t \<longleftrightarrow> knode V h a (ls @ t # rs) \<and> ckok V h c (IN a (ls @ t # rs))"

lemma srep_plug [mtree]: "srep h None (plug t c) \<longleftrightarrow> srep h (cpar c) t \<and> crep h c (nid t)"
  by (induction t c rule: plug.induct) auto

lemma kok_plug [mtree]: "kok V h (plug t c) \<longleftrightarrow> kok V h t \<and> skok V h c \<and> ckok V h c t"
  by (induction t c rule: plug.induct) auto

text \<open>What each part of the representation depends on.\<close>

definition shape :: "Node \<Rightarrow> Kind \<times> nat \<times> nat option list \<times> nat option list \<times> nat" where
  "shape n = (kind n, ncount n, entries n, children n, length (keys n))"

definition same_node :: "heap \<Rightarrow> heap \<Rightarrow> nat \<Rightarrow> bool" where
  "same_node h h' a \<longleftrightarrow> map_option shape (h a) = map_option shape (h' a) \<and> map_option parent (h a) = map_option parent (h' a)"

lemma lnode_cong: "same_node h h' a \<Longrightarrow> lnode h a p es = lnode h' a p es"
  by (cases "h a"; cases "h' a") (auto simp: lnode_def same_node_def shape_def)

lemma inode_cong: "same_node h h' a \<Longrightarrow> inode h a p cs = inode h' a p cs"
  by (cases "h a"; cases "h' a") (auto simp: inode_def same_node_def shape_def)

lemma srep_cong: "\<forall>a\<in>set (ids t). same_node h h' a \<Longrightarrow> srep h p t = srep h' p t"
proof (induction t arbitrary: p rule: ids.induct)
  case (1 a es)
  then show ?case by (simp add: lnode_cong [of h h'])
next
  case (2 a ts)
  then have "inode h a p (map nid ts) = inode h' a p (map nid ts)" by (simp add: inode_cong [of h h'])
  with 2 show ?case by auto
qed

lemma crep_cong: "\<forall>a\<in>set (cids c). same_node h h' a \<Longrightarrow> crep h c k = crep h' c k"
proof (induction c arbitrary: k rule: cids.induct)
  case (2 a ls rs c)
  have "inode h a (cpar c) cs = inode h' a (cpar c) cs" for cs using 2 by (simp add: inode_cong [of h h'])
  moreover have "srep h (Some a) t = srep h' (Some a) t" if "t \<in> set ls \<or> t \<in> set rs" for t
    by (rule srep_cong) (use 2 that in auto)
  ultimately show ?case using 2 by auto
qed simp

definition same_keys :: "heap \<Rightarrow> heap \<Rightarrow> nat \<Rightarrow> bool" where
  "same_keys h h' a \<longleftrightarrow> map_option keys (h a) = map_option keys (h' a)"

lemma knode_cong: "same_keys h h' a \<Longrightarrow> knode V h a ts = knode V h' a ts"
  by (cases "h a"; cases "h' a") (auto simp: knode_def same_keys_def)

lemma kok_cong: "\<forall>a\<in>set (ids t). same_keys h h' a \<Longrightarrow> kok V h t = kok V h' t"
proof (induction t rule: ids.induct)
  case (2 a ts)
  then have "knode V h a ts = knode V h' a ts" by (simp add: knode_cong [of h h'])
  with 2 show ?case by auto
qed simp

lemma skok_cong: "\<forall>a\<in>set (cids c). same_keys h h' a \<Longrightarrow> skok V h c = skok V h' c"
proof (induction c rule: cids.induct)
  case (2 a ls rs c)
  have "kok V h t = kok V h' t" if "t \<in> set ls \<or> t \<in> set rs" for t
    by (rule kok_cong) (use 2 that in auto)
  with 2 show ?case by auto
qed simp

text \<open>The keys of a tree under another memory of areas that agrees on what is indexed.\<close>

lemma fk_mem: "ne t \<Longrightarrow> \<forall>e\<in>set (flat t). V e = W e \<Longrightarrow> fk V t = fk W t"
  using ne_flat [of t] by (simp add: fk_def)

lemma kok_mem: "ne t \<Longrightarrow> \<forall>e\<in>set (flat t). V e = W e \<Longrightarrow> kok V h t = kok W h t"
proof (induction t rule: ne.induct)
  case (2 a ts)
  have "map (fk V) ts = map (fk W) ts" using 2 by (auto intro!: fk_mem)
  then have "knode V h a ts = knode W h a ts" by (simp only: knode_def)
  with 2 show ?case by auto
qed simp

subsection \<open>The list of leaves\<close>

definition link :: "heap \<Rightarrow> nat \<Rightarrow> nat option \<Rightarrow> nat option \<Rightarrow> bool" where
  "link h a p q \<longleftrightarrow> (\<exists>n. h a = Some n \<and> prev_leaf n = p \<and> next_leaf n = q)"

definition ohd :: "'a list \<Rightarrow> 'a option \<Rightarrow> 'a option" where
  "ohd xs q = (case xs of [] \<Rightarrow> q | x # _ \<Rightarrow> Some x)"

definition olast :: "'a option \<Rightarrow> 'a list \<Rightarrow> 'a option" where
  "olast p xs = (if xs = [] then p else Some (last xs))"

lemma ohd_simps [simp]: "ohd [] q = q" "ohd (x # xs) q = Some x" "ohd (xs @ ys) q = ohd xs (ohd ys q)"
  by (simp_all add: ohd_def split: list.split)

lemma olast_simps [simp]: "olast p [] = p" "olast p (x # xs) = olast (Some x) xs" "olast p (xs @ ys) = olast (olast p xs) ys"
  by (simp_all add: olast_def)

primrec chain :: "heap \<Rightarrow> nat option \<Rightarrow> nat list \<Rightarrow> nat option \<Rightarrow> bool" where
  "chain h p [] q \<longleftrightarrow> True"
| "chain h p (a # L) q \<longleftrightarrow> link h a p (ohd L q) \<and> chain h (Some a) L q"

lemma chain_append [simp]: "chain h p (A @ B) q \<longleftrightarrow> chain h p A (ohd B q) \<and> chain h (olast p A) B q"
  by (induction A arbitrary: p) auto

definition same_links :: "heap \<Rightarrow> heap \<Rightarrow> nat \<Rightarrow> bool" where
  "same_links h h' a \<longleftrightarrow> map_option prev_leaf (h a) = map_option prev_leaf (h' a) \<and> map_option next_leaf (h a) = map_option next_leaf (h' a)"

lemma link_cong: "same_links h h' a \<Longrightarrow> link h a p q = link h' a p q"
  by (cases "h a"; cases "h' a") (auto simp: link_def same_links_def)

lemma chain_cong: "\<forall>a\<in>set L. same_links h h' a \<Longrightarrow> chain h p L q = chain h' p L q"
  by (induction L arbitrary: p) (auto simp: link_cong [of h h'])

abbreviation lids :: "mtree \<Rightarrow> nat list" where
  "lids t \<equiv> map fst (lvs t)"

subsection \<open>The invariant of the index\<close>

definition area_of :: "vma_mem \<Rightarrow> nat \<Rightarrow> VmArea" where
  "area_of V e = the (V e)"

text \<open>The indexed areas exist, are not empty, and lie in memory one after the other.\<close>

definition ordered :: "vma_mem \<Rightarrow> nat list \<Rightarrow> bool" where
  "ordered V es \<longleftrightarrow> (\<forall>e\<in>set es. V e \<noteq> None \<and> valid_range (area_of V e))
     \<and> sorted_wrt (\<lambda>e f. end_addr (area_of V e) \<le> addr (area_of V f)) es"

text \<open>
  \<open>tree_of V t T\<close>: the index \<open>t\<close> represents the tree \<open>T\<close>. The heap holds exactly the nodes of the tree, so
  nothing leaks and nothing dangles.
\<close>

definition tree_of :: "vma_mem \<Rightarrow> VmaMapleTree \<Rightarrow> mtree \<Rightarrow> bool" where
  "tree_of V t T \<longleftrightarrow> root t = Some (nid T) \<and> srep (tnodes t) None T \<and> kok V (tnodes t) T \<and> wft T \<and> distinct (ids T)
     \<and> dom (tnodes t) = set (ids T) \<and> (\<forall>p\<in>set (ids T). p < tfresh t)
     \<and> chain (tnodes t) None (lids T) None \<and> head t = ohd (lids T) None \<and> tail t = olast None (lids T)"

definition index_inv :: "vma_mem \<Rightarrow> VmaMapleTree \<Rightarrow> nat list \<Rightarrow> bool" where
  "index_inv V t es \<longleftrightarrow> ordered V es \<and> tsize t = int (length es)
     \<and> (if es = [] then tnodes t = Map.empty \<and> root t = None \<and> head t = None \<and> tail t = None
        else (\<exists>T. tree_of V t T \<and> flat T = es))"

end
