(* ===== verification/Vma_Refresh.thy ===== *)
theory Vma_Refresh
  imports Vma_Rep
begin

text \<open>
  Refreshing keys: \<open>first_key\<close>, \<open>refresh_keys\<close>, \<open>refresh_ancestors\<close> and \<open>compact_leaf\<close> on
  represented trees. Whatever the keys on a path were, refreshing the ancestors of a node makes the keys
  of the whole path right and changes nothing else.
\<close>

lemma tnodes_set_node [simp]: "tnodes (set_node s a n) = (tnodes s)(a \<mapsto> n)"
  by (simp add: set_node_def)

lemma set_node_sel [simp]:
  "tfresh (set_node s a n) = tfresh s" "root (set_node s a n) = root s" "head (set_node s a n) = head s"
  "tail (set_node s a n) = tail s" "tsize (set_node s a n) = tsize s"
  by (simp_all add: set_node_def)

lemma set_node_id: "tnodes s a = Some n \<Longrightarrow> set_node s a n = s"
  by (simp add: set_node_def map_upd_triv)

lemma set_node_twice [simp]: "set_node (set_node s a m) a n = set_node s a n"
  by (simp add: set_node_def)

lemma same_node_upd [simp]: "b \<noteq> a \<Longrightarrow> same_node h (h(a := x)) b"
  by (simp add: same_node_def)

lemma same_keys_upd [simp]: "b \<noteq> a \<Longrightarrow> same_keys h (h(a := x)) b"
  by (simp add: same_keys_def)

lemma same_links_upd [simp]: "b \<noteq> a \<Longrightarrow> same_links h (h(a := x)) b"
  by (simp add: same_links_def)

lemma same_refl [simp]: "same_node h h b" "same_keys h h b" "same_links h h b"
  by (simp_all add: same_node_def same_keys_def same_links_def)

definition known :: "vma_mem \<Rightarrow> nat list \<Rightarrow> bool" where
  "known V es \<longleftrightarrow> (\<forall>e\<in>set es. V e \<noteq> None)"

lemma known_append [simp]: "known V (A @ B) \<longleftrightarrow> known V A \<and> known V B"
  by (auto simp: known_def)

lemma known_concat [simp]: "known V (concat (map f ts)) \<longleftrightarrow> (\<forall>t\<in>set ts. known V (f t))"
  by (auto simp: known_def)

lemma known_hd: "known V (flat t) \<Longrightarrow> ne t \<Longrightarrow> \<exists>v. V (hd (flat t)) = Some v \<and> fk V t = addr v"
proof -
  assume "known V (flat t)" "ne t"
  then have "hd (flat t) \<in> set (flat t)" using ne_flat [of t] by simp
  with \<open>known V (flat t)\<close> obtain v where "V (hd (flat t)) = Some v" by (auto simp: known_def)
  then show ?thesis by (simp add: fk_def)
qed

lemma first_key_rep:
  "srep (tnodes s) p t \<Longrightarrow> ne t \<Longrightarrow> known V (flat t) \<Longrightarrow> first_key V s (Some (nid t)) = Some (fk V t)"
proof (induction t arbitrary: p rule: ne.induct)
  case (1 a es)
  then obtain n where n: "tnodes s a = Some n" "kind n = Leaf" "ncount n = length es" "entries n = pad es"
    by (auto simp: lnode_def)
  obtain v where v: "V (es ! 0) = Some v" "fk V (LF a es) = addr v"
    using known_hd [of V "LF a es"] 1 by (auto simp: hd_conv_nth)
  show ?case by (subst first_key.simps) (use 1 n v in simp)
next
  case (2 a ts)
  then obtain n where n: "tnodes s a = Some n" "kind n = Internal" "ncount n = length ts" "children n = pad (map nid ts)"
    by (auto simp: inode_def)
  obtain t ts' where ts: "ts = t # ts'" using 2 by (cases ts) auto
  have "first_key V s (Some (nid t)) = Some (fk V t)"
    by (rule "2.IH" [of t]) (use 2 ts in auto)
  moreover have "fk V (IN a ts) = fk V t"
    using 2 ts ne_flat [of t] by (simp add: fk_def)
  ultimately show ?case by (subst first_key.simps) (use n ts in simp)
qed

lemma refresh_keys_rep:
  assumes n: "tnodes s a = Some n" and i: "inode (tnodes s) a p (map nid ts)"
    and ts: "\<And>t. t \<in> set ts \<Longrightarrow> (\<exists>q. srep (tnodes s) q t) \<and> ne t \<and> known V (flat t) \<and> a \<notin> set (ids t)"
  shows "refresh_keys V s (Some a) = Some (set_node s a (n\<lparr>keys := map (fk V) ts @ drop (length ts) (keys n)\<rparr>))"
proof -
  have nn: "kind n = Internal" "ncount n = length ts" "children n = pad (map nid ts)" "length (keys n) = 13" "length ts \<le> 13"
    using i n by (auto simp: inode_def)
  let ?S = "\<lambda>k. set_node s a (n\<lparr>keys := map (fk V) (take k ts) @ drop k (keys n)\<rparr>)"
  have "for_each (refresh_key V a) [0..<length ts] (?S 0) = Some (?S (length ts))"
  proof (rule for_each_upt)
    fix k assume k: "k < length ts"
    let ?s = "set_node s a (n\<lparr>keys := map (fk V) (take k ts) @ drop k (keys n)\<rparr>)"
    have tk: "ts ! k \<in> set ts" using k by simp
    then obtain q where "srep (tnodes s) q (ts ! k)" using ts by blast
    then have "srep (tnodes ?s) q (ts ! k)"
      using ts [OF tk] srep_cong [of "ts ! k" "tnodes s" "tnodes ?s" q] by (metis same_node_upd tnodes_set_node)
    then have "first_key V ?s (Some (nid (ts ! k))) = Some (fk V (ts ! k))"
      using ts [OF tk] by (auto intro: first_key_rep)
    moreover have "(map (fk V) (take k ts) @ drop k (keys n))[k := fk V (ts ! k)] = map (fk V) (take (Suc k) ts) @ drop (Suc k) (keys n)"
      using k nn by (simp add: list_update_append take_Suc_conv_app_nth Cons_nth_drop_Suc [symmetric])
    ultimately show "refresh_key V a k (?S k) = Some (?S (Suc k))"
      using k nn by (simp add: refresh_key_def internal_at_def arr_set_def)
  qed
  then show ?thesis
    using n nn by (simp add: refresh_keys_def internal_at_def set_node_id)
qed

subsection \<open>Ancestors\<close>

definition path :: "ctx \<Rightarrow> nat set" where
  "path c = fst ` set c"

text \<open>Only keys of the given nodes differ.\<close>

definition rekeyed :: "nat set \<Rightarrow> heap \<Rightarrow> heap \<Rightarrow> bool" where
  "rekeyed A h h' \<longleftrightarrow> (\<forall>b. same_node h h' b \<and> same_links h h' b) \<and> (\<forall>b. b \<notin> A \<longrightarrow> h' b = h b)"

lemma path_simps [simp]: "path [] = {}" "path ((a, ls, rs) # c) = insert a (path c)"
  by (auto simp: path_def)

lemma path_cids: "path c \<subseteq> set (cids c)"
  by (induction c rule: cids.induct) auto

lemma rekeyed_srep: "rekeyed A h h' \<Longrightarrow> srep h' p t = srep h p t"
  using srep_cong [of t h h' p] by (simp add: rekeyed_def)

lemma rekeyed_crep: "rekeyed A h h' \<Longrightarrow> crep h' c k = crep h c k"
  using crep_cong [of c h h' k] by (simp add: rekeyed_def)

lemma rekeyed_chain: "rekeyed A h h' \<Longrightarrow> chain h' p L q = chain h p L q"
  using chain_cong [of L h h' p q] by (simp add: rekeyed_def)

lemma rekeyed_kok: "rekeyed A h h' \<Longrightarrow> A \<inter> set (ids t) = {} \<Longrightarrow> kok V h' t = kok V h t"
proof -
  assume "rekeyed A h h'" "A \<inter> set (ids t) = {}"
  then have "\<forall>a\<in>set (ids t). same_keys h h' a" by (auto simp: rekeyed_def same_keys_def disjoint_iff)
  from kok_cong [OF this, of V] show ?thesis by simp
qed

lemma same_node_Some: "same_node h h' a \<Longrightarrow> h a = None \<longleftrightarrow> h' a = None"
  by (cases "h a"; cases "h' a") (auto simp: same_node_def)

lemma rekeyed_dom: "rekeyed A h h' \<Longrightarrow> dom h' = dom h"
  unfolding rekeyed_def dom_def by (metis same_node_Some)

lemma rekeyed_trans: "rekeyed A h h' \<Longrightarrow> rekeyed B h' h'' \<Longrightarrow> rekeyed (A \<union> B) h h''"
  by (auto simp: rekeyed_def same_node_def same_links_def)

lemma rekeyed_upd:
  "h a = Some n \<Longrightarrow> length ks = length (keys n) \<Longrightarrow> rekeyed {a} h (h(a \<mapsto> n\<lparr>keys := ks\<rparr>))"
  by (auto simp: rekeyed_def same_node_def same_links_def shape_def)

lemmas rekeyed_simps = rekeyed_srep rekeyed_crep rekeyed_chain rekeyed_dom

lemma rekeyed_skok: "rekeyed A h h' \<Longrightarrow> A \<inter> (set (cids c) - path c) = {} \<Longrightarrow> distinct (cids c) \<Longrightarrow> skok V h' c = skok V h c"
proof (induction c rule: cids.induct)
  case (2 a ls rs c)
  have s: "kok V h' t = kok V h t" if "t \<in> set ls \<or> t \<in> set rs" for t
  proof (rule rekeyed_kok [OF "2.prems"(1)])
    have "set (ids t) \<inter> path ((a, ls, rs) # c) = {}"
      using that "2.prems"(3) path_cids [of c] by auto
    then show "A \<inter> set (ids t) = {}" using "2.prems"(2) that by auto
  qed
  have "A \<inter> (set (cids c) - path c) = {}"
    using "2.prems"(2,3) by auto
  with 2 have "skok V h' c = skok V h c" by auto
  then show ?case using s by auto
qed simp

lemma refresh_from_rep:
  assumes "srep (tnodes s) (cpar c) t" "crep (tnodes s) c (nid t)" "ne t" "wfc c" "known V (flat (plug t c))"
    "distinct (ids t @ cids c)"
  shows "\<exists>h'. refresh_from V s (cpar c) = Some (s\<lparr>tnodes := h'\<rparr>) \<and> rekeyed (path c) (tnodes s) h' \<and> ckok V h' c t"
  using assms
proof (induction t c arbitrary: s rule: plug.induct)
  case (1 t)
  show ?case by (subst refresh_from.simps) (auto simp: rekeyed_def intro!: exI [of _ "tnodes s"])
next
  case (2 t a ls rs c)
  let ?ts = "ls @ t # rs"
  obtain n where n: "tnodes s a = Some n" using "2.prems"(2) by (auto simp: inode_def)
  have i: "inode (tnodes s) a (cpar c) (map nid ?ts)" using "2.prems"(2) by simp
  then have nk: "length (keys n) = 13" "length ?ts \<le> 13" "parent n = cpar c" using n by (auto simp: inode_def)
  let ?n = "n\<lparr>keys := map (fk V) ?ts @ drop (length ?ts) (keys n)\<rparr>"
  let ?s = "set_node s a ?n"
  have rk: "refresh_keys V s (Some a) = Some ?s"
  proof (rule refresh_keys_rep [OF n i])
    fix u assume u: "u \<in> set ?ts"
    have "known V (flat u)" using u "2.prems"(5) by (auto simp: flat_plug)
    moreover have "\<exists>q. srep (tnodes s) q u" using u "2.prems"(1,2) by auto
    moreover have "ne u" using u "2.prems"(3,4) by (auto dest: wft_ne)
    moreover have "a \<notin> set (ids u)" using u "2.prems"(6) by auto
    ultimately show "(\<exists>q. srep (tnodes s) q u) \<and> ne u \<and> known V (flat u) \<and> a \<notin> set (ids u)" by blast
  qed
  have r1: "rekeyed {a} (tnodes s) (tnodes ?s)"
    using rekeyed_upd [of "tnodes s" a n "keys ?n"] n nk by simp
  have "\<exists>h'. refresh_from V ?s (cpar c) = Some (?s\<lparr>tnodes := h'\<rparr>) \<and> rekeyed (path c) (tnodes ?s) h' \<and> ckok V h' c (IN a ?ts)"
  proof (rule "2.IH")
    have "srep (tnodes s) (cpar c) (IN a ?ts)" using "2.prems"(1,2) by auto
    then show "srep (tnodes ?s) (cpar c) (IN a ?ts)" using rekeyed_srep [OF r1] by blast
    show "crep (tnodes ?s) c (nid (IN a ?ts))" using "2.prems"(2) rekeyed_crep [OF r1] by simp
    show "ne (IN a ?ts)" "wfc c" using "2.prems"(3,4) by (auto dest: wft_ne)
    show "known V (flat (plug (IN a ?ts) c))" using "2.prems"(5) by simp
    show "distinct (ids (IN a ?ts) @ cids c)" using "2.prems"(6) by auto
  qed
  then obtain h' where h': "refresh_from V ?s (cpar c) = Some (?s\<lparr>tnodes := h'\<rparr>)" "rekeyed (path c) (tnodes ?s) h'"
    "ckok V h' c (IN a ?ts)" by blast
  have "a \<notin> path c" using "2.prems"(6) path_cids [of c] by auto
  then have "h' a = Some ?n" using h'(2) by (simp add: rekeyed_def)
  then have "knode V h' a ?ts" using nk by (simp add: knode_def)
  moreover have "rekeyed (path ((a, ls, rs) # c)) (tnodes s) h'" using rekeyed_trans [OF r1 h'(2)] by simp
  moreover have "refresh_from V s (cpar ((a, ls, rs) # c)) = Some (s\<lparr>tnodes := h'\<rparr>)"
    using rk h'(1) nk(3) by (subst refresh_from.simps) (simp add: set_node_def)
  ultimately show ?case using h'(3) by auto
qed

subsection \<open>Compaction\<close>

text \<open>A leaf without holes is left as it is.\<close>

lemma compact_leaf_id:
  assumes "lnode (tnodes s) a p es"
  shows "compact_leaf V s (Some a) = Some s"
proof -
  obtain n where n: "tnodes s a = Some n" "kind n = Leaf" "ncount n = length es" "entries n = pad es" "length es \<le> 13"
    using assms by (auto simp: lnode_def)
  have 1: "for_each compact_step [0..<length es] (pad es, 0) = Some (pad es, length es)"
  proof (rule for_each_upt)
    fix k assume k: "k < length es"
    then have "(pad es)[k := Some (es ! k)] = pad es" by (metis list_update_id pad_nth)
    with k n(5) show "compact_step k (pad es, k) = Some (pad es, Suc k)" by (simp add: compact_step_def arr_set_in)
  qed
  have "for_each (\<lambda>i es. arr_set es i None) [k..<13] (pad es) = Some (pad es)" if "length es \<le> k" "k \<le> 13" for k
    using that
  proof (induction "13 - k" arbitrary: k)
    case (Suc d)
    then have "pad es ! k = None" by (simp add: pad_def nth_append)
    then have "(pad es)[k := None] = pad es" by (metis list_update_id)
    moreover have "[k..<13] = k # [Suc k..<13]" using Suc by (simp add: upt_conv_Cons)
    ultimately show ?case using Suc n(5) by (simp add: arr_set_def)
  qed simp
  then have "for_each (\<lambda>i es. arr_set es i None) [length es..<13] (pad es) = Some (pad es)" using n(5) by simp
  with 1 n show ?thesis
    by (simp add: compact_leaf_def leaf_at_def k_leaf_capacity_def set_node_id)
qed

end
