(* ===== verification/Vma_Query.thy ===== *)
theory Vma_Query
  imports Vma_Refresh
begin

text \<open>
  The queries of the index on a represented tree: the leaf that \<open>find_leaf\<close> reaches, its neighbours in
  the list of leaves, and from them what \<open>find\<close>, \<open>lower_bound\<close>, \<open>prev_by_start\<close>, \<open>next\<close>,
  \<open>prev\<close>, \<open>locate_leaf_for_entry\<close> and \<open>has_conflict\<close> return, in terms of the list of
  indexed areas.
\<close>

subsection \<open>Ordered lists of areas\<close>

abbreviation adr :: "vma_mem \<Rightarrow> nat \<Rightarrow> nat" where
  "adr V e \<equiv> addr (area_of V e)"

abbreviation fin :: "vma_mem \<Rightarrow> nat \<Rightarrow> nat" where
  "fin V e \<equiv> end_addr (area_of V e)"

lemma ordered_append:
  "ordered V (A @ B) \<longleftrightarrow> ordered V A \<and> ordered V B \<and> (\<forall>e\<in>set A. \<forall>f\<in>set B. fin V e \<le> adr V f)"
  by (auto simp: ordered_def sorted_wrt_append)

lemma ordered_Cons:
  "ordered V (e # B) \<longleftrightarrow> V e \<noteq> None \<and> valid_range (area_of V e) \<and> (\<forall>f\<in>set B. fin V e \<le> adr V f) \<and> ordered V B"
  by (auto simp: ordered_def)

lemma ordered_Nil [simp]: "ordered V []"
  by (simp add: ordered_def)

lemma ordered_less: "ordered V es \<Longrightarrow> e \<in> set es \<Longrightarrow> adr V e < fin V e"
  by (auto simp: ordered_def valid_range_def)

lemma ordered_mem: "ordered V es \<Longrightarrow> e \<in> set es \<Longrightarrow> V e = Some (area_of V e) \<and> valid_range (area_of V e)"
  by (auto simp: ordered_def area_of_def)

lemma ordered_known: "ordered V es \<Longrightarrow> known V es"
  by (auto simp: ordered_def known_def)

lemma ordered_starts: "ordered V es \<Longrightarrow> sorted_wrt (\<lambda>e f. adr V e < adr V f) es"
proof (induction es)
  case (Cons e es)
  then have "adr V e < fin V e" "\<forall>f\<in>set es. fin V e \<le> adr V f" "sorted_wrt (\<lambda>e f. adr V e < adr V f) es"
    using ordered_less [of V "e # es" e] by (auto simp: ordered_Cons)
  then show ?case by fastforce
qed simp

lemma ordered_distinct: "ordered V es \<Longrightarrow> distinct es"
proof (induction es)
  case (Cons e es)
  have "e \<notin> set es"
    using Cons.prems ordered_less [of V "e # es" e] by (fastforce simp: ordered_Cons)
  with Cons show ?case by (simp add: ordered_Cons)
qed simp

lemma ordered_sub: "ordered V (A @ B @ C) \<Longrightarrow> ordered V (A @ C)"
  by (auto simp: ordered_append)

lemma ordered_member: "ordered V (concat (map flat ts)) \<Longrightarrow> t \<in> set ts \<Longrightarrow> ordered V (flat t)"
  by (induction ts) (auto simp: ordered_append)

lemma covers_iff: "ordered V es \<Longrightarrow> e \<in> set es \<Longrightarrow> covers (area_of V e) x \<longleftrightarrow> adr V e \<le> x \<and> x < fin V e"
  by (auto simp: ordered_def covers_def)

lemma covering_unique:
  assumes "ordered V (A @ e # B)" "covers (area_of V e) x" "f \<in> set A \<union> set B"
  shows "\<not> covers (area_of V f) x"
  using assms covers_iff [OF assms(1), of e x] covers_iff [OF assms(1), of f x]
  by (auto simp: ordered_append ordered_Cons)

subsection \<open>The child that a key selects\<close>

declare child_best.simps [simp del]

lemma child_best_eq:
  assumes "children n = pad cs" "ncount n = length cs" "length (keys n) = 13" "length cs \<le> 13" "j \<le> length cs"
    and "\<And>k. k < j \<Longrightarrow> keys n ! k \<le> key" and "j < length cs \<Longrightarrow> key < keys n ! j" and "i \<le> j"
  shows "child_best n key i best = Some (if i = j then best else Some (j - 1))"
  using assms(8)
proof (induction "j - i" arbitrary: i best)
  case 0
  then have "i = j" by simp
  then show ?case using assms(1-7) by (subst child_best.simps) (auto simp: arr_get_def)
next
  case (Suc d)
  then have "i < j" by simp
  with assms have "child_best n key i best = child_best n key (i + 1) (Some i)"
    by (subst child_best.simps) (auto simp: arr_get_def)
  also have "\<dots> = Some (if i + 1 = j then Some i else Some (j - 1))"
    by (rule Suc.hyps(1)) (use Suc \<open>i < j\<close> in auto)
  finally show ?case using \<open>i < j\<close> by auto
qed

lemma child_slot_eq:
  assumes n: "tnodes t a = Some n" "inode (tnodes t) a p (map nid ts)" "take (length ts) (keys n) = ks" "ts \<noteq> []"
    and "sorted ks"
  shows "\<exists>j<length ts. child_slot t (Some a) key = Some j \<and> (j = 0 \<or> ks ! j \<le> key) \<and> (\<forall>k. j < k \<and> k < length ts \<longrightarrow> key < ks ! k)"
proof -
  have nn: "kind n = Internal" "ncount n = length ts" "children n = pad (map nid ts)" "length (keys n) = 13" "length ts \<le> 13"
    using n by (auto simp: inode_def)
  have ks: "length ks = length ts" "\<And>k. k < length ts \<Longrightarrow> keys n ! k = ks ! k" using n(3) nn by auto
  define m where "m = length (takeWhile (\<lambda>x. x \<le> key) ks)"
  have m: "m \<le> length ts" using ks(1) length_takeWhile_le [of "\<lambda>x. x \<le> key" ks] by (simp add: m_def)
  have lo: "ks ! k \<le> key" if "k < m" for k
    using that set_takeWhileD [of "takeWhile (\<lambda>x. x \<le> key) ks ! k" "\<lambda>x. x \<le> key" ks]
    by (metis m_def nth_mem takeWhile_nth)
  have hi: "key < ks ! m" if "m < length ts"
    using nth_length_takeWhile [of "\<lambda>x. x \<le> key" ks] that ks(1) by (simp add: m_def)
  have hi': "key < ks ! k" if "m \<le> k" "k < length ts" for k
    using hi that sorted_nth_mono [OF assms(5), of m k] ks(1) by fastforce
  have "child_best n key 0 None = Some (if 0 = m then None else Some (m - 1))"
    by (rule child_best_eq [where cs = "map nid ts"]) (use nn m lo hi ks(2) in auto)
  then have cs: "child_slot t (Some a) key = Some (m - 1)"
    using n nn by (simp add: child_slot_def internal_at_def)
  have "m - 1 < length ts" using m n(4) by (cases ts) auto
  moreover have "m - 1 = 0 \<or> ks ! (m - 1) \<le> key" using lo [of "m - 1"] by (cases m) auto
  moreover have "key < ks ! k" if "m - 1 < k" "k < length ts" for k
    by (rule hi') (use that in auto)
  ultimately show ?thesis using cs by blast
qed

lemma ordered_member_fk:
  assumes "ordered V (flat t)" "ne t" "f \<in> set (flat t)"
  shows "fk V t \<le> adr V f"
proof -
  obtain x xs where x: "flat t = x # xs" using ne_flat [OF assms(2)] by (cases "flat t") auto
  then have "fk V t = adr V x" by (simp add: fk_def area_of_def)
  with x assms ordered_less [OF assms(1), of x] show ?thesis by (auto simp: ordered_Cons)
qed

lemma sorted_fks:
  "ordered V (concat (map flat ts)) \<Longrightarrow> \<forall>t\<in>set ts. ne t \<Longrightarrow> sorted (map (fk V) ts)"
proof (induction ts)
  case (Cons t ts)
  have "fk V t \<le> fk V u" if u: "u \<in> set ts" for u
  proof -
    have ord: "ordered V (flat t)" "ordered V (flat u)" "\<forall>e\<in>set (flat t). \<forall>f\<in>set (flat u). fin V e \<le> adr V f"
      using Cons.prems(1) u ordered_member [of V ts u] by (auto simp: ordered_append)
    obtain x xs y ys where xy: "flat t = x # xs" "flat u = y # ys"
      using Cons.prems(2) u ne_flat [of t] ne_flat [of u] by (cases "flat t"; cases "flat u") auto
    then have "fk V t = adr V x" "fk V u = adr V y" by (simp_all add: fk_def area_of_def)
    with xy ord ordered_less [OF ord(1), of x] show ?thesis by force
  qed
  with Cons show ?case by (auto simp: ordered_append)
qed simp

subsection \<open>The leaf that a key selects\<close>

definition leaf_for :: "vma_mem \<Rightarrow> nat \<Rightarrow> mtree \<Rightarrow> (nat \<times> nat list) list \<Rightarrow> nat \<Rightarrow> nat list \<Rightarrow> (nat \<times> nat list) list \<Rightarrow> bool" where
  "leaf_for V key T A a fs B \<longleftrightarrow> lvs T = A @ (a, fs) # B \<and> fs \<noteq> [] \<and> (A = [] \<or> adr V (hd fs) \<le> key)
     \<and> (\<forall>f\<in>set (concat (map snd B)). key < adr V f)"

lemma find_leaf_from_rep:
  assumes "srep (tnodes t) p T" "kok V (tnodes t) T" "ne T" "ordered V (flat T)"
  shows "\<exists>A a fs B. find_leaf_from t key (nid T) = Some (Some a) \<and> leaf_for V key T A a fs B"
  using assms
proof (induction T arbitrary: p rule: ne.induct)
  case (1 a es)
  then have "find_leaf_from t key a = Some (Some a)"
    by (subst find_leaf_from.simps) (auto simp: lnode_def)
  with 1 show ?case
    by (intro exI [of _ "[]"] exI [of _ a] exI [of _ es]) (simp add: leaf_for_def)
next
  case (2 a ts)
  obtain n where n: "tnodes t a = Some n" "take (length ts) (keys n) = map (fk V) ts"
    using "2.prems"(2) by (auto simp: knode_def)
  have nn: "kind n = Internal" "ncount n = length ts" "children n = pad (map nid ts)" using n "2.prems"(1) by (auto simp: inode_def)
  have so: "sorted (map (fk V) ts)" by (rule sorted_fks) (use "2.prems"(3,4) in auto)
  obtain j where j: "j < length ts" "child_slot t (Some a) key = Some j" "j = 0 \<or> fk V (ts ! j) \<le> key"
    "\<And>k. j < k \<Longrightarrow> k < length ts \<Longrightarrow> key < fk V (ts ! k)"
    using child_slot_eq [OF n(1) _ n(2) _ so, of "p" key] "2.prems"(1,3) by auto
  define ls u rs where "ls = take j ts" and "u = ts ! j" and "rs = drop (Suc j) ts"
  have ts: "ts = ls @ u # rs" using j(1) by (simp add: ls_def u_def rs_def id_take_nth_drop)
  have ut: "u \<in> set ts" using ts by simp
  have "\<exists>A b fs B. find_leaf_from t key (nid u) = Some (Some b) \<and> leaf_for V key u A b fs B"
  proof (rule "2.IH" [OF ut])
    show "srep (tnodes t) (Some a) u" "kok V (tnodes t) u" "ne u" using "2.prems" ut by auto
    show "ordered V (flat u)" using "2.prems"(4) ut ordered_member by simp
  qed
  then obtain A b fs B where b: "find_leaf_from t key (nid u) = Some (Some b)" "leaf_for V key u A b fs B"
    by blast
  have "find_leaf_from t key a = Some (Some b)"
    using n nn j(1,2) b(1) by (subst find_leaf_from.simps) (simp add: u_def)
  moreover have "leaf_for V key (IN a ts) (concat (map lvs ls) @ A) b fs (B @ concat (map lvs rs))"
  proof -
    have "adr V (hd fs) \<le> key" if "A = []" "ls \<noteq> []"
    proof -
      have "flat u = fs @ concat (map snd B)" using b(2) that(1) by (simp add: flat_lvs leaf_for_def)
      then have "fk V u = adr V (hd fs)" using b(2) by (simp add: fk_def area_of_def leaf_for_def)
      with j(3) that(2) show ?thesis by (auto simp: ls_def u_def)
    qed
    moreover have "key < adr V f" if "r \<in> set rs" "f \<in> set (flat r)" for r f
    proof -
      obtain k where k: "k < length rs" "r = rs ! k" using \<open>r \<in> set rs\<close> by (auto simp: in_set_conv_nth)
      then have "key < fk V r" using j(4) [of "Suc j + k"] by (simp add: rs_def)
      also have "fk V r \<le> adr V f"
      proof (rule ordered_member_fk)
        show "ordered V (flat r)" "ne r"
          using "2.prems"(3,4) that(1) ts ordered_member [of V ts r] by auto
        show "f \<in> set (flat r)" by fact
      qed
      finally show ?thesis .
    qed
    moreover have "set (concat (map snd (concat (map lvs rs)))) = (\<Union>r\<in>set rs. set (flat r))"
      by (auto simp: flat_lvs)
    ultimately show ?thesis using b(2) ts unfolding leaf_for_def by (cases "ls = []") auto
  qed
  ultimately show ?case by auto
qed

subsection \<open>A leaf and its neighbours\<close>

abbreviation ents :: "(nat \<times> nat list) list \<Rightarrow> nat list" where
  "ents L \<equiv> concat (map snd L)"

lemma leaf_view:
  assumes "tree_of V t T" "lvs T = A @ (a, fs) # B"
  obtains n where "tnodes t a = Some n" "leaf_at t a = Some n" "entries n = pad fs" "ncount n = length fs" "length fs \<le> 12" "fs \<noteq> []"
    "prev_leaf n = olast None (map fst A)" "next_leaf n = ohd (map fst B) None"
proof -
  obtain c where c: "T = plug (LF a fs) c" using leaf_context [OF assms(2)] by blast
  have "lnode (tnodes t) a (cpar c) fs" "wft (LF a fs)" using assms(1) c by (auto simp: tree_of_def mtree)
  moreover have "chain (tnodes t) None (map fst A @ a # map fst B) None" using assms by (simp add: tree_of_def)
  then have "link (tnodes t) a (olast None (map fst A)) (ohd (map fst B) None)" by simp
  ultimately show ?thesis using that by (auto simp: lnode_def link_def leaf_at_def)
qed

lemma scan_down_nonnull_pad [simp]: "0 < k \<Longrightarrow> k \<le> length xs \<Longrightarrow> scan_down nonnull (pad xs) k = Some (Some (k - 1))"
  by (cases k) (simp_all add: nonnull_def)

lemma last_entry_rep:
  assumes "tree_of V t T" "lvs T = A @ B"
  shows "last_entry t (olast None (map fst A)) = Some (olast None (ents A))"
proof (cases A rule: rev_cases)
  case Nil
  then show ?thesis by (simp add: last_entry_def)
next
  case (snoc A' x)
  obtain b gs where x: "x = (b, gs)" by (cases x)
  with snoc assms have "lvs T = A' @ (b, gs) # B" by simp
  from leaf_view [OF assms(1) this] obtain n where n: "leaf_at t b = Some n" "entries n = pad gs" "ncount n = length gs" "gs \<noteq> []"
    by metis
  then have "last_entry t (Some b) = Some (Some (last gs))"
    by (simp add: last_entry_def last_conv_nth)
  with snoc x n(4) show ?thesis by (simp add: olast_def)
qed

lemma entry_from_eq: "entries n = pad fs \<Longrightarrow> ncount n = length fs \<Longrightarrow> i \<le> length fs \<Longrightarrow> entry_from n i = Some (ohd (drop i fs) None)"
  by (cases "i < length fs") (simp_all add: entry_from_def Cons_nth_drop_Suc [symmetric])

lemma next_leaf_first_rep:
  assumes "tree_of V t T" "lvs T = A @ (a, fs) # B" "next_leaf n = ohd (map fst B) None"
  shows "next_leaf_first t n = Some (ohd (ents B) None)"
proof (cases B)
  case Nil
  with assms show ?thesis by (simp add: next_leaf_first_def)
next
  case (Cons x B')
  obtain b gs where x: "x = (b, gs)" by (cases x)
  with Cons assms have "lvs T = (A @ [(a, fs)]) @ (b, gs) # B'" by simp
  from leaf_view [OF assms(1) this] obtain m where m: "leaf_at t b = Some m" "entries m = pad gs" "ncount m = length gs" "gs \<noteq> []"
    by metis
  with Cons x assms(3) show ?thesis
    by (simp add: next_leaf_first_def entry_from_eq ohd_def split: list.split)
qed

subsection \<open>Slots\<close>

lemma scan_addr:
  assumes "known V fs"
  shows "scan (addr_test V P) (pad fs) 0 (length fs) =
    Some (let G = takeWhile (\<lambda>e. \<not> P (adr V e)) fs in if length G = length fs then None else Some (length G))"
proof -
  let ?G = "takeWhile (\<lambda>e. \<not> P (adr V e)) fs" and ?H = "dropWhile (\<lambda>e. \<not> P (adr V e)) fs"
  let ?R = "replicate (13 - length fs) None"
  have t: "addr_test V P (Some e) = Some (P (adr V e))" if "e \<in> set fs" for e
    using that assms by (auto simp: known_def addr_test_def area_of_def)
  have G: "\<forall>x\<in>set (map Some ?G). addr_test V P x = Some False"
    using t set_takeWhileD by fastforce
  show ?thesis
  proof (cases ?H)
    case Nil
    then have "?G = fs" by (metis append_Nil2 takeWhile_dropWhile_id)
    then show ?thesis using scan_miss [OF G, of ?R] unfolding pad_def by (simp only: length_map Let_def simp_thms if_True)
  next
    case (Cons e H)
    then have fs: "fs = ?G @ e # H" by (metis takeWhile_dropWhile_id)
    then have e: "e \<in> set fs" by (metis in_set_conv_decomp)
    have "P (adr V e)" using Cons by (metis dropWhile_eq_Cons_conv)
    then have "addr_test V P (Some e) = Some True" using t e by simp
    moreover have len: "length ?G < length fs" by (subst (2) fs) simp
    moreover have "pad fs = map Some ?G @ Some e # map Some H @ ?R"
      unfolding pad_def by (subst (1) fs) simp
    ultimately show ?thesis using scan_hit [OF G, of "Some e" "length fs" "map Some H @ ?R"] by simp
  qed
qed

lemma find_entry_slot_eq:
  assumes "known V fs" "leaf_at t a = Some n" "entries n = pad fs" "ncount n = length fs"
  shows "find_entry_slot V t (Some a) key = Some (length (takeWhile (\<lambda>e. adr V e < key) fs))"
  using assms scan_addr [OF assms(1), of "\<lambda>x. x \<ge> key"]
  by (simp add: find_entry_slot_def Let_def not_le)

lemma upper_bound_slot_eq:
  assumes "known V fs" "leaf_at t a = Some n" "entries n = pad fs" "ncount n = length fs"
  shows "upper_bound_slot V t (Some a) key = Some (length (takeWhile (\<lambda>e. adr V e \<le> key) fs))"
  using assms scan_addr [OF assms(1), of "\<lambda>x. x > key"]
  by (simp add: upper_bound_slot_def Let_def not_less)

subsection \<open>Finding\<close>

text \<open>The situation of every query: the selected leaf, its neighbours, and the list of areas around it.\<close>

lemma find_leaf_rep:
  assumes "index_inv V t es" "es \<noteq> []"
  obtains T A a fs B n where "tree_of V t T" "leaf_for V key T A a fs B" "find_leaf t key = Some (Some a)"
    "leaf_at t a = Some n" "entries n = pad fs" "ncount n = length fs" "es = ents A @ fs @ ents B"
    "prev_leaf n = olast None (map fst A)" "next_leaf n = ohd (map fst B) None" "fs \<noteq> []" "known V fs"
    "\<forall>e\<in>set (ents A). adr V e < key"
proof -
  obtain T where T: "tree_of V t T" "flat T = es" using assms by (auto simp: index_inv_def)
  have o: "ordered V (flat T)" using assms T by (simp add: index_inv_def)
  obtain A a fs B where a: "find_leaf_from t key (nid T) = Some (Some a)" "leaf_for V key T A a fs B"
    using find_leaf_from_rep [of t None T V key] T(1) o wft_ne [of T] unfolding tree_of_def by blast
  have f: "find_leaf t key = Some (Some a)" using a(1) T(1) by (simp add: find_leaf_def tree_of_def)
  have l: "lvs T = A @ (a, fs) # B" using a(2) by (simp add: leaf_for_def)
  then have es: "es = ents A @ fs @ ents B" using T(2) by (simp add: flat_lvs)
  obtain n where n: "leaf_at t a = Some n" "entries n = pad fs" "ncount n = length fs" "fs \<noteq> []"
    "prev_leaf n = olast None (map fst A)" "next_leaf n = ohd (map fst B) None"
    using leaf_view [OF T(1) l] by metis
  have o2: "ordered V (ents A @ fs @ ents B)" using o T(2) es by simp
  have "adr V e < key" if e: "e \<in> set (ents A)" for e
  proof -
    have "A \<noteq> []" using e by auto
    moreover have "fin V e \<le> adr V (hd fs)" using o2 e n(4) by (auto simp: ordered_append)
    moreover have "adr V e < fin V e" using o2 e ordered_less [OF o2, of e] by simp
    ultimately show ?thesis using a(2) by (auto simp: leaf_for_def)
  qed
  moreover have "known V fs" using ordered_known [OF o2] by simp
  ultimately show ?thesis using that [OF T(1) a(2) f n(1-3) es n(5,6,4)] by blast
qed

lemma find_skip: "\<forall>x\<in>set A. \<not> P x \<Longrightarrow> find P (A @ B) = find P B"
  by (induction A) auto

lemma find_ohd: "\<forall>x\<in>set A. P x \<Longrightarrow> find P A = ohd A None"
  by (cases A) auto

lemma find_split: "find P es = Some e \<Longrightarrow> \<exists>X Y. es = X @ e # Y \<and> P e \<and> (\<forall>x\<in>set X. \<not> P x)"
proof (induction es)
  case (Cons x es)
  show ?case
  proof (cases "P x")
    case True
    with Cons show ?thesis by (intro exI [of _ "[]"] exI [of _ es]) auto
  next
    case False
    with Cons obtain X Y where "es = X @ e # Y" "P e" "\<forall>x\<in>set X. \<not> P x" by auto
    with False show ?thesis by (intro exI [of _ "x # X"] exI [of _ Y]) auto
  qed
qed simp

lemma find_none: "\<forall>x\<in>set A. \<not> P x \<Longrightarrow> find P A = None"
  using find_skip [of A P "[]"] by simp

lemma empty_find_leaf: "index_inv V t [] \<Longrightarrow> find_leaf t key = Some None"
  by (simp add: index_inv_def find_leaf_def)

lemma drop_takeWhile [simp]: "drop (length (takeWhile P xs)) xs = dropWhile P xs"
  by (simp add: dropWhile_eq_drop)

lemma lower_bound_rep:
  assumes "index_inv V t es"
  shows "lower_bound V t start = Some (find (\<lambda>e. start \<le> adr V e) es)"
proof (cases "es = []")
  case True
  with assms show ?thesis by (simp add: lower_bound_def empty_find_leaf)
next
  case False
  obtain T A a fs B n where T: "tree_of V t T" "leaf_for V start T A a fs B" "find_leaf t start = Some (Some a)"
    and n: "leaf_at t a = Some n" "entries n = pad fs" "ncount n = length fs"
    and es: "es = ents A @ fs @ ents B" "next_leaf n = ohd (map fst B) None" "known V fs" "\<forall>e\<in>set (ents A). adr V e < start"
    using find_leaf_rep [OF assms False, of start] by metis
  let ?G = "takeWhile (\<lambda>e. adr V e < start) fs" and ?H = "dropWhile (\<lambda>e. adr V e < start) fs"
  have "next_leaf_first t n = Some (ohd (ents B) None)"
    using T(2) es(2) by (auto simp: leaf_for_def intro: next_leaf_first_rep [OF T(1)])
  moreover have "length ?G \<le> length fs" by (rule length_takeWhile_le)
  ultimately have "lower_bound V t start = Some (case ohd ?H None of Some p \<Rightarrow> Some p | None \<Rightarrow> ohd (ents B) None)"
    using T n es find_entry_slot_eq [OF es(3) n]
    by (simp add: lower_bound_def entry_from_eq split: option.splits)
  also have "(case ohd ?H None of Some p \<Rightarrow> Some p | None \<Rightarrow> ohd (ents B) None) = find (\<lambda>e. start \<le> adr V e) (?H @ ents B)"
  proof (cases ?H)
    case Nil
    have "\<forall>e\<in>set (ents B). start \<le> adr V e" using T(2) by (auto simp: leaf_for_def intro: less_imp_le)
    then have "find (\<lambda>e. start \<le> adr V e) (ents B) = ohd (ents B) None" by (rule find_ohd)
    then show ?thesis unfolding Nil by simp
  next
    case (Cons e H)
    then have "start \<le> adr V e" using dropWhile_eq_Cons_conv [of "\<lambda>e. adr V e < start" fs e H] by simp
    with Cons show ?thesis by simp
  qed
  also have "\<dots> = find (\<lambda>e. start \<le> adr V e) ((ents A @ ?G) @ ?H @ ents B)"
    using es(4) by (intro find_skip [symmetric]) (auto dest: set_takeWhileD simp: not_le)
  also have "(ents A @ ?G) @ ?H @ ents B = es" using es(1) by simp
  finally show ?thesis .
qed

lemma prev_by_start_rep:
  assumes "index_inv V t es"
  shows "prev_by_start V t start = Some (olast None (takeWhile (\<lambda>e. adr V e < start) es))"
proof (cases "es = []")
  case True
  with assms show ?thesis by (simp add: prev_by_start_def empty_find_leaf)
next
  case False
  obtain T A a fs B n where T: "tree_of V t T" "leaf_for V start T A a fs B" "find_leaf t start = Some (Some a)"
    and n: "leaf_at t a = Some n" "entries n = pad fs" "ncount n = length fs"
    and es: "es = ents A @ fs @ ents B" "prev_leaf n = olast None (map fst A)" "known V fs" "\<forall>e\<in>set (ents A). adr V e < start"
    using find_leaf_rep [OF assms False, of start] by metis
  let ?G = "takeWhile (\<lambda>e. adr V e < start) fs"
  have l: "length ?G \<le> length fs" by (rule length_takeWhile_le)
  have pl: "last_entry t (prev_leaf n) = Some (olast None (ents A))"
    using T(2) es(2) last_entry_rep [OF T(1), of A] by (simp add: leaf_for_def)
  have "prev_by_start V t start = Some (olast (olast None (ents A)) ?G)"
  proof (cases "?G = []")
    case True
    then show ?thesis using T n es pl find_entry_slot_eq [OF es(3) n] by (simp add: prev_by_start_def)
  next
    case False
    then have "fs ! (length ?G - 1) = last ?G" by (simp add: last_conv_nth takeWhile_nth)
    moreover have "length ?G - 1 < length fs" using l False by (cases ?G) auto
    ultimately show ?thesis using False l T n es pl find_entry_slot_eq [OF es(3) n]
      by (simp add: prev_by_start_def olast_def)
  qed
  also have "olast (olast None (ents A)) ?G = olast None (takeWhile (\<lambda>e. adr V e < start) es)"
  proof -
    have "takeWhile (\<lambda>e. adr V e < start) (ents B) = []"
      using T(2) by (cases "ents B") (auto simp: leaf_for_def simp del: concat_eq_Nil_conv)
    then have "takeWhile (\<lambda>e. adr V e < start) (fs @ ents B) = ?G"
      by (cases "\<forall>x\<in>set fs. adr V x < start") (simp_all add: takeWhile_append takeWhile_eq_all_conv [THEN iffD2])
    then show ?thesis using es(1,4) by (simp add: takeWhile_append)
  qed
  finally show ?thesis .
qed

lemma tree_find_rep:
  assumes "index_inv V t es"
  shows "tree_find V t x = Some (find (\<lambda>e. covers (area_of V e) x) es)"
proof (cases "es = []")
  case True
  with assms show ?thesis by (simp add: tree_find_def empty_find_leaf)
next
  case False
  obtain T A a fs B n where T: "tree_of V t T" "leaf_for V x T A a fs B" "find_leaf t x = Some (Some a)"
    and n: "leaf_at t a = Some n" "entries n = pad fs" "ncount n = length fs"
    and es: "es = ents A @ fs @ ents B" "prev_leaf n = olast None (map fst A)" "known V fs" "fs \<noteq> []"
    using find_leaf_rep [OF assms False, of x] by metis
  have o: "ordered V es" using assms by (simp add: index_inv_def)
  let ?c = "\<lambda>e. covers (area_of V e) x"
  let ?G = "takeWhile (\<lambda>e. adr V e \<le> x) fs" and ?H = "dropWhile (\<lambda>e. adr V e \<le> x) fs"
  let ?R = "map Some ?H @ replicate (13 - length fs) None"
  have fs: "fs = ?G @ ?H" by simp
  have es': "es = ents A @ ?G @ ?H @ ents B" using es(1) by simp
  have ub: "upper_bound_slot V t (Some a) x = Some (length ?G)" by (rule upper_bound_slot_eq [OF es(3) n])
  have pad: "pad fs = map Some ?G @ ?R" unfolding pad_def by (subst (1) fs) (simp only: map_append append_assoc)
  have test: "covers_test V x (Some e) = Some (?c e)" if "e \<in> set fs" for e
    using that es(3) by (auto simp: covers_test_def known_def area_of_def)
  have G: "set ?G \<subseteq> set fs" by (auto dest: set_takeWhileD)
  show ?thesis
  proof (cases "\<exists>e\<in>set ?G. ?c e")
    case True
    then obtain e G1 G2 where e: "?c e" "?G = G1 @ e # G2" by (meson split_list)
    have "es = (ents A @ G1) @ e # (G2 @ ?H @ ents B)" unfolding es' e(2) by simp
    then have u: "\<not> ?c f" if "f \<in> set (ents A @ G1) \<union> set (G2 @ ?H @ ents B)" for f
      using covering_unique [of V "ents A @ G1" e _ x f] o e(1) that by auto
    have "set G2 \<subseteq> set fs" "e \<in> set fs" using G unfolding e(2) by auto
    then have "scan_down (covers_test V x) (map Some G1 @ Some e # map Some G2 @ ?R) (length ?G) = Some (Some (length (map Some G1)))"
      using u e test by (intro scan_down_hit) auto
    then have "scan_down (covers_test V x) (pad fs) (length ?G) = Some (Some (length G1))"
      unfolding pad by (subst e(2)) simp
    moreover have "length G1 < length fs" "fs ! length G1 = e"
      using arg_cong [OF fs, of length] arg_cong [OF fs, of "\<lambda>l. l ! length G1"] unfolding e(2) by (simp_all add: nth_append)
    moreover have "find ?c es = Some e"
      using u \<open>es = (ents A @ G1) @ _\<close> e(1) find_skip [of "ents A @ G1" ?c "e # (G2 @ ?H @ ents B)"] by auto
    ultimately show ?thesis using T n ub by (simp add: tree_find_def)
  next
    case False
    have "scan_down (covers_test V x) (map Some ?G @ ?R) (length (map Some ?G)) = Some None"
      using False test G by (intro scan_down_miss) auto
    then have s: "scan_down (covers_test V x) (pad fs) (length ?G) = Some None" unfolding pad by simp
    have "?G \<noteq> [] \<or> A = []"
      using T(2) es(4) by (cases fs) (auto simp: leaf_for_def split: if_splits)
    then have r: "tree_find V t x = Some None" using T(3) n ub s es(2) by (auto simp: tree_find_def)
    have "\<not> ?c e" if ee: "e \<in> set es" for e
    proof -
      consider "e \<in> set (ents A)" | "e \<in> set ?G" | "e \<in> set ?H" | "e \<in> set (ents B)"
        using ee unfolding es' set_append by blast
      then show ?thesis
      proof cases
        case 1
        have "hd fs \<in> set fs" using es(4) by simp
        then have "fin V e \<le> adr V (hd fs)" using 1 o es(1) by (simp add: ordered_append) blast
        moreover have "A \<noteq> []" using 1 by auto
        ultimately show ?thesis using T(2) covers_iff [OF o ee, of x] by (auto simp: leaf_for_def)
      next
        case 3
        have so: "sorted_wrt (\<lambda>e f. adr V e < adr V f) fs" using ordered_starts [OF o] unfolding es(1) by (simp add: sorted_wrt_append)
        obtain h H where h: "?H = h # H" using 3 by (cases ?H) auto
        then have "x < adr V h" by (metis dropWhile_eq_Cons_conv not_le)
        moreover have "sorted_wrt (\<lambda>e f. adr V e < adr V f) (?G @ ?H)" using so by simp
        then have "sorted_wrt (\<lambda>e f. adr V e < adr V f) (h # H)" unfolding h by (simp add: sorted_wrt_append)
        ultimately have "x < adr V e" using 3 unfolding h by auto
        then show ?thesis by (simp add: covers_def)
      next
        case 4
        then have "x < adr V e" using T(2) unfolding leaf_for_def by blast
        then show ?thesis by (simp add: covers_def)
      qed (use False in blast)
    qed
    with r show ?thesis by (simp add: find_none)
  qed
qed

subsection \<open>Locating an entry\<close>

text \<open>
  The search for an indexed entry only compares pointers, so it succeeds even when the entry has been
  changed since the index was built, as long as the hint is the address it was indexed under.
\<close>

lemma locate_present:
  assumes "index_inv V t es" "e \<in> set es"
  obtains T A a F G B where "tree_of V t T" "lvs T = A @ (a, F @ e # G) # B" "es = ents A @ (F @ e # G) @ ents B"
    "locate_leaf_for_entry W t (Some e) (adr V e) = Some (Some a)"
proof -
  have ne: "es \<noteq> []" using assms(2) by auto
  obtain T A a fs B n where T: "tree_of V t T" "leaf_for V (adr V e) T A a fs B" "find_leaf t (adr V e) = Some (Some a)"
    and n: "leaf_at t a = Some n" "entries n = pad fs" "ncount n = length fs"
    and es: "es = ents A @ fs @ ents B" "\<forall>f\<in>set (ents A). adr V f < adr V e"
    using find_leaf_rep [OF assms(1) ne, of "adr V e"] by metis
  have "e \<notin> set (ents A)" "e \<notin> set (ents B)"
    using es(2) T(2) less_irrefl [of "adr V e"] unfolding leaf_for_def by blast+
  then have "e \<in> set fs" using assms(2) es(1) by auto
  then obtain F G where fs: "fs = F @ e # G" "e \<notin> set F" by (metis split_list_first)
  have "locate_forward W t e (adr V e) (Some a) = Some (Some a)"
    using n fs scan_ptr_hit [OF fs(2), of G] by (subst locate_forward.simps) simp
  then have "locate_leaf_for_entry W t (Some e) (adr V e) = Some (Some a)"
    using T(3) by (simp add: locate_leaf_for_entry_def)
  then show ?thesis using that [of T A a F G B] T es(1) fs(1) by (simp add: leaf_for_def)
qed

lemma first_key_leaf:
  assumes "tree_of V t T" "lvs T = A @ (a, fs) # B" "known W fs"
  shows "\<exists>k. first_key W t (Some a) = Some k"
proof -
  obtain c where c: "T = plug (LF a fs) c" using leaf_context [OF assms(2)] by blast
  have "srep (tnodes t) (cpar c) (LF a fs)" "ne (LF a fs)" using assms(1) c by (auto simp: tree_of_def mtree)
  then show ?thesis using first_key_rep [of t "cpar c" "LF a fs" W] assms(3) by simp
qed

lemma locate_forward_absent:
  assumes "tree_of V t T" "lvs T = A @ L" "known W (ents L)" "e \<notin> set (ents L)"
  shows "locate_forward W t e key (ohd (map fst L) None) = Some None"
  using assms(2-)
proof (induction L arbitrary: A)
  case Nil
  show ?case by (subst locate_forward.simps) simp
next
  case (Cons x L)
  obtain a fs where x: "x = (a, fs)" by (cases x)
  have l: "lvs T = A @ (a, fs) # L" using Cons x by simp
  obtain n where n: "leaf_at t a = Some n" "entries n = pad fs" "ncount n = length fs" "next_leaf n = ohd (map fst L) None"
    using leaf_view [OF assms(1) l] by metis
  obtain k where k: "first_key W t (Some a) = Some k"
    using first_key_leaf [OF assms(1) l, of W] Cons.prems x by auto
  have IH: "locate_forward W t e key (ohd (map fst L) None) = Some None"
    by (rule Cons.IH [of "A @ [x]"]) (use Cons.prems in auto)
  have "scan (is_ptr e) (pad fs) 0 (length fs) = Some None"
    using Cons.prems x by (intro scan_ptr_miss) auto
  then show ?case using n k IH x by (subst locate_forward.simps) simp
qed

lemma locate_backward_absent:
  assumes "tree_of V t T" "lvs T = A @ L" "known W (ents A)" "e \<notin> set (ents A)"
  shows "locate_backward W t e key (olast None (map fst A)) = Some None"
  using assms(2-)
proof (induction A arbitrary: L rule: rev_induct)
  case Nil
  show ?case by (subst locate_backward.simps) simp
next
  case (snoc x A)
  obtain a fs where x: "x = (a, fs)" by (cases x)
  have l: "lvs T = A @ (a, fs) # L" using snoc x by simp
  obtain n where n: "leaf_at t a = Some n" "entries n = pad fs" "ncount n = length fs" "prev_leaf n = olast None (map fst A)" "fs \<noteq> []"
    using leaf_view [OF assms(1) l] by metis
  have "last_entry t (olast None (map fst (A @ [x]))) = Some (olast None (ents (A @ [x])))"
    by (rule last_entry_rep [OF assms(1)]) (use snoc in auto)
  then have le: "last_entry t (Some a) = Some (Some (last fs))" using x n(5) by (simp add: olast_def)
  have "W (last fs) \<noteq> None" using snoc.prems x n(5) by (simp add: known_def)
  then obtain b where b: "addr_test W (\<lambda>a. a < key) (Some (last fs)) = Some b" by (auto simp: addr_test_def)
  have IH: "locate_backward W t e key (olast None (map fst A)) = Some None"
    by (rule snoc.IH [of "x # L"]) (use snoc.prems in auto)
  have "scan (is_ptr e) (pad fs) 0 (length fs) = Some None"
    using snoc.prems x by (intro scan_ptr_miss) auto
  then show ?case using n le b IH x by (subst locate_backward.simps) simp
qed

lemma locate_absent:
  assumes "index_inv V t es" "e \<notin> set es"
  shows "locate_leaf_for_entry V t (Some e) key = Some None"
proof (cases "es = []")
  case True
  with assms show ?thesis by (simp add: locate_leaf_for_entry_def empty_find_leaf)
next
  case False
  obtain T A a fs B n where T: "tree_of V t T" "leaf_for V key T A a fs B" "find_leaf t key = Some (Some a)"
    and n: "leaf_at t a = Some n" and es: "es = ents A @ fs @ ents B" "prev_leaf n = olast None (map fst A)"
    using find_leaf_rep [OF assms(1) False, of key] by metis
  have k: "known V es" using assms(1) ordered_known by (auto simp: index_inv_def)
  have "locate_forward V t e key (ohd (map fst ((a, fs) # B)) None) = Some None"
    by (rule locate_forward_absent [OF T(1), of A]) (use T(2) k es assms(2) in \<open>auto simp: leaf_for_def\<close>)
  moreover have "locate_backward V t e key (olast None (map fst A)) = Some None"
    by (rule locate_backward_absent [OF T(1), of A]) (use T(2) k es assms(2) in \<open>auto simp: leaf_for_def\<close>)
  ultimately show ?thesis using T(3) n es(2) by (simp add: locate_leaf_for_entry_def)
qed

subsection \<open>Neighbours\<close>

lemma split_unique: "distinct (X @ e # Y) \<Longrightarrow> X @ e # Y = X' @ e # Y' \<Longrightarrow> X = X' \<and> Y = Y'"
  by (metis append_Cons_eq_iff distinct.simps(2) distinct_append Int_iff list.set_intros(1) empty_iff not_distinct_conv_prefix)

lemma tree_next_rep:
  assumes "index_inv V t (X @ e # Y)"
  shows "tree_next V t (Some e) = Some (ohd Y None)"
proof -
  let ?es = "X @ e # Y"
  have o: "ordered V ?es" using assms by (simp add: index_inv_def)
  obtain T A a F G B where T: "tree_of V t T" "lvs T = A @ (a, F @ e # G) # B" "?es = ents A @ (F @ e # G) @ ents B"
    "locate_leaf_for_entry V t (Some e) (adr V e) = Some (Some a)"
    by (rule locate_present [OF assms, of e V]) auto
  obtain n where n: "leaf_at t a = Some n" "entries n = pad (F @ e # G)" "ncount n = length (F @ e # G)" "next_leaf n = ohd (map fst B) None"
    using leaf_view [OF T(1,2)] by metis
  have Y: "Y = G @ ents B" "e \<notin> set F"
    using split_unique [OF ordered_distinct [OF o], of "ents A @ F" "G @ ents B"] ordered_distinct [OF o] T(3) by auto
  have "entry_from n (length F + 1) = Some (ohd G None)" using entry_from_eq [OF n(2,3), of "length F + 1"] by simp
  moreover have "next_leaf_first t n = Some (ohd (ents B) None)" by (rule next_leaf_first_rep [OF T(1,2) n(4)])
  moreover have "scan (is_ptr e) (pad (F @ e # G)) 0 (length F + Suc (length G)) = Some (Some (length F))" by (rule scan_ptr_hit [OF Y(2)])
  ultimately show ?thesis using n T(4) Y(1) ordered_mem [OF o, of e]
    by (cases G) (simp_all add: tree_next_def)
qed

lemma tree_prev_rep:
  assumes "index_inv V t (X @ e # Y)"
  shows "tree_prev V t (Some e) = Some (olast None X)"
proof -
  let ?es = "X @ e # Y"
  have o: "ordered V ?es" using assms by (simp add: index_inv_def)
  obtain T A a F G B where T: "tree_of V t T" "lvs T = A @ (a, F @ e # G) # B" "?es = ents A @ (F @ e # G) @ ents B"
    "locate_leaf_for_entry V t (Some e) (adr V e) = Some (Some a)"
    by (rule locate_present [OF assms, of e V]) auto
  obtain n where n: "leaf_at t a = Some n" "entries n = pad (F @ e # G)" "ncount n = length (F @ e # G)" "prev_leaf n = olast None (map fst A)"
    using leaf_view [OF T(1,2)] by metis
  have X: "X = ents A @ F" "e \<notin> set F"
    using split_unique [OF ordered_distinct [OF o], of "ents A @ F" "G @ ents B"] ordered_distinct [OF o] T(3) by auto
  have "last_entry t (prev_leaf n) = Some (olast None (ents A))" using last_entry_rep [OF T(1,2)] n(4) by simp
  moreover have "scan (is_ptr e) (pad (F @ e # G)) 0 (length F + Suc (length G)) = Some (Some (length F))" by (rule scan_ptr_hit [OF X(2)])
  ultimately show ?thesis using n T(4) X(1) ordered_mem [OF o, of e]
    by (cases F rule: rev_cases) (simp_all add: tree_prev_def nth_append nonnull_def)
qed

lemma tree_next_absent:
  "index_inv V t es \<Longrightarrow> e \<notin> set es \<Longrightarrow> V e \<noteq> None \<Longrightarrow> tree_next V t (Some e) = Some None"
  using locate_absent [of V t es e] by (auto simp: tree_next_def)

subsection \<open>Conflicts\<close>

lemma find_covers_Some:
  assumes "find (\<lambda>e. covers (area_of V e) x) es = Some e"
  shows "e \<in> set es" "covers (area_of V e) x"
  using assms by (auto simp: find_Some_iff)

lemma has_conflict_rep:
  assumes "index_inv V t es"
  shows "has_conflict V t start stop None = Some (start < stop \<and> (\<exists>e\<in>set es. overlaps (area_of V e) start stop))"
proof (cases "start < stop")
  case False
  then show ?thesis by (simp add: has_conflict_def)
next
  case True
  have o: "ordered V es" using assms by (simp add: index_inv_def)
  note q = tree_find_rep [OF assms, of start] lower_bound_rep [OF assms, of start]
  show ?thesis
  proof (cases "find (\<lambda>e. covers (area_of V e) start) es")
    case (Some e)
    then have "overlaps (area_of V e) start stop" "e \<in> set es"
      using find_covers_Some [OF Some] True by (auto simp: covers_def overlaps_def)
    with Some q True show ?thesis by (auto simp: has_conflict_def)
  next
    case nocover: None
    then have nc: "\<And>e. e \<in> set es \<Longrightarrow> adr V e < start \<Longrightarrow> fin V e \<le> start"
      using o by (auto simp: find_None_iff covers_iff)
    show ?thesis
    proof (cases "find (\<lambda>e. start \<le> adr V e) es")
      case None
      then have "\<not> overlaps (area_of V e) start stop" if "e \<in> set es" for e
        using nc that by (force simp: find_None_iff overlaps_def)
      with nocover None q True show ?thesis by (auto simp: has_conflict_def)
    next
      case (Some e)
      then obtain X Y where es: "es = X @ e # Y" "start \<le> adr V e" "\<forall>x\<in>set X. adr V x < start"
        using find_split [OF Some] by (auto simp: not_le)
      have "overlaps (area_of V e) start stop \<longleftrightarrow> adr V e < stop"
        using es o ordered_less [OF o, of e] by (auto simp: overlaps_def ordered_append ordered_Cons)
      moreover have "\<not> overlaps (area_of V x) start stop" if "x \<in> set X" for x
        using nc [of x] es that by (auto simp: overlaps_def)
      moreover have "adr V e < stop" if "x \<in> set Y" "overlaps (area_of V x) start stop" for x
        using o es that ordered_less [OF o, of e] by (fastforce simp: overlaps_def ordered_append ordered_Cons)
      ultimately have "(\<exists>x\<in>set es. overlaps (area_of V x) start stop) \<longleftrightarrow> adr V e < stop" using es(1) by auto
      with nocover Some q True es ordered_mem [OF o, of e] show ?thesis by (auto simp: has_conflict_def)
    qed
  qed
qed

end
