(* ===== verification/Vma_Split.thy ===== *)
theory Vma_Split
  imports Vma_Query
begin

text \<open>
  Moving parts of the index: changing the parent of a subtree, splitting a full inner node, refreshing
  the ancestors of a changed subtree, and growing a new root. \<open>pending\<close> describes the index
  between the split of a node and the hanging in of its right half, \<open>holds\<close> the finished index.
\<close>

declare upt_rec_numeral [simp del]

lemma InternalNode_sel [simp]:
  "kind InternalNode = Internal" "ncount InternalNode = 0" "parent InternalNode = None"
  "keys InternalNode = replicate 13 0" "children InternalNode = replicate 13 None"
  by (simp_all add: InternalNode_def k_internal_capacity_def numeral_eq_Suc)

lemma LeafNode_sel [simp]:
  "kind LeafNode = Leaf" "ncount LeafNode = 0" "parent LeafNode = None" "entries LeafNode = replicate 13 None"
  by (simp_all add: LeafNode_def k_leaf_capacity_def numeral_eq_Suc)

lemma same_upd [simp]:
  "x \<noteq> a \<Longrightarrow> same_node h (g(a := y)) x = same_node h g x"
  "x \<noteq> a \<Longrightarrow> same_keys h (g(a := y)) x = same_keys h g x"
  "x \<noteq> a \<Longrightarrow> same_links h (g(a := y)) x = same_links h g x"
  by (simp_all add: same_node_def same_keys_def same_links_def)

subsection \<open>Moving nodes\<close>

lemma srep_reparent:
  assumes "srep h p t" "map_option shape (h' (nid t)) = map_option shape (h (nid t))" "map_option parent (h' (nid t)) = Some q"
    and "\<forall>x\<in>set (ids t) - {nid t}. same_node h h' x" and "distinct (ids t)"
  shows "srep h' q t"
proof (cases t)
  case (LF a es)
  with assms show ?thesis by (cases "h a"; cases "h' a") (auto simp: lnode_def shape_def)
next
  case (IN a ts)
  have "srep h' (Some a) u" if u: "u \<in> set ts" for u
  proof -
    have "\<forall>x\<in>set (ids u). same_node h h' x" using assms(4,5) u IN by auto
    from srep_cong [OF this, of "Some a"] show ?thesis using assms(1) u IN by simp
  qed
  moreover have "inode h' a q (map nid ts)"
    using assms(1-3) IN by (cases "h a"; cases "h' a") (auto simp: inode_def shape_def)
  ultimately show ?thesis using IN by simp
qed

definition reparent :: "nat \<Rightarrow> nat set \<Rightarrow> heap \<Rightarrow> heap" where
  "reparent b X h = (\<lambda>x. if x \<in> X then map_option (\<lambda>m. m\<lparr>parent := Some b\<rparr>) (h x) else h x)"

lemma reparent_same [simp]: "same_keys h (reparent b X h) x" "same_links h (reparent b X h) x"
  "map_option shape (reparent b X h x) = map_option shape (h x)"
  by (cases "h x"; simp add: reparent_def same_keys_def same_links_def shape_def)+

lemma reparent_dom [simp]: "dom (reparent b X h) = dom h"
  by (auto simp: reparent_def dom_def split: if_splits)

lemma reparent_out [simp]: "x \<notin> X \<Longrightarrow> reparent b X h x = h x"
  by (simp add: reparent_def)

lemma srep_in_dom: "srep h p t \<Longrightarrow> set (ids t) \<subseteq> dom h"
  by (induction h p t rule: srep.induct) (auto simp: lnode_def inode_def)

lemma srep_reparent_set:
  assumes "srep h p t" "nid t \<in> X" "X \<inter> set (ids t) = {nid t}" "distinct (ids t)"
  shows "srep (reparent b X h) (Some b) t"
proof (rule srep_reparent [OF assms(1) _ _ _ assms(4)])
  obtain m where "h (nid t) = Some m" using srep_in_dom [OF assms(1)] nid_in_ids [of t] by blast
  then show "map_option parent (reparent b X h (nid t)) = Some (Some b)" using assms(2) by (simp add: reparent_def)
  show "\<forall>x\<in>set (ids t) - {nid t}. same_node h (reparent b X h) x"
    using assms(3) by (auto simp: reparent_def same_node_def)
qed simp

lemma srep_reparent_out:
  assumes "srep h p t" "X \<inter> set (ids t) = {}"
  shows "srep (reparent b X h) p t"
proof -
  have "\<forall>x\<in>set (ids t). same_node h (reparent b X h) x" 
    using assms(2) reparent_out [of _ X b h] by (metis disjoint_iff same_node_def)
  from srep_cong [OF this, of p] assms(1) show ?thesis by simp
qed

subsection \<open>Splitting an inner node\<close>

lemma distinct_nids: "distinct (concat (map ids ts)) \<Longrightarrow> distinct (map nid ts)"
proof (induction ts)
  case (Cons t ts)
  have "nid t \<notin> set (map nid ts)"
  proof
    assume "nid t \<in> set (map nid ts)"
    then obtain u where "u \<in> set ts" "nid t \<in> set (ids u)" using nid_in_ids by (metis imageE list.set_map)
    then show False using Cons.prems nid_in_ids [of t] by (auto simp: disjoint_iff)
  qed
  with Cons show ?case by simp
qed simp

lemma move_children:
  assumes s: "tnodes s a = Some n" "kind n = Internal" "children n = map Some cs" "length cs = 13"
    and b: "tnodes s b = Some r" "kind r = Internal" "children r = replicate 13 None" "a \<noteq> b"
    and d: "distinct cs" "a \<notin> set cs" "b \<notin> set cs" "set cs \<subseteq> dom (tnodes s)"
  shows "for_each (move_child a b 6) [0..<7] s =
    Some (s\<lparr>tnodes := (reparent b (set (drop 6 cs)) (tnodes s))(a \<mapsto> n\<lparr>children := pad (take 6 cs)\<rparr>, b \<mapsto> r\<lparr>children := pad (drop 6 cs)\<rparr>)\<rparr>)"
proof -
  define qs where "qs = drop 6 cs"
  let ?na = "\<lambda>k. n\<lparr>children := map Some (take 6 cs) @ replicate k None @ map Some (drop k qs)\<rparr>"
  let ?nb = "\<lambda>k. r\<lparr>children := map Some (take k qs) @ replicate (13 - k) None\<rparr>"
  let ?S = "\<lambda>k. s\<lparr>tnodes := (reparent b (set (take k qs)) (tnodes s))(a \<mapsto> ?na k, b \<mapsto> ?nb k)\<rparr>"
  have lq: "length qs = 7" "set qs \<subseteq> set cs" using s(4) by (auto simp: qs_def dest: in_set_dropD)
  have "for_each (move_child a b 6) [0..<7] (?S 0) = Some (?S 7)"
  proof (rule for_each_upt)
    fix k :: nat assume k: "k < 7"
    define q where "q = qs ! k"
    have q: "q \<in> set cs" "q \<noteq> a" "q \<noteq> b" "q \<notin> set (take k qs)"
    proof -
      show "q \<in> set cs" using lq k by (auto simp: q_def)
      then show "q \<noteq> a" "q \<noteq> b" using d by auto
      have "distinct qs" using d(1) by (simp add: qs_def)
      then show "q \<notin> set (take k qs)" using k lq(1)
        by (auto simp: q_def in_set_conv_nth nth_eq_iff_index_eq)
    qed
    obtain m where m: "tnodes s q = Some m" using q(1) d(4) by blast
    have c1: "arr_get (children (?na k)) (6 + k) = Some (Some q)"
      using k lq s(4) by (simp add: arr_get_def nth_append q_def)
    have c2: "arr_set (children (?nb k)) k (Some q) = Some (children (?nb (Suc k)))"
      using k lq by (simp add: arr_set_def list_update_append take_Suc_conv_app_nth q_def Suc_diff_Suc [symmetric] min_def)
    have c3: "arr_set (children (?na k)) (6 + k) None = Some (children (?na (Suc k)))"
      using k lq s(4) by (simp add: arr_set_def list_update_append Cons_nth_drop_Suc [symmetric] replicate_app_Cons_same)
    have "move_child a b 6 k (?S k) =
        Some (s\<lparr>tnodes := (reparent b (set (take k qs)) (tnodes s))(a \<mapsto> ?na k, b \<mapsto> ?nb k, b \<mapsto> ?nb (Suc k), q \<mapsto> m\<lparr>parent := Some b\<rparr>, a \<mapsto> ?na (Suc k))\<rparr>)"
      using c1 c2 c3 q m s b by (simp add: move_child_def internal_at_def set_node_def)
    also have "\<dots> = Some (?S (Suc k))"
      using q m b(4) k lq(1) by (auto simp: fun_eq_iff reparent_def take_Suc_conv_app_nth q_def [symmetric])
    finally show "move_child a b 6 k (?S k) = Some (?S (Suc k))" .
  qed
  moreover have "?S 0 = s"
  proof -
    have "?na 0 = n" using s(3) by (simp add: qs_def map_append [symmetric] del: map_append)
    moreover have "?nb 0 = r" using b(3) by simp
    ultimately show ?thesis using s(1) b(1) by (simp add: reparent_def map_upd_triv)
  qed
  moreover have "?na 7 = n\<lparr>children := pad (take 6 cs)\<rparr>" "?nb 7 = r\<lparr>children := pad (drop 6 cs)\<rparr>"
    using s(4) lq(1) by (simp_all add: pad_def qs_def)
  ultimately show ?thesis using lq(1) by (simp add: qs_def)
qed

lemma srep_upd [simp]: "a \<notin> set (ids t) \<Longrightarrow> srep (h(a := x)) p t = srep h p t"
  using srep_cong [of t h "h(a := x)" p] by (metis same_node_upd)

lemma kok_upd [simp]: "a \<notin> set (ids t) \<Longrightarrow> kok V (h(a := x)) t = kok V h t"
  using kok_cong [of t h "h(a := x)" V] by (metis same_keys_upd)

lemma crep_upd [simp]: "a \<notin> set (cids c) \<Longrightarrow> crep (h(a := x)) c k = crep h c k"
  using crep_cong [of c h "h(a := x)" k] by (metis same_node_upd)

lemma skok_upd [simp]: "a \<notin> set (cids c) \<Longrightarrow> skok V (h(a := x)) c = skok V h c"
  using skok_cong [of c h "h(a := x)" V] by (metis same_keys_upd)

lemma split_internal_move_rep:
  assumes i: "inode (tnodes s) a p (map nid ts)" "length ts = 13"
    and ts: "\<And>t. t \<in> set ts \<Longrightarrow> srep (tnodes s) (Some a) t \<and> ne t \<and> known V (flat t)"
    and d: "distinct (a # concat (map ids ts))"
    and f: "\<forall>x\<in>dom (tnodes s). x < tfresh s"
  shows "\<exists>h'. split_internal_move V s a = Some (s\<lparr>tfresh := tfresh s + 1, tnodes := h'\<rparr>, tfresh s)
    \<and> srep h' p (IN a (take 6 ts)) \<and> srep h' None (IN (tfresh s) (drop 6 ts))
    \<and> knode V h' a (take 6 ts) \<and> knode V h' (tfresh s) (drop 6 ts)
    \<and> (\<forall>x. x \<noteq> a \<and> x \<noteq> tfresh s \<longrightarrow> same_keys (tnodes s) h' x) \<and> (\<forall>x\<in>dom (tnodes s). same_links (tnodes s) h' x)
    \<and> (\<forall>x. x \<notin> insert a (insert (tfresh s) (set (concat (map ids ts)))) \<longrightarrow> h' x = tnodes s x)
    \<and> dom h' = insert (tfresh s) (dom (tnodes s))"
proof -
  define b where "b = tfresh s"
  define X where "X = set (map nid (drop 6 ts))"
  obtain n where n: "tnodes s a = Some n" "kind n = Internal" "ncount n = 13" "parent n = p" "children n = map Some (map nid ts)" "length (keys n) = 13"
    using i by (auto simp: inode_def pad_def)
  have sub: "set (ids t) \<subseteq> dom (tnodes s)" "a \<notin> set (ids t)" if "t \<in> set ts" for t
    using srep_in_dom [of "tnodes s" "Some a" t] ts [OF that] d that by auto
  have bd: "b \<notin> dom (tnodes s)" using f by (metis b_def less_irrefl)
  have b: "b \<notin> dom (tnodes s)" "b \<noteq> a" "\<And>t. t \<in> set ts \<Longrightarrow> b \<notin> set (ids t)"
    using bd n(1) sub(1) by blast+
  let ?cs = "map nid ts"
  let ?h1 = "(reparent b X ((tnodes s)(b \<mapsto> InternalNode)))"
  let ?na = "n\<lparr>children := pad (take 6 ?cs), ncount := 6\<rparr>" and ?nb = "InternalNode\<lparr>children := pad (drop 6 ?cs), ncount := 7\<rparr>"
  let ?h2 = "?h1(a \<mapsto> ?na, b \<mapsto> ?nb)"
  let ?s2 = "s\<lparr>tfresh := b + 1, tnodes := ?h2\<rparr>"
  let ?na' = "?na\<lparr>keys := map (fk V) (take 6 ts) @ drop 6 (keys n)\<rparr>"
  let ?nb' = "?nb\<lparr>keys := map (fk V) (drop 6 ts) @ drop 7 (keys InternalNode)\<rparr>"
  let ?h' = "?h1(a \<mapsto> ?na', b \<mapsto> ?nb')"
  have lft: "srep ?h1 (Some a) t" if "t \<in> set (take 6 ts)" for t
  proof -
    have t: "t \<in> set ts" using that by (rule in_set_takeD)
    have "x \<notin> set (ids t)" if xX: "x \<in> X" for x
    proof -
      obtain u where u: "u \<in> set (drop 6 ts)" "x = nid u" using xX by (auto simp: X_def)
      have "distinct (concat (map ids (take 6 ts)) @ concat (map ids (drop 6 ts)))"
        using d by (metis append_take_drop_id concat_append distinct.simps(2) map_append)
      then have "set (ids t) \<inter> set (ids u) = {}" using u \<open>t \<in> set (take 6 ts)\<close> by (simp add: disjoint_iff) blast
      then show ?thesis using u(2) nid_in_ids [of u] by blast
    qed
    then show ?thesis using ts [OF t] b(3) [OF t] by (auto intro!: srep_reparent_out)
  qed
  have rgt: "srep ?h1 (Some b) t" if "t \<in> set (drop 6 ts)" for t
  proof -
    have t: "t \<in> set ts" using that by (rule in_set_dropD)
    obtain A B where AB: "ts = A @ t # B" using t by (auto dest: split_list)
    have dt: "distinct (ids t)" using d AB by simp
    have "x = nid t" if xX: "x \<in> X" "x \<in> set (ids t)" for x
    proof -
      obtain u where u: "u \<in> set ts" "x = nid u" using xX(1) by (auto simp: X_def dest: in_set_dropD)
      then have "u = t \<or> u \<in> set A \<union> set B" using AB by auto
      moreover have "set (ids u) \<inter> set (ids t) = {}" if "u \<in> set A \<union> set B" using d AB that by auto
      ultimately show ?thesis using u \<open>x \<in> set (ids t)\<close> nid_in_ids [of u] by blast
    qed
    then have "X \<inter> set (ids t) = {nid t}" using that by (auto simp: X_def)
    then show ?thesis using ts [OF t] b(3) [OF t] dt that
      by (intro srep_reparent_set) (auto simp: X_def)
  qed
  have u: "srep (?h1(a := x, b := y)) q t = srep ?h1 q t" if "t \<in> set ts" for x y q t
    using sub(2) [OF that] b(3) [OF that] by simp
  let ?s0 = "s\<lparr>tfresh := b + 1, tnodes := (tnodes s)(b \<mapsto> InternalNode)\<rparr>"
  let ?s1 = "s\<lparr>tfresh := b + 1, tnodes := ?h1(a \<mapsto> n\<lparr>children := pad (take 6 ?cs)\<rparr>, b \<mapsto> InternalNode\<lparr>children := pad (drop 6 ?cs)\<rparr>)\<rparr>"
  have mv: "for_each (move_child a b 6) [0..<7] ?s0 = Some ?s1"
  proof -
    have "distinct ?cs" using d distinct_nids by simp
    moreover have "a \<notin> set ?cs" "b \<notin> set ?cs" using sub(2) b(3) nid_in_ids by (metis imageE list.set_map)+
    moreover have "set ?cs \<subseteq> insert b (dom (tnodes s))"
    proof
      fix y assume "y \<in> set ?cs"
      then obtain t where "t \<in> set ts" "y = nid t" by auto
      then show "y \<in> insert b (dom (tnodes s))" using sub(1) nid_in_ids by blast
    qed
    ultimately show ?thesis
      using move_children [of "s\<lparr>tfresh := b + 1, tnodes := (tnodes s)(b \<mapsto> InternalNode)\<rparr>" a n ?cs b InternalNode] n b i(2)
      by (auto simp: X_def drop_map)
  qed
  have 1: "new_node s InternalNode = (?s0, b)" by (simp add: new_node_def b_def)
  have 2: "internal_at ?s0 a = Some n" using n b by (simp add: internal_at_def)
  have 3: "internal_at ?s1 a = Some (n\<lparr>children := pad (take 6 ?cs)\<rparr>)" using n b by (simp add: internal_at_def)
  have 4: "internal_at (set_node ?s1 a ?na) b = Some (InternalNode\<lparr>children := pad (drop 6 ?cs)\<rparr>)" using b by (simp add: internal_at_def)
  have 5: "set_node (set_node ?s1 a ?na) b ?nb = ?s2" using fun_upd_twist [OF b(2)] by (simp add: set_node_def)
  have sm: "split_internal_move V s a = do { t \<leftarrow> refresh_keys V ?s2 (Some a); t \<leftarrow> refresh_keys V t (Some b); Some (t, b) }"
  proof -
    define t0 t1 t2 where t: "t0 = ?s0" "t1 = ?s1" "t2 = set_node t1 a ?na"
    have "internal_at t1 a = Some (n\<lparr>children := pad (take 6 ?cs)\<rparr>)" "internal_at t2 b = Some (InternalNode\<lparr>children := pad (drop 6 ?cs)\<rparr>)"
      "for_each (move_child a b 6) [0..<7] t0 = Some t1" "set_node t2 b ?nb = ?s2" "internal_at t0 a = Some n" "new_node s InternalNode = (t0, b)"
      using mv 1 2 3 4 5 unfolding t by blast+
    then show ?thesis using n(3) t(3) [symmetric] unfolding split_internal_move_def Let_def by simp
  qed
  have r1: "refresh_keys V ?s2 (Some a) = Some (set_node ?s2 a ?na')"
  proof -
    have "refresh_keys V ?s2 (Some a) = Some (set_node ?s2 a (?na\<lparr>keys := map (fk V) (take 6 ts) @ drop (length (take 6 ts)) (keys ?na)\<rparr>))"
    proof (rule refresh_keys_rep [where p = p])
      show "inode (tnodes ?s2) a p (map nid (take 6 ts))" using n b i(2) by (auto simp: inode_def take_map)
      fix t assume t: "t \<in> set (take 6 ts)"
      then have t': "t \<in> set ts" by (rule in_set_takeD)
      show "(\<exists>q. srep (tnodes ?s2) q t) \<and> ne t \<and> known V (flat t) \<and> a \<notin> set (ids t)"
        using lft [OF t] u [OF t'] ts [OF t'] sub(2) [OF t'] by auto
    qed (use b in simp)
    then show ?thesis using i(2) by simp
  qed
  have r2: "refresh_keys V (set_node ?s2 a ?na') (Some b) = Some (s\<lparr>tfresh := b + 1, tnodes := ?h'\<rparr>)"
  proof -
    have "refresh_keys V (set_node ?s2 a ?na') (Some b)
        = Some (set_node (set_node ?s2 a ?na') b (?nb\<lparr>keys := map (fk V) (drop 6 ts) @ drop (length (drop 6 ts)) (keys ?nb)\<rparr>))"
    proof (rule refresh_keys_rep [where p = None])
      show "inode (tnodes (set_node ?s2 a ?na')) b None (map nid (drop 6 ts))"
        using b i(2) by (auto simp: inode_def drop_map)
      fix t assume t: "t \<in> set (drop 6 ts)"
      then have t': "t \<in> set ts" by (rule in_set_dropD)
      have "tnodes (set_node ?s2 a ?na') = ?h1(a := Some ?na', b := Some ?nb)" using b(2) by (simp add: fun_upd_twist [OF b(2)])
      then show "(\<exists>q. srep (tnodes (set_node ?s2 a ?na')) q t) \<and> ne t \<and> known V (flat t) \<and> b \<notin> set (ids t)"
        using rgt [OF t] u [OF t'] ts [OF t'] b(3) [OF t'] by metis
    qed (use b in simp)
    moreover have "set_node (set_node ?s2 a ?na') b ?nb' = s\<lparr>tfresh := b + 1, tnodes := ?h'\<rparr>"
      using b(2) by (auto simp: set_node_def fun_eq_iff)
    ultimately show ?thesis using i(2) by simp
  qed
  have f1: "split_internal_move V s a = Some (s\<lparr>tfresh := b + 1, tnodes := ?h'\<rparr>, b)"
    unfolding sm r1 bind.bind_lunit r2 ..
  have f2: "srep ?h' p (IN a (take 6 ts))"
  proof -
    have "srep ?h' (Some a) t" if "t \<in> set (take 6 ts)" for t
      using lft [OF that] u [OF in_set_takeD [OF that]] by blast
    moreover have "inode ?h' a p (map nid (take 6 ts))" using n i(2) b(2) by (auto simp: inode_def take_map)
    ultimately show ?thesis by simp
  qed
  have f3: "srep ?h' None (IN b (drop 6 ts))"
  proof -
    have "srep ?h' (Some b) t" if "t \<in> set (drop 6 ts)" for t
      using rgt [OF that] u [OF in_set_dropD [OF that]] by blast
    moreover have "inode ?h' b None (map nid (drop 6 ts))" using i(2) by (auto simp: inode_def drop_map)
    ultimately show ?thesis by simp
  qed
  have f4: "knode V ?h' a (take 6 ts)" "knode V ?h' b (drop 6 ts)"
    using b(2) i(2) by (auto simp: knode_def)
  have f5: "\<forall>x. x \<noteq> a \<and> x \<noteq> b \<longrightarrow> same_keys (tnodes s) ?h' x"
    by (auto simp: same_keys_def reparent_def option.map_comp comp_def)
  have f6: "\<forall>x\<in>dom (tnodes s). same_links (tnodes s) ?h' x"
  proof
    fix x assume x: "x \<in> dom (tnodes s)"
    then have "x \<noteq> b" using b(1) by blast
    then show "same_links (tnodes s) ?h' x"
      using n by (cases "x = a") (simp_all add: same_links_def reparent_def option.map_comp comp_def)
  qed
  have f7: "\<forall>x. x \<notin> insert a (insert b (set (concat (map ids ts)))) \<longrightarrow> ?h' x = tnodes s x"
  proof (intro allI impI)
    fix x assume that: "x \<notin> insert a (insert b (set (concat (map ids ts))))"
    have "x \<notin> X"
    proof
      assume "x \<in> X"
      then obtain t where "t \<in> set ts" "x = nid t" by (auto simp: X_def dest: in_set_dropD)
      then show False using that nid_in_ids [of t] by auto
    qed
    then show "?h' x = tnodes s x" using that by simp
  qed
  have f8: "dom ?h' = insert b (dom (tnodes s))"
    using n by auto
  define H where "H = ?h'"
  note f = f1 [folded H_def] f2 [folded H_def] f3 [folded H_def] f4 [folded H_def] f5 [folded H_def] f6 [folded H_def] f7 [folded H_def] f8 [folded H_def]
  show ?thesis unfolding b_def [symmetric] by (rule exI [of _ H]) (intro conjI f)
qed

subsection \<open>Hanging in the right half\<close>

definition rest_same :: "VmaMapleTree \<Rightarrow> VmaMapleTree \<Rightarrow> bool" where
  "rest_same s s' \<longleftrightarrow> head s' = head s \<and> tail s' = tail s \<and> tsize s' = tsize s"

text \<open>
  A finished index: the state holds exactly the tree \<open>T\<close>, with its keys; the links of the leaves
  that \<open>h\<close> has are kept.
\<close>

definition holds :: "vma_mem \<Rightarrow> heap \<Rightarrow> VmaMapleTree \<Rightarrow> mtree \<Rightarrow> bool" where
  "holds V h s T \<longleftrightarrow> root s = Some (nid T) \<and> srep (tnodes s) None T \<and> kok V (tnodes s) T \<and> wft T \<and> distinct (ids T)
     \<and> dom (tnodes s) = set (ids T) \<and> (\<forall>p\<in>set (ids T). p < tfresh s) \<and> (\<forall>x\<in>dom h \<inter> dom (tnodes s). same_links h (tnodes s) x)"

text \<open>
  An unfinished one: the tree \<open>t\<close> stands in the context \<open>c\<close> and the tree \<open>r\<close> beside it, not yet
  hung in; only the keys on the path are to be refreshed.
\<close>

definition pending :: "vma_mem \<Rightarrow> VmaMapleTree \<Rightarrow> mtree \<Rightarrow> ctx \<Rightarrow> mtree \<Rightarrow> bool" where
  "pending V s t c r \<longleftrightarrow> root s = Some (nid (plug t c)) \<and> srep (tnodes s) (cpar c) t \<and> crep (tnodes s) c (nid t)
     \<and> (\<exists>q. srep (tnodes s) q r) \<and> wft t \<and> wft r \<and> wfc c \<and> kok V (tnodes s) t \<and> kok V (tnodes s) r \<and> skok V (tnodes s) c
     \<and> distinct (ids t @ ids r @ cids c) \<and> known V (flat (plug t c)) \<and> known V (flat r)
     \<and> dom (tnodes s) = set (ids t @ ids r @ cids c) \<and> (\<forall>p\<in>set (ids t @ ids r @ cids c). p < tfresh s)"

lemma nid_plug: "c \<noteq> [] \<Longrightarrow> nid (plug t c) = nid (plug u c)"
proof (induction c arbitrary: t u)
  case (Cons f c)
  obtain a ls rs where "f = (a, ls, rs)" by (cases f)
  then show ?case using Cons.IH by (cases "c = []") auto
qed simp

text \<open>Refreshing the ancestors of the root of \<open>t\<close> finishes the index.\<close>

lemma refresh_finishes:
  assumes "root s = Some (nid (plug t c))" "srep (tnodes s) (cpar c) t" "crep (tnodes s) c (nid t)" "wft t" "wfc c"
    "kok V (tnodes s) t" "skok V (tnodes s) c" "distinct (ids t @ cids c)" "known V (flat (plug t c))"
    "dom (tnodes s) = set (ids t @ cids c)" "\<forall>p\<in>set (ids t @ cids c). p < tfresh s"
  shows "\<exists>s'. refresh_ancestors V s (Some (nid t)) = Some s' \<and> holds V (tnodes s) s' (plug t c) \<and> rest_same s s'"
proof -
  obtain h' where h': "refresh_from V s (cpar c) = Some (s\<lparr>tnodes := h'\<rparr>)" "rekeyed (path c) (tnodes s) h'" "ckok V h' c t"
    using refresh_from_rep [OF assms(2,3) wft_ne [OF assms(4)] assms(5,9,8)] by blast
  obtain n where n: "tnodes s (nid t) = Some n" "parent n = cpar c"
    using assms(2) by (cases t) (auto simp: lnode_def inode_def)
  then have r: "refresh_ancestors V s (Some (nid t)) = Some (s\<lparr>tnodes := h'\<rparr>)" using h'(1) by (simp add: refresh_ancestors_def)
  have "path c \<inter> set (ids t) = {}" using assms(8) path_cids [of c] by auto
  then have "kok V h' t" using rekeyed_kok [OF h'(2), of t V] assms(6) by simp
  moreover have "skok V h' c" using rekeyed_skok [OF h'(2), of c V] assms(7,8) by auto
  moreover have "same_links (tnodes s) h' x" for x using h'(2) by (simp add: rekeyed_def)
  ultimately have "holds V (tnodes s) (s\<lparr>tnodes := h'\<rparr>) (plug t c)"
    using assms h'(3) rekeyed_simps [OF h'(2)] by (simp add: holds_def mtree)
  with r show ?thesis by (auto simp: rest_same_def)
qed

lemma sibling_new_root:
  assumes "pending V s t [] r"
  shows "\<exists>s' T. insert_right_sibling V s (nid t) (nid r) = Some s' \<and> holds V (tnodes s) s' T \<and> rest_same s s' \<and> lvs T = lvs t @ lvs r"
proof -
  define b where "b = tfresh s"
  obtain l where l: "tnodes s (nid t) = Some l" "parent l = None"
    using assms by (cases t) (auto simp: pending_def lnode_def inode_def)
  obtain q where q: "srep (tnodes s) q r" using assms by (auto simp: pending_def)
  obtain m where m: "tnodes s (nid r) = Some m"
    using q by (cases r) (auto simp: lnode_def inode_def)
  have d: "distinct (ids t)" "distinct (ids r)" "set (ids t) \<inter> set (ids r) = {}" "b \<notin> set (ids t)" "b \<notin> set (ids r)"
    "dom (tnodes s) = set (ids t) \<union> set (ids r)" "\<forall>p\<in>dom (tnodes s). p < b"
    using assms by (auto simp: pending_def b_def)
  have ne: "nid t \<noteq> nid r" "b \<noteq> nid t" "b \<noteq> nid r" "nid r \<notin> set (ids t)" "nid t \<notin> set (ids r)"
    using d nid_in_ids by (metis disjoint_iff)+
  let ?n = "InternalNode\<lparr>children := (replicate 13 None)[0 := Some (nid t), 1 := Some (nid r)], ncount := 2\<rparr>"
  let ?h = "(tnodes s)(b \<mapsto> ?n, nid t \<mapsto> l\<lparr>parent := Some b\<rparr>, nid r \<mapsto> m\<lparr>parent := Some b\<rparr>)"
  let ?s = "s\<lparr>tfresh := b + 1, tnodes := ?h\<rparr>"
  let ?n' = "?n\<lparr>keys := map (fk V) [t, r] @ drop 2 (keys ?n)\<rparr>"
  have ch: "children ?n = pad [nid t, nid r]" by (simp add: pad_def numeral_eq_Suc)
  have out: "x \<noteq> b" "x \<in> set (ids t) \<Longrightarrow> x \<noteq> nid r" "x \<in> set (ids r) \<Longrightarrow> x \<noteq> nid t" if "x \<in> dom (tnodes s)" for x
    using that d ne by auto
  have "srep ?h (Some b) t"
  proof (rule srep_reparent)
    show "srep (tnodes s) None t" using assms by (simp add: pending_def)
    show "\<forall>x\<in>set (ids t) - {nid t}. same_node (tnodes s) ?h x" using out d(6) by auto
  qed (use l d ne in \<open>auto simp: shape_def\<close>)
  moreover have "srep ?h (Some b) r"
  proof (rule srep_reparent [OF q])
    show "\<forall>x\<in>set (ids r) - {nid r}. same_node (tnodes s) ?h x" using out d(6) by auto
  qed (use m d ne in \<open>auto simp: shape_def\<close>)
  ultimately have sr: "srep ?h (Some b) t" "srep ?h (Some b) r" .
  have kk: "kok V ?h t" "kok V ?h r"
    using assms d ne l m kok_cong [of t "tnodes s" ?h V] kok_cong [of r "tnodes s" ?h V]
    by (auto simp: pending_def same_keys_def)
  have ll: "same_links (tnodes s) ?h x" if "x \<in> dom (tnodes s)" for x
    using that l m d ne by (auto simp: same_links_def)
  have "refresh_keys V ?s (Some b) = Some (set_node ?s b (?n\<lparr>keys := map (fk V) [t, r] @ drop (length [t, r]) (keys ?n)\<rparr>))"
  proof (rule refresh_keys_rep [where p = None])
    show "tnodes ?s b = Some ?n" using ne by simp
    show "inode (tnodes ?s) b None (map nid [t, r])" using ne ch by (auto simp: inode_def)
    fix u assume "u \<in> set [t, r]"
    then show "(\<exists>q. srep (tnodes ?s) q u) \<and> ne u \<and> known V (flat u) \<and> b \<notin> set (ids u)"
      using sr d assms wft_ne by (auto simp: pending_def)
  qed
  then have rk: "refresh_keys V ?s (Some b) = Some (set_node ?s b ?n')" by simp
  let ?s' = "(set_node ?s b ?n')\<lparr>root := Some b\<rparr>"
  have "insert_right_sibling V s (nid t) (nid r) = Some ?s'"
  proof -
    have e: "s\<lparr>tfresh := Suc b, tnodes := (tnodes s)(nid r \<mapsto> m\<lparr>parent := None\<rparr>, b \<mapsto> ?n, nid t \<mapsto> l\<lparr>parent := Some b\<rparr>, nid r \<mapsto> m\<lparr>parent := Some b\<rparr>)\<rparr> = ?s"
      using ne by (auto simp: fun_eq_iff)
    show ?thesis
      by (subst insert_right_sibling.simps) (use l m ne rk e in \<open>simp add: new_node_def b_def [symmetric] set_node_def\<close>)
  qed
  moreover have "holds V (tnodes s) ?s' (IN b [t, r])"
  proof -
    define H where "H = ?h"
    have H: "tnodes ?s' = H(b \<mapsto> ?n')" "dom H = insert b (dom (tnodes s))" using l m by (auto simp: H_def)
    have "srep (H(b \<mapsto> ?n')) None (IN b [t, r])"
      using sr d ne ch unfolding H_def [symmetric] by (auto simp: inode_def)
    moreover have "kok V (H(b \<mapsto> ?n')) (IN b [t, r])"
      using kk d unfolding H_def [symmetric] by (auto simp: knode_def)
    moreover have "same_links (tnodes s) (H(b \<mapsto> ?n')) x" if "x \<in> dom (tnodes s)" for x
      using ll [OF that] out(1) [OF that] unfolding H_def [symmetric] by simp
    moreover have "wft (IN b [t, r])" "distinct (ids (IN b [t, r]))" using assms d by (auto simp: pending_def)
    moreover have "\<forall>p\<in>set (ids (IN b [t, r])). p < b + 1" using d(6,7) by (auto intro: less_SucI)
    moreover have "dom (H(b \<mapsto> ?n')) = set (ids (IN b [t, r]))" using d(6) H(2) by auto
    ultimately show ?thesis unfolding holds_def H(1) by simp
  qed
  ultimately show ?thesis
    by (intro exI [of _ ?s'] exI [of _ "IN b [t, r]"]) (simp add: rest_same_def)
qed

end
