(* ===== verification/Vma_Insert.thy ===== *)
theory Vma_Insert
  imports Vma_Split
begin

text \<open>
  Insertion: splitting a full leaf or inner node and hanging the right half into the parent, up to a new
  root, keeps the representation; inserting an area that overlaps no indexed one adds it at its place
  in the order, and any other insertion leaves the index as it was.
\<close>

text \<open>The part of \<open>insert_right_sibling\<close> that puts the right node into an existing parent.\<close>

lemma sibling_hang:
  assumes P: "pending V s t ((a, ls, rs) # c) r"
  defines "ts \<equiv> ls @ t # r # rs"
  obtains h where "insert_right_sibling V s (nid t) (nid r) =
      (if length ts > 12 then do { (s', right) \<leftarrow> split_internal_move V (s\<lparr>tnodes := h\<rparr>) a; insert_right_sibling V s' a right }
       else refresh_ancestors V (s\<lparr>tnodes := h\<rparr>) (Some a))"
    "inode h a (cpar c) (map nid ts)" "\<And>u. u \<in> set ts \<Longrightarrow> srep h (Some a) u \<and> kok V h u" "knode V h a ts"
    "crep h c a" "skok V h c" "dom h = dom (tnodes s)" "\<And>x. same_links (tnodes s) h x"
proof -
  obtain q where q: "srep (tnodes s) q r" using P by (auto simp: pending_def)
  obtain m where m: "tnodes s (nid r) = Some m" using q by (cases r) (auto simp: lnode_def inode_def)
  obtain l where l: "tnodes s (nid t) = Some l" "parent l = Some a"
    using P by (cases t) (auto simp: pending_def lnode_def inode_def)
  let ?cs = "map nid ls @ nid t # map nid rs"
  obtain n where n: "tnodes s a = Some n" "kind n = Internal" "ncount n = length ?cs" "parent n = cpar c" "children n = pad ?cs" "length (keys n) = 13"
    using P by (auto simp: pending_def inode_def)
  have D: "distinct (ids t @ ids r @ a # concat (map ids ls) @ concat (map ids rs) @ cids c)" using P by (simp add: pending_def)
  have sz: "length ls + length rs \<le> 11" using P by (simp add: pending_def)
  have dj: "set (ids r) \<inter> set (ids u) = {}" "a \<notin> set (ids u)" if "u \<in> insert t (set ls \<union> set rs)" for u
    using that D by auto
  have dt: "set (ids t) \<inter> set (ids u) = {}" if "u \<in> set ls" for u using that D by auto
  have dc: "set (ids r) \<inter> set (cids c) = {}" "a \<notin> set (cids c)" "a \<notin> set (ids r)" "distinct (ids r)" using D by auto
  have ar: "a \<noteq> nid r" "a \<noteq> nid t" "nid t \<noteq> nid r"
    using dc(3) dj [of t] nid_in_ids by (metis disjoint_iff insertI1)+
  have tl: "nid t \<notin> set (map nid ls)"
  proof
    assume "nid t \<in> set (map nid ls)"
    then obtain u where "u \<in> set ls" "nid t = nid u" by auto
    then show False using dt nid_in_ids [of t] nid_in_ids [of u] by (metis disjoint_iff)
  qed
  define s1 where "s1 = set_node s (nid r) (m\<lparr>parent := Some a\<rparr>)"
  have fci: "find_child_index s1 (Some a) (Some (nid t)) = Some (Some (length ls))"
    using n ar scan_ptr_hit [OF tl, of "map nid rs"] by (simp add: s1_def find_child_index_def internal_at_def)
  have ia: "internal_at s1 a = Some n" using n ar by (simp add: s1_def internal_at_def)
  have sh: "do { xs \<leftarrow> shift_right (children n) (length ls + 1) (ncount n); arr_set xs (length ls + 1) (Some (nid r)) } = Some (pad (map nid ts))"
    using pad_shift_right [of "map nid ls @ [nid t]" "map nid rs" "nid r"] n sz by (simp add: ts_def)
  define n2 where "n2 = n\<lparr>children := pad (map nid ts), ncount := length ts\<rparr>"
  define s2 where "s2 = set_node s1 a n2"
  have apart: "nid r \<notin> set (ids u)" "a \<notin> set (ids u)" if "u \<in> insert t (set ls \<union> set rs)" for u
    using dj [OF that] nid_in_ids [of r] by (metis disjoint_iff)+
  have ids_r: "a \<notin> set (ids r)" "nid r \<notin> set (cids c)" "a \<notin> set (cids c)" using dc nid_in_ids [of r] by (metis disjoint_iff)+
  have h2: "tnodes s2 = (tnodes s)(nid r \<mapsto> m\<lparr>parent := Some a\<rparr>, a \<mapsto> n2)" by (simp add: s2_def s1_def)
  have old: "srep (tnodes s2) (Some a) u" if "u \<in> insert t (set ls \<union> set rs)" for u
    using that P apart [OF that] unfolding h2 by (auto simp: pending_def)
  have new: "srep (tnodes s2) (Some a) r"
  proof -
    have "srep ((tnodes s)(nid r \<mapsto> m\<lparr>parent := Some a\<rparr>)) (Some a) r"
      by (rule srep_reparent [OF q]) (use m D in \<open>auto simp: shape_def\<close>)
    then show ?thesis unfolding h2 using ids_r by simp
  qed
  have all: "srep (tnodes s2) (Some a) u \<and> wft u \<and> known V (flat u) \<and> a \<notin> set (ids u)" if "u \<in> set ts" for u
    using that old new apart ids_r P by (auto simp: ts_def pending_def flat_plug)
  let ?n3 = "n2\<lparr>keys := map (fk V) ts @ drop (length ts) (keys n2)\<rparr>"
  have i2: "inode (tnodes s2) a (cpar c) (map nid ts)" using n sz unfolding h2 by (auto simp: inode_def n2_def ts_def)
  have rk: "refresh_keys V s2 (Some a) = Some (set_node s2 a ?n3)"
  proof (rule refresh_keys_rep [OF _ i2])
    show "tnodes s2 a = Some n2" by (simp add: h2)
    show "(\<exists>q. srep (tnodes s2) q u) \<and> ne u \<and> known V (flat u) \<and> a \<notin> set (ids u)" if "u \<in> set ts" for u
      using all [OF that] wft_ne by blast
  qed
  define h where "h = tnodes (set_node s2 a ?n3)"
  have h: "set_node s2 a ?n3 = s\<lparr>tnodes := h\<rparr>" by (simp add: h_def s2_def s1_def set_node_def)
  have hh: "h = (tnodes s)(nid r \<mapsto> m\<lparr>parent := Some a\<rparr>, a \<mapsto> ?n3)"
    unfolding h_def tnodes_set_node h2 by (rule fun_upd_upd)
  have len: "ncount n + 1 = length ts" using n(3) by (simp add: ts_def)
  have eq: "insert_right_sibling V s (nid t) (nid r) =
      (if length ts > 12 then do { (s', right) \<leftarrow> split_internal_move V (s\<lparr>tnodes := h\<rparr>) a; insert_right_sibling V s' a right }
       else refresh_ancestors V (s\<lparr>tnodes := h\<rparr>) (Some a))"
  proof -
    obtain xs where xs: "shift_right (children n) (length ls + 1) (ncount n) = Some xs" "arr_set xs (length ls + 1) (Some (nid r)) = Some (pad (map nid ts))"
      using sh by (auto split: bind_splits)
    moreover have "n\<lparr>children := pad (map nid ts), ncount := Suc (ncount n)\<rparr> = n2" using len by (simp add: n2_def)
    moreover have "12 < Suc (ncount n) \<longleftrightarrow> 12 < length ts" using len by simp
    ultimately show ?thesis
      using l m fci ia rk h
      by (subst insert_right_sibling.simps)
         (simp add: s1_def [symmetric] Let_def k_internal_capacity_def s2_def [symmetric])
  qed
  have r2: "rekeyed {a} (tnodes s2) h"
    unfolding h_def tnodes_set_node by (rule rekeyed_upd) (use h2 n sz in \<open>auto simp: n2_def ts_def\<close>)
  have kk: "kok V h u" if "u \<in> set ts" for u
  proof -
    have "\<forall>x\<in>set (ids u). same_keys (tnodes s) h x"
      using that apart ids_r m unfolding hh by (auto simp: ts_def same_keys_def)
    from kok_cong [OF this, of V] show ?thesis using that P by (auto simp: ts_def pending_def)
  qed
  show thesis
  proof (rule that [OF eq])
    show "inode h a (cpar c) (map nid ts)" using n sz unfolding hh by (auto simp: inode_def n2_def ts_def)
    show "srep h (Some a) u \<and> kok V h u" if "u \<in> set ts" for u using all [OF that] kk [OF that] rekeyed_srep [OF r2] by simp
    show "knode V h a ts" unfolding hh by (simp add: knode_def)
    show "crep h c a" "skok V h c" using P ids_r unfolding hh by (simp_all add: pending_def)
    show "dom h = dom (tnodes s)" using n m unfolding hh by auto
    show "same_links (tnodes s) h x" for x using n m ar unfolding hh by (auto simp: same_links_def n2_def)
  qed
qed

lemma holds_links:
  assumes "holds V h s T" "\<And>x. x \<in> dom g \<Longrightarrow> same_links g h x" "dom g \<subseteq> dom h"
  shows "holds V g s T"
proof -
  have "same_links g (tnodes s) x" if "x \<in> dom g" "x \<in> dom (tnodes s)" for x
  proof -
    have "same_links h (tnodes s) x" using assms(1,3) that unfolding holds_def by blast
    then show ?thesis using assms(2) [OF that(1)] by (simp add: same_links_def)
  qed
  then show ?thesis using assms(1) unfolding holds_def by blast
qed

text \<open>After the split of an inner node its halves are pending one level up.\<close>

lemma split_pending:
  assumes D: "distinct (ids (IN a ts) @ cids c)" and dm: "dom h = set (ids (IN a ts) @ cids c)"
    and fr: "\<forall>p\<in>set (ids (IN a ts) @ cids c). p < b"
    and rt: "root s = Some (nid (plug (IN a ts) c))" and wc: "wfc c" and kn: "known V (flat (plug (IN a ts) c))"
    and wts: "\<And>u. u \<in> set ts \<Longrightarrow> wft u" "\<And>u. u \<in> set ts \<Longrightarrow> known V (flat u)"
    and c: "crep h c a" "skok V h c" and len: "length ts = 13"
    and kts: "\<And>u. u \<in> set ts \<Longrightarrow> kok V h u"
    and h': "srep h' (cpar c) (IN a (take 6 ts))" "srep h' None (IN b (drop 6 ts))" "knode V h' a (take 6 ts)" "knode V h' b (drop 6 ts)"
      "\<forall>x. x \<noteq> a \<and> x \<noteq> b \<longrightarrow> same_keys h h' x"
      "\<forall>x. x \<notin> insert a (insert b (set (concat (map ids ts)))) \<longrightarrow> h' x = h x" "dom h' = insert b (dom h)"
  shows "pending V (s\<lparr>tfresh := b + 1, tnodes := h'\<rparr>) (IN a (take 6 ts)) c (IN b (drop 6 ts))"
proof -
  let ?L = "IN a (take 6 ts)" and ?R = "IN b (drop 6 ts)"
  have bn: "b \<notin> set (ids (IN a ts) @ cids c)" using fr by blast
  have ap: "concat (map ids ts) = concat (map ids (take 6 ts)) @ concat (map ids (drop 6 ts))"
    by (metis append_take_drop_id concat_append map_append)
  then have ms: "mset (ids ?L @ ids ?R @ cids c) = mset (b # ids (IN a ts) @ cids c)" by simp
  have "x \<notin> insert a (insert b (set (concat (map ids ts))))" if "x \<in> set (cids c)" for x
    using that D bn by auto
  then have "crep h' c a" "skok V h' c"
    using c h'(6) crep_cong [of c h h' a] skok_cong [of c h h' V] by (simp_all add: same_node_def same_keys_def)
  moreover have "kok V h' u" if "u \<in> set ts" for u
  proof -
    have "x \<noteq> a \<and> x \<noteq> b" if "x \<in> set (ids u)" for x using that \<open>u \<in> set ts\<close> D bn by auto
    then have "\<forall>x\<in>set (ids u). same_keys h h' x" using h'(5) by blast
    from kok_cong [OF this, of V] kts [OF that] show ?thesis by simp
  qed
  then have "kok V h' ?L" "kok V h' ?R" using h'(3,4) by (auto dest: in_set_takeD in_set_dropD)
  moreover have "wft ?L" "wft ?R" using wts(1) len by (auto dest: in_set_takeD in_set_dropD)
  moreover have "nid (plug ?L c) = nid (plug (IN a ts) c)" using nid_plug [of c ?L "IN a ts"] by (cases "c = []") auto
  moreover have "known V (flat (plug ?L c))" "known V (flat ?R)"
    using kn wts(2) by (auto simp: flat_plug dest: in_set_takeD in_set_dropD)
  moreover have "distinct (ids ?L @ ids ?R @ cids c)"
    using mset_eq_imp_distinct_iff [OF ms] D bn by simp
  moreover have st: "set (ids ?L @ ids ?R @ cids c) = insert b (set (ids (IN a ts) @ cids c))"
    using mset_eq_setD [OF ms] by simp
  moreover have "\<forall>p\<in>insert b (set (ids (IN a ts) @ cids c)). p < b + 1" using fr less_SucI by (simp add: less_Suc_eq)
  moreover define S where "S = s\<lparr>tfresh := b + 1, tnodes := h'\<rparr>"
  have sel: "tnodes S = h'" "tfresh S = b + 1" "root S = root s" by (simp_all add: S_def)
  moreover have "crep h' c (nid ?L)" using \<open>crep h' c a\<close> by simp
  ultimately show ?thesis
    using h'(1,2,7) rt wc unfolding S_def [symmetric] pending_def st sel dm by (intro conjI exI [of _ None]) (assumption | simp only:)+
qed

lemma insert_right_sibling_rep:
  assumes "pending V s t c r"
  shows "\<exists>s' T. insert_right_sibling V s (nid t) (nid r) = Some s' \<and> holds V (tnodes s) s' T \<and> rest_same s s'
    \<and> lvs T = clvs_l c @ lvs t @ lvs r @ clvs_r c"
  using assms
proof (induction c arbitrary: s t r rule: cids.induct)
  case 1
  from sibling_new_root [OF this] show ?case by simp
next
  case (2 a ls rs c)
  let ?ts = "ls @ t # r # rs"
  obtain h where eq: "insert_right_sibling V s (nid t) (nid r) =
      (if length ?ts > 12 then do { (s', right) \<leftarrow> split_internal_move V (s\<lparr>tnodes := h\<rparr>) a; insert_right_sibling V s' a right }
       else refresh_ancestors V (s\<lparr>tnodes := h\<rparr>) (Some a))"
    and i: "inode h a (cpar c) (map nid ?ts)" and ts: "\<And>u. u \<in> set ?ts \<Longrightarrow> srep h (Some a) u \<and> kok V h u" and k: "knode V h a ?ts"
    and c: "crep h c a" "skok V h c" "dom h = dom (tnodes s)" "\<And>x. same_links (tnodes s) h x"
    by (rule sibling_hang [OF "2.prems"]) metis
  have P: "pending V s t ((a, ls, rs) # c) r" by (rule "2.prems")
  have wts: "wft u" "known V (flat u)" if "u \<in> set ?ts" for u using that P by (auto simp: pending_def flat_plug)
  have ms: "mset (ids (IN a ?ts) @ cids c) = mset (ids t @ ids r @ cids ((a, ls, rs) # c))" by simp
  have D: "distinct (ids (IN a ?ts) @ cids c)" and dm: "dom h = set (ids (IN a ?ts) @ cids c)"
    and fr: "\<forall>p\<in>set (ids (IN a ?ts) @ cids c). p < tfresh s"
    using P c(3) mset_eq_imp_distinct_iff [OF ms] mset_eq_setD [OF ms] unfolding pending_def by metis+
  have kn: "known V (flat (plug (IN a ?ts) c))" using P by (auto simp: pending_def flat_plug)
  have rt: "root s = Some (nid (plug (IN a ?ts) c))"
    using P nid_plug [of c "IN a (ls @ t # rs)" "IN a ?ts"] by (cases "c = []") (auto simp: pending_def)
  have wc: "wfc c" using P by (simp add: pending_def)
  show ?case
  proof (cases "length ?ts > 12")
    case False
    let ?s = "s\<lparr>tnodes := h\<rparr>"
    have "\<exists>s'. refresh_ancestors V ?s (Some (nid (IN a ?ts))) = Some s' \<and> holds V (tnodes ?s) s' (plug (IN a ?ts) c) \<and> rest_same ?s s'"
    proof (rule refresh_finishes)
      show "srep (tnodes ?s) (cpar c) (IN a ?ts)" using i ts by simp
      show "kok V (tnodes ?s) (IN a ?ts)" using k ts by simp
      show "wft (IN a ?ts)" using wts False by simp
      show "root ?s = Some (nid (plug (IN a ?ts) c))" using rt by simp
      show "crep (tnodes ?s) c (nid (IN a ?ts))" "skok V (tnodes ?s) c" using c(1,2) by simp_all
      show "dom (tnodes ?s) = set (ids (IN a ?ts) @ cids c)" using dm by simp
      show "\<forall>p\<in>set (ids (IN a ?ts) @ cids c). p < tfresh ?s" using fr by simp
    qed (fact wc D kn)+
    then obtain s' where s0: "refresh_ancestors V ?s (Some (nid (IN a ?ts))) = Some s'" "holds V (tnodes ?s) s' (plug (IN a ?ts) c)"
      "rest_same ?s s'" by blast
    have s': "refresh_ancestors V ?s (Some a) = Some s'" "holds V h s' (plug (IN a ?ts) c)" "rest_same s s'"
      using s0 by (simp_all add: rest_same_def)
    have "holds V (tnodes s) s' (plug (IN a ?ts) c)" by (rule holds_links [OF s'(2)]) (simp_all add: c)
    moreover have "lvs (plug (IN a ?ts) c) = clvs_l ((a, ls, rs) # c) @ lvs t @ lvs r @ clvs_r ((a, ls, rs) # c)" by (simp add: lvs_plug)
    moreover have "insert_right_sibling V s (nid t) (nid r) = Some s'" using eq False s'(1) by simp
    ultimately show ?thesis using s'(3) by blast
  next
    case True
    let ?s = "s\<lparr>tnodes := h\<rparr>" and ?b = "tfresh s"
    let ?L = "IN a (take 6 ?ts)" and ?R = "IN ?b (drop 6 ?ts)"
    have len: "length ?ts = 13" using True P by (simp add: pending_def)
    have p1: "inode (tnodes ?s) a (cpar c) (map nid ?ts)" using i by simp
    have p2: "srep (tnodes ?s) (Some a) u \<and> ne u \<and> known V (flat u)" if "u \<in> set ?ts" for u
      using ts [OF that] wts(2) [OF that] wft_ne [OF wts(1) [OF that]] by simp
    have p3: "distinct (a # concat (map ids ?ts))" using D unfolding ids.simps distinct_append by (rule conjunct1)
    have p4: "\<forall>x\<in>dom (tnodes ?s). x < tfresh ?s" using dm fr by simp
    obtain h' where h0: "split_internal_move V ?s a = Some (?s\<lparr>tfresh := tfresh ?s + 1, tnodes := h'\<rparr>, tfresh ?s)"
      "srep h' (cpar c) ?L" "srep h' None (IN (tfresh ?s) (drop 6 ?ts))" "knode V h' a (take 6 ?ts)" "knode V h' (tfresh ?s) (drop 6 ?ts)"
      "\<forall>x. x \<noteq> a \<and> x \<noteq> tfresh ?s \<longrightarrow> same_keys (tnodes ?s) h' x" "\<forall>x\<in>dom (tnodes ?s). same_links (tnodes ?s) h' x"
      "\<forall>x. x \<notin> insert a (insert (tfresh ?s) (set (concat (map ids ?ts)))) \<longrightarrow> h' x = tnodes ?s x"
      "dom h' = insert (tfresh ?s) (dom (tnodes ?s))"
      using split_internal_move_rep [OF p1 len p2 p3 p4] by blast
    have h': "split_internal_move V ?s a = Some (s\<lparr>tfresh := ?b + 1, tnodes := h'\<rparr>, ?b)"
      "srep h' (cpar c) ?L" "srep h' None ?R" "knode V h' a (take 6 ?ts)" "knode V h' ?b (drop 6 ?ts)"
      "\<forall>x. x \<noteq> a \<and> x \<noteq> ?b \<longrightarrow> same_keys h h' x" "\<forall>x\<in>dom h. same_links h h' x"
      "\<forall>x. x \<notin> insert a (insert ?b (set (concat (map ids ?ts)))) \<longrightarrow> h' x = h x" "dom h' = insert ?b (dom h)"
      using h0 by simp_all
    let ?s' = "s\<lparr>tfresh := ?b + 1, tnodes := h'\<rparr>"
    have "pending V ?s' ?L c ?R" by (rule split_pending [OF D dm fr rt wc kn wts c(1,2) len]) (use ts h' in auto)
    from "2.IH" [OF this] obtain s'' T where s0: "insert_right_sibling V ?s' (nid ?L) (nid ?R) = Some s''" "holds V (tnodes ?s') s'' T" "rest_same ?s' s''"
      "lvs T = clvs_l c @ lvs ?L @ lvs ?R @ clvs_r c" by blast
    have s'': "insert_right_sibling V ?s' a ?b = Some s''" "holds V h' s'' T" "rest_same s s''"
      using s0 by (simp_all add: rest_same_def)
    have "lvs ?L @ lvs ?R = concat (map lvs ?ts)"
      by (metis append_take_drop_id concat_append lvs.simps(2) map_append)
    then have "lvs T = clvs_l ((a, ls, rs) # c) @ lvs t @ lvs r @ clvs_r ((a, ls, rs) # c)" using s0(4) by simp
    moreover have "holds V h s'' T" by (rule holds_links [OF s''(2)]) (use h'(7,9) in auto)
    then have "holds V (tnodes s) s'' T" by (rule holds_links) (simp_all add: c)
    moreover have "insert_right_sibling V s (nid t) (nid r) = Some s''" using eq True h'(1) s''(1) by simp
    ultimately show ?thesis using s''(3) by blast
  qed
qed

end
