(* ===== verification/Vma_Insert_Leaf.thy ===== *)
theory Vma_Insert_Leaf
  imports Vma_Insert
begin

text \<open>
  Insertion into the leaf: placing the new area, splitting the leaf when it is full, and the result of
  \<open>insert\<close> in terms of the ordered list of indexed areas.
\<close>

text \<open>
  An index whose tree \<open>t\<close> in the context \<open>c\<close> has just been changed: only the keys on the path may be
  out of date.
\<close>

definition loose :: "vma_mem \<Rightarrow> VmaMapleTree \<Rightarrow> mtree \<Rightarrow> ctx \<Rightarrow> bool" where
  "loose V s t c \<longleftrightarrow> root s = Some (nid (plug t c)) \<and> srep (tnodes s) (cpar c) t \<and> crep (tnodes s) c (nid t)
     \<and> wfc c \<and> kok V (tnodes s) t \<and> skok V (tnodes s) c \<and> distinct (ids t @ cids c) \<and> known V (flat (plug t c))
     \<and> dom (tnodes s) = set (ids t @ cids c) \<and> (\<forall>p\<in>set (ids t @ cids c). p < tfresh s)
     \<and> chain (tnodes s) None (lids (plug t c)) None \<and> head s = ohd (lids (plug t c)) None \<and> tail s = olast None (lids (plug t c))"

lemma chain_in_dom: "chain h p L q \<Longrightarrow> set L \<subseteq> dom h"
  by (induction L arbitrary: p) (auto simp: link_def)

lemma holds_tree_of:
  assumes "holds V h s T" "chain h None (lids T) None" "head s = ohd (lids T) None" "tail s = olast None (lids T)"
  shows "tree_of V s T"
proof -
  have "set (lids T) \<subseteq> dom h" using chain_in_dom [OF assms(2)] .
  moreover have "set (lids T) \<subseteq> dom (tnodes s)" using assms(1) leaf_ids [of T] by (simp add: holds_def)
  ultimately have "\<forall>x\<in>set (lids T). same_links h (tnodes s) x" using assms(1) unfolding holds_def by blast
  from chain_cong [OF this, of None None] assms(2) have "chain (tnodes s) None (lids T) None" by simp
  then show ?thesis using assms(1,3,4) unfolding holds_def tree_of_def by blast
qed

lemma loose_refresh:
  assumes "loose V s t c" "wft t"
  shows "\<exists>s'. refresh_ancestors V s (Some (nid t)) = Some s' \<and> tree_of V s' (plug t c) \<and> tsize s' = tsize s"
proof -
  obtain s' where s': "refresh_ancestors V s (Some (nid t)) = Some s'" "holds V (tnodes s) s' (plug t c)" "rest_same s s'"
    using refresh_finishes [of s t c V] assms unfolding loose_def by blast
  have "tree_of V s' (plug t c)"
    by (rule holds_tree_of [OF s'(2)]) (use assms(1) s'(3) in \<open>simp_all add: loose_def rest_same_def\<close>)
  then show ?thesis using s'(1,3) by (simp add: rest_same_def)
qed

subsection \<open>Splitting a leaf\<close>

lemma move_entries:
  assumes "length es = 13"
  shows "for_each (move_entry 6) [0..<7] (replicate 13 None, map Some es) = Some (pad (drop 6 es), pad (take 6 es))"
proof -
  define qs where "qs = drop 6 es"
  let ?S = "\<lambda>k. (map Some (take k qs) @ replicate (13 - k) None, map Some (take 6 es) @ replicate k None @ map Some (drop k qs))"
  have lq: "length qs = 7" using assms by (simp add: qs_def)
  have "for_each (move_entry 6) [0..<7] (?S 0) = Some (?S 7)"
  proof (rule for_each_upt)
    fix k :: nat assume k: "k < 7"
    have "arr_get (snd (?S k)) (6 + k) = Some (Some (qs ! k))"
      using k lq assms by (simp add: arr_get_def nth_append)
    moreover have "arr_set (fst (?S k)) k (Some (qs ! k)) = Some (fst (?S (Suc k)))"
      using k lq by (simp add: arr_set_def list_update_append take_Suc_conv_app_nth Suc_diff_Suc [symmetric] min_def)
    moreover have "arr_set (snd (?S k)) (6 + k) None = Some (snd (?S (Suc k)))"
      using k lq assms by (simp add: arr_set_def list_update_append Cons_nth_drop_Suc [symmetric] replicate_app_Cons_same)
    ultimately show "move_entry 6 k (?S k) = Some (?S (Suc k))" by (simp add: move_entry_def)
  qed
  moreover have "?S 0 = (replicate 13 None, map Some es)"
    by (simp add: qs_def map_append [symmetric] del: map_append)
  moreover have "?S 7 = (pad (drop 6 es), pad (take 6 es))" using assms lq by (simp add: pad_def qs_def)
  ultimately show ?thesis by simp
qed

lemma chain_split_leaf:
  assumes "chain h p (A @ a # B) z" "distinct (A @ a # B)" "b \<notin> set (A @ a # B)"
    and "link h' a (olast p A) (Some b)" "link h' b (Some a) (ohd B z)"
    and "\<forall>x\<in>set A. same_links h h' x"
    and "B \<noteq> [] \<Longrightarrow> link h' (hd B) (Some b) (ohd (tl B) z)" "\<forall>x\<in>set (tl B). same_links h h' x"
  shows "chain h' p (A @ a # b # B) z"
proof -
  have "chain h' p A (Some a)" using assms(1) chain_cong [OF assms(6), of p "Some a"] by simp
  moreover have "chain h' (Some b) B z"
  proof (cases B)
    case (Cons x B')
    then have "chain h (Some x) B' z" using assms(1) by simp
    then show ?thesis using Cons assms(7) chain_cong [OF assms(8), of "Some x" z] by simp
  qed simp
  ultimately show ?thesis using assms(4,5) by simp
qed

lemma distinct_lids: "distinct (ids t) \<Longrightarrow> distinct (lids t)"
proof (induction t rule: ids.induct)
  case (2 a ts)
  have "distinct (concat (map ids us)) \<Longrightarrow> distinct (concat (map (\<lambda>t. lids t) us))" if "set us \<subseteq> set ts" for us
    using that
  proof (induction us)
    case (Cons u us)
    have "set (concat (map (\<lambda>t. lids t) us)) \<subseteq> set (concat (map ids us))" using leaf_ids by fastforce
    moreover have "set (ids u) \<inter> set (concat (map ids us)) = {}" using Cons.prems by simp
    ultimately have "set (lids u) \<inter> set (concat (map (\<lambda>t. lids t) us)) = {}" using leaf_ids [of u] by (simp, blast)
    with Cons "2.IH" [of u] show ?case by simp
  qed simp
  from this [of ts] "2.prems" show ?case by (simp add: map_concat comp_def)
qed simp

lemma lnode_of_leaf: "srep h p T \<Longrightarrow> (x, fs) \<in> set (lvs T) \<Longrightarrow> \<exists>q. lnode h x q fs"
  by (induction h p T rule: srep.induct) auto

text \<open>What \<open>split_leaf\<close> does before it hangs the right leaf into the parent.\<close>

lemma split_leaf_move:
  assumes L: "loose V s (LF a es) c" and len: "length es = 13"
  defines "b \<equiv> tfresh s" and "B \<equiv> map fst (clvs_r c)"
  obtains S n where "split_leaf V s a = insert_right_sibling V S a b" "tnodes s a = Some n"
    "tnodes S a = Some (n\<lparr>entries := pad (take 6 es), ncount := 6, next_leaf := Some b\<rparr>)"
    "tnodes S b = Some (LeafNode\<lparr>entries := pad (drop 6 es), ncount := 7, next_leaf := ohd B None, prev_leaf := Some a\<rparr>)"
    "\<And>x. x \<noteq> a \<Longrightarrow> x \<noteq> b \<Longrightarrow> same_node (tnodes s) (tnodes S) x \<and> same_keys (tnodes s) (tnodes S) x"
    "\<And>x. x \<noteq> a \<Longrightarrow> x \<noteq> b \<Longrightarrow> ohd B None \<noteq> Some x \<Longrightarrow> same_links (tnodes s) (tnodes S) x"
    "B \<noteq> [] \<Longrightarrow> link (tnodes S) (hd B) (Some b) (ohd (tl B) None)"
    "dom (tnodes S) = insert b (dom (tnodes s))" "tfresh S = b + 1" "root S = root s" "head S = head s"
    "tail S = (if B = [] then Some b else tail s)" "tsize S = tsize s"
proof -
  let ?A = "map fst (clvs_l c)"
  have li: "lids (plug (LF a es) c) = ?A @ a # B" by (simp add: lvs_plug B_def)
  have ch: "chain (tnodes s) None (?A @ a # B) None" using L li by (simp add: loose_def)
  have ln: "lnode (tnodes s) a (cpar c) es" using L by (simp add: loose_def)
  obtain n where n: "tnodes s a = Some n" "kind n = Leaf" "ncount n = 13" "entries n = map Some es" "next_leaf n = ohd B None" "prev_leaf n = olast None ?A"
    using ln ch len by (auto simp: lnode_def link_def pad_def)
  have bd: "b \<notin> dom (tnodes s)" using L unfolding loose_def b_def by blast
  have ba: "b \<noteq> a" using bd n(1) by auto
  let ?n1 = "n\<lparr>entries := pad (take 6 es), ncount := 6\<rparr>"
  let ?r = "LeafNode\<lparr>entries := pad (drop 6 es), ncount := 7, next_leaf := next_leaf n, prev_leaf := Some a\<rparr>"
  define s2 where "s2 = s\<lparr>tfresh := b + 1, tnodes := (tnodes s)(a \<mapsto> ?n1, b \<mapsto> ?r)\<rparr>"
  have start: "split_leaf V s a = do {
     t \<leftarrow> (case next_leaf n of
             Some q \<Rightarrow> do { m \<leftarrow> leaf_at s2 q; Some (set_node s2 q (m\<lparr>prev_leaf := Some b\<rparr>)) }
           | None \<Rightarrow> Some (s2\<lparr>tail := Some b\<rparr>));
     n \<leftarrow> leaf_at t a;
     insert_right_sibling V (set_node t a (n\<lparr>next_leaf := Some b\<rparr>)) a b }"
  proof -
    have "set_node (set_node (s\<lparr>tfresh := Suc b, tnodes := (tnodes s)(b \<mapsto> LeafNode)\<rparr>) a ?n1) b ?r = s2"
      using ba by (auto simp: s2_def set_node_def fun_eq_iff)
    moreover have "tnodes s2 = (tnodes s)(a \<mapsto> ?n1, b \<mapsto> ?r)" by (simp add: s2_def)
    ultimately show ?thesis
      using compact_leaf_id [OF ln, of V] n ba move_entries [OF len]
      by (cases "ohd B None") (simp_all add: split_leaf_def new_node_def b_def [symmetric] leaf_at_def Let_def)
  qed
  show thesis
  proof (cases B)
    case Nil
    let ?S = "set_node (s2\<lparr>tail := Some b\<rparr>) a (?n1\<lparr>next_leaf := Some b\<rparr>)"
    have e: "tnodes ?S = (tnodes s)(a \<mapsto> ?n1\<lparr>next_leaf := Some b\<rparr>, b \<mapsto> ?r)"
      using ba by (auto simp: s2_def set_node_def fun_eq_iff)
    have "split_leaf V s a = insert_right_sibling V ?S a b"
      using start n ba Nil by (simp add: leaf_at_def s2_def)
    then show thesis
      by (rule that [OF _ n(1)]) (use Nil n ba bd e in \<open>auto simp: s2_def\<close>)
  next
    case (Cons q B')
    have dB: "distinct (?A @ a # B)"
      using L li distinct_ids_plug [of "LF a es" c] distinct_lids [of "plug (LF a es) c"] by (simp add: loose_def)
    have qa: "q \<noteq> a" "q \<noteq> b" using dB Cons bd chain_in_dom [OF ch] by auto
    obtain fs C where "clvs_r c = (q, fs) # C" using Cons by (cases "clvs_r c") (auto simp: B_def)
    then have "(q, fs) \<in> set (lvs (plug (LF a es) c))" by (simp add: lvs_plug)
    moreover have "srep (tnodes s) None (plug (LF a es) c)" using L by (simp add: loose_def srep_plug)
    ultimately obtain p where "lnode (tnodes s) q p fs" using lnode_of_leaf by blast
    moreover have "link (tnodes s) q (Some a) (ohd B' None)" using ch Cons by simp
    ultimately obtain m where m: "tnodes s q = Some m" "kind m = Leaf" "prev_leaf m = Some a" "next_leaf m = ohd B' None"
      by (auto simp: lnode_def link_def)
    let ?S = "set_node (set_node s2 q (m\<lparr>prev_leaf := Some b\<rparr>)) a (?n1\<lparr>next_leaf := Some b\<rparr>)"
    have e: "tnodes ?S = (tnodes s)(a \<mapsto> ?n1\<lparr>next_leaf := Some b\<rparr>, b \<mapsto> ?r, q \<mapsto> m\<lparr>prev_leaf := Some b\<rparr>)"
      using ba qa by (auto simp: s2_def set_node_def fun_eq_iff)
    have eq: "split_leaf V s a = insert_right_sibling V ?S a b"
      using start n ba qa Cons m by (simp add: leaf_at_def s2_def)
    show thesis
    proof (rule that [OF eq n(1)])
      show "same_node (tnodes s) (tnodes ?S) x \<and> same_keys (tnodes s) (tnodes ?S) x" if "x \<noteq> a" "x \<noteq> b" for x
        using that m unfolding e by (cases "x = q") (auto simp: same_node_def same_keys_def shape_def)
      show "link (tnodes ?S) (hd B) (Some b) (ohd (tl B) None)" using Cons m qa unfolding e by (simp add: link_def)
      show "dom (tnodes ?S) = insert b (dom (tnodes s))" using n m unfolding e by auto
    qed (use Cons n ba qa e in \<open>auto simp: s2_def\<close>)
  qed
qed

lemma ents_ctx: "ents (clvs_l c) = cflat_l c \<and> ents (clvs_r c) = cflat_r c"
proof (induction c rule: cids.induct)
  case (2 a ls rs c)
  have "ents (concat (map lvs ts)) = concat (map flat ts)" for ts
    by (induction ts) (simp_all add: flat_lvs)
  with 2 show ?case by simp
qed simp

lemma split_leaf_rep:
  assumes L: "loose V s (LF a es) c" and len: "length es = 13"
  shows "\<exists>s' T. split_leaf V s a = Some s' \<and> tree_of V s' T \<and> flat T = flat (plug (LF a es) c) \<and> tsize s' = tsize s"
proof -
  define b B where "b = tfresh s" and "B = map fst (clvs_r c)"
  obtain S n where eq: "split_leaf V s a = insert_right_sibling V S a b" and n: "tnodes s a = Some n"
    and Sa: "tnodes S a = Some (n\<lparr>entries := pad (take 6 es), ncount := 6, next_leaf := Some b\<rparr>)"
    and Sb: "tnodes S b = Some (LeafNode\<lparr>entries := pad (drop 6 es), ncount := 7, next_leaf := ohd B None, prev_leaf := Some a\<rparr>)"
    and sm: "\<And>x. x \<noteq> a \<Longrightarrow> x \<noteq> b \<Longrightarrow> same_node (tnodes s) (tnodes S) x \<and> same_keys (tnodes s) (tnodes S) x"
    and sl: "\<And>x. x \<noteq> a \<Longrightarrow> x \<noteq> b \<Longrightarrow> ohd B None \<noteq> Some x \<Longrightarrow> same_links (tnodes s) (tnodes S) x"
    and q: "B \<noteq> [] \<Longrightarrow> link (tnodes S) (hd B) (Some b) (ohd (tl B) None)"
    and S: "dom (tnodes S) = insert b (dom (tnodes s))" "tfresh S = b + 1" "root S = root s" "head S = head s"
      "tail S = (if B = [] then Some b else tail s)" "tsize S = tsize s"
    by (rule split_leaf_move [OF L len, folded b_def B_def]) (rule that)
  let ?A = "map fst (clvs_l c)" and ?L = "LF a (take 6 es)" and ?R = "LF b (drop 6 es)"
  have L': "root s = Some (nid (plug (LF a es) c))" "lnode (tnodes s) a (cpar c) es" "crep (tnodes s) c a" "wfc c" "skok V (tnodes s) c"
    "a \<notin> set (cids c)" "distinct (cids c)" "known V (flat (plug (LF a es) c))" "dom (tnodes s) = insert a (set (cids c))"
    "\<forall>p\<in>insert a (set (cids c)). p < b" "chain (tnodes s) None (?A @ a # B) None" "head s = ohd (?A @ a # B) None" "tail s = olast None (?A @ a # B)"
    using L by (simp_all add: loose_def lvs_plug b_def B_def)
  have bn: "b \<noteq> a" "b \<notin> set (cids c)" using L'(10) by blast+
  have out: "x \<noteq> a \<and> x \<noteq> b" if "x \<in> set (cids c)" for x using that L'(6) bn by auto
  have "crep (tnodes S) c a" "skok V (tnodes S) c"
    using L'(3,5) crep_cong [of c "tnodes s" "tnodes S" a] skok_cong [of c "tnodes s" "tnodes S" V] sm out by blast+
  moreover have "lnode (tnodes S) a (cpar c) (take 6 es)" using L'(2) n Sa len by (auto simp: lnode_def)
  moreover have "lnode (tnodes S) b None (drop 6 es)" using Sb len by (auto simp: lnode_def)
  moreover have "nid (plug ?L c) = nid (plug (LF a es) c)" using nid_plug [of c ?L "LF a es"] by (cases "c = []") auto
  moreover have "known V (flat (plug ?L c))" "known V (drop 6 es)"
    using L'(8) by (auto simp: flat_plug known_def dest: in_set_takeD in_set_dropD)
  moreover have "\<forall>p\<in>insert a (insert b (set (cids c))). p < b + 1" using L'(10) by (auto simp: less_Suc_eq)
  moreover have "dom (tnodes S) = insert a (insert b (set (cids c)))" using S(1) L'(9) by auto
  ultimately have "pending V S ?L c ?R"
    using L'(1,4,6,7) bn len S(2,3) unfolding pending_def by auto
  from insert_right_sibling_rep [OF this] obtain s' T where T: "insert_right_sibling V S a b = Some s'" "holds V (tnodes S) s' T" "rest_same S s'"
    "lvs T = clvs_l c @ lvs ?L @ lvs ?R @ clvs_r c" by auto
  have li: "lids T = ?A @ a # b # B" using T(4) by (simp add: B_def)
  have dB: "distinct (?A @ a # B)"
    using L distinct_ids_plug [of "LF a es" c] distinct_lids [of "plug (LF a es) c"] by (simp add: loose_def lvs_plug B_def)
  have bB: "b \<notin> set (?A @ a # B)" using chain_in_dom [OF L'(11)] L'(9,10) by auto
  have lk: "link (tnodes s) a (olast None ?A) (ohd B None)" using L'(11) by simp
  have ch: "chain (tnodes S) None (?A @ a # b # B) None"
  proof (rule chain_split_leaf [OF L'(11) dB bB])
    show "link (tnodes S) a (olast None ?A) (Some b)" using lk n Sa by (auto simp: link_def)
    show "link (tnodes S) b (Some a) (ohd B None)" using Sb by (simp add: link_def)
    show "\<forall>x\<in>set ?A. same_links (tnodes s) (tnodes S) x"
    proof
      fix x assume x: "x \<in> set ?A"
      then have "x \<notin> set (a # B)" using dB unfolding distinct_append by blast
      moreover have "x \<noteq> b" using x bB unfolding set_append by blast
      ultimately show "same_links (tnodes s) (tnodes S) x" by (cases B) (simp_all add: sl)
    qed
    show "\<forall>x\<in>set (tl B). same_links (tnodes s) (tnodes S) x"
      using dB bB by (cases B) (auto intro!: sl)
  qed (fact q)
  have "tree_of V s' T"
  proof (rule holds_tree_of [OF T(2)])
    show "chain (tnodes S) None (lids T) None" using ch li by simp
    show "head s' = ohd (lids T) None" using T(3) S(4) L'(12) li by (simp add: rest_same_def)
    show "tail s' = olast None (lids T)" using T(3) S(5) L'(13) li by (simp add: rest_same_def olast_def)
  qed
  moreover have "flat T = flat (plug (LF a es) c)"
  proof -
    have "ents (clvs_l c) = cflat_l c \<and> ents (clvs_r c) = cflat_r c" by (rule ents_ctx)
    then have "flat T = cflat_l c @ (take 6 es @ drop 6 es) @ cflat_r c" using T(4) by (simp add: flat_lvs [of T])
    then show ?thesis by (simp add: flat_plug)
  qed
  ultimately show ?thesis using eq T(1,3) S(6) by (auto simp: rest_same_def)
qed

subsection \<open>Insertion\<close>

lemma skok_mem: "wfc c \<Longrightarrow> \<forall>x\<in>set (cflat_l c) \<union> set (cflat_r c). V x = W x \<Longrightarrow> skok V h c \<Longrightarrow> skok W h c"
proof (induction c rule: cids.induct)
  case (2 a ls rs c)
  have "kok W h t" if "t \<in> set ls \<or> t \<in> set rs" for t
  proof -
    have "ne t" using "2.prems"(1) that by (auto dest: wft_ne)
    moreover have "\<forall>e\<in>set (flat t). V e = W e" using "2.prems"(2) that by auto
    ultimately show ?thesis using kok_mem [of t V W h] "2.prems"(3) that by auto
  qed
  moreover have "skok W h c" by (rule "2.IH") (use "2.prems" in auto)
  ultimately show ?case by auto
qed simp

text \<open>A changed leaf in a represented index.\<close>

lemma leaf_changed:
  assumes T: "tree_of V t T" "T = plug (LF a fs) c" and n: "tnodes t a = Some n"
    and W: "known W (cflat_l c)" "known W (cflat_r c)" "known W gs" "\<forall>x\<in>set (cflat_l c) \<union> set (cflat_r c). V x = W x" and len: "length gs \<le> 13"
  shows "loose W ((set_node t a (n\<lparr>entries := pad gs, ncount := length gs\<rparr>))\<lparr>tsize := k\<rparr>) (LF a gs) c"
proof -
  let ?n = "n\<lparr>entries := pad gs, ncount := length gs\<rparr>"
  have T': "root t = Some (nid (plug (LF a fs) c))" "lnode (tnodes t) a (cpar c) fs" "crep (tnodes t) c a" "skok V (tnodes t) c"
    "wfc c" "a \<notin> set (cids c)" "distinct (cids c)" "dom (tnodes t) = insert a (set (cids c))" "\<forall>p\<in>insert a (set (cids c)). p < tfresh t"
    "chain (tnodes t) None (lids T) None" "head t = ohd (lids T) None" "tail t = olast None (lids T)"
    using T by (auto simp: tree_of_def mtree)
  have li: "lids (plug (LF a gs) c) = lids T" using T(2) by (simp add: lvs_plug)
  have "\<forall>x\<in>set (lids T). same_links (tnodes t) ((tnodes t)(a \<mapsto> ?n)) x" using n by (auto simp: same_links_def)
  from chain_cong [OF this, of None None] T'(10) have "chain ((tnodes t)(a \<mapsto> ?n)) None (lids T) None" by simp
  moreover have "lnode ((tnodes t)(a \<mapsto> ?n)) a (cpar c) gs" using T'(2) n len by (auto simp: lnode_def)
  moreover have "skok W (tnodes t) c" using T'(4,5) W(4) skok_mem by blast
  moreover have "nid (plug (LF a gs) c) = nid (plug (LF a fs) c)" using nid_plug [of c "LF a gs" "LF a fs"] by (cases "c = []") auto
  moreover have "known W (flat (plug (LF a gs) c))" using W by (simp add: flat_plug)
  ultimately show ?thesis
    using T' n li unfolding loose_def by (auto simp: insert_absorb)
qed

lemma overlap_neighbours:
  assumes "ordered V (X @ Y)" "\<forall>x\<in>set X. adr V x < addr v" "\<forall>y\<in>set Y. addr v \<le> adr V y" "valid_range v"
  shows "(\<exists>f\<in>set (X @ Y). overlaps_vma (area_of V f) v) \<longleftrightarrow>
    (X \<noteq> [] \<and> overlaps_vma (area_of V (last X)) v) \<or> (Y \<noteq> [] \<and> overlaps_vma (area_of V (hd Y)) v)" (is "?l \<longleftrightarrow> ?r")
proof
  assume ?r
  then show ?l by (auto intro: last_in_set hd_in_set)
next
  assume ?l
  then obtain f where f: "f \<in> set (X @ Y)" "overlaps_vma (area_of V f) v" by blast
  have val: "valid_range (area_of V x)" if "x \<in> set (X @ Y)" for x using ordered_mem [OF assms(1) that] by simp
  show ?r
  proof (cases "f \<in> set X")
    case True
    then obtain X1 X2 where X: "X = X1 @ f # X2" by (meson split_list)
    have "X2 = []"
    proof (rule ccontr)
      assume "X2 \<noteq> []"
      then have "hd X2 \<in> set X2" by simp
      then have "fin V f \<le> adr V (hd X2)" "adr V (hd X2) < addr v" using assms(1,2) X by (auto simp: ordered_append ordered_Cons)
      then show False using f(2) val [OF f(1)] by (auto simp: overlaps_vma_iff)
    qed
    with X f show ?thesis by simp
  next
    case False
    then have "f \<in> set Y" using f by simp
    then obtain Y1 Y2 where Y: "Y = Y1 @ f # Y2" by (meson split_list)
    show ?thesis
    proof (cases "Y1 = []")
      case True
      with Y f show ?thesis by simp
    next
      case False
      then have h: "hd Y1 \<in> set Y1" "hd Y = hd Y1" using Y by auto
      then have "fin V (hd Y) \<le> adr V f" "addr v \<le> adr V (hd Y)" using assms(1,3) Y by (auto simp: ordered_append ordered_Cons)
      moreover have "adr V (hd Y) < fin V (hd Y)" "valid_range (area_of V (hd Y))" using ordered_less [OF assms(1)] val h Y by auto
      ultimately show ?thesis using f(2) val [OF f(1)] Y by (auto simp: overlaps_vma_iff)
    qed
  qed
qed

definition ins_area :: "vma_mem \<Rightarrow> nat \<Rightarrow> nat list \<Rightarrow> nat list" where
  "ins_area V e es = takeWhile (\<lambda>f. adr V f < adr V e) es @ e # dropWhile (\<lambda>f. adr V f < adr V e) es"

lemma ins_area_split:
  assumes "\<forall>x\<in>set X. adr V x < adr V e" "\<forall>y\<in>set Y. adr V e \<le> adr V y"
  shows "ins_area V e (X @ Y) = X @ e # Y"
proof -
  have "takeWhile (\<lambda>f. adr V f < adr V e) Y = [] \<and> dropWhile (\<lambda>f. adr V f < adr V e) Y = Y"
    using assms(2) by (cases Y) auto
  then show ?thesis using assms(1) by (simp add: ins_area_def takeWhile_append dropWhile_append)
qed

lemma ordered_insert:
  assumes "ordered V (X @ Y)" "\<forall>x\<in>set X. adr V x < adr V e" "\<forall>y\<in>set Y. adr V e \<le> adr V y"
    and "V e \<noteq> None" "valid_range (area_of V e)" "\<forall>f\<in>set (X @ Y). \<not> overlaps_vma (area_of V f) (area_of V e)"
  shows "ordered V (X @ e # Y)"
proof -
  have val: "valid_range (area_of V x)" if "x \<in> set (X @ Y)" for x using ordered_mem [OF assms(1) that] by simp
  have "fin V x \<le> adr V e" if "x \<in> set X" for x
    using that assms(2,6) val [of x] by (intro apart_ordered) (auto simp: assms(5) less_imp_le)
  moreover have "fin V e \<le> adr V y" if "y \<in> set Y" for y
  proof -
    have "\<not> overlaps_vma (area_of V y) (area_of V e)" using that assms(6) by simp
    then have "\<not> overlaps_vma (area_of V e) (area_of V y)"
      using that assms(5) val [of y] by (auto simp: overlaps_vma_iff)
    then show ?thesis using that assms(3,5) val [of y] by (intro apart_ordered) auto
  qed
  ultimately show ?thesis using assms(1,4,5) by (auto simp: ordered_append ordered_Cons)
qed

lemma olast_conv: "olast None X = (if X = [] then None else Some (last X))"
  by (simp add: olast_def)

lemma ohd_conv: "ohd X None = (if X = [] then None else Some (hd X))"
  by (cases X) auto

lemma tree_insert_empty:
  assumes "index_inv V t []" "V e = Some v" "valid_range v"
  shows "\<exists>t'. tree_insert V (Some e) t = Some (t', True) \<and> index_inv V t' [e]"
proof -
  let ?b = "tfresh t"
  let ?n = "LeafNode\<lparr>entries := (entries LeafNode)[0 := Some e], ncount := 1\<rparr>"
  let ?t = "t\<lparr>tfresh := ?b + 1, tnodes := [?b \<mapsto> ?n], root := Some ?b, head := Some ?b, tail := Some ?b, tsize := 1\<rparr>"
  have p: "entries ?n = pad [e]" by (simp add: pad_def numeral_eq_Suc)
  have "tree_insert V (Some e) t = Some (?t, True)"
    using assms by (auto simp: tree_insert_def index_inv_def valid_range_def new_node_def)
  moreover have "tree_of V ?t (LF ?b [e])"
    using p by (auto simp: tree_of_def lnode_def link_def LeafNode_def split: if_splits)
  ultimately show ?thesis using assms(2,3)
    by (auto simp: index_inv_def ordered_def area_of_def intro!: exI [of _ "LF ?b [e]"])
qed

text \<open>The part of \<open>insert\<close> before the entry is placed: the leaf, the slot and the conflict test.\<close>

lemma insert_position:
  assumes I: "index_inv V t es" "es \<noteq> []" and v: "V e = Some v" "valid_range v"
  obtains T a G H c n where "tree_of V t T" "T = plug (LF a (G @ H)) c" "tnodes t a = Some n"
    "\<forall>x\<in>set (cflat_l c @ G). adr V x < adr V e" "\<forall>y\<in>set (H @ cflat_r c). adr V e \<le> adr V y" "es = (cflat_l c @ G) @ H @ cflat_r c"
    "length (G @ H) \<le> 12"
    "tree_insert V (Some e) t =
      (if \<exists>f\<in>set es. overlaps_vma (area_of V f) v then Some (t, False)
       else do {
         t \<leftarrow> (if length (G @ H) + 1 > 12
               then split_leaf V ((set_node t a (n\<lparr>entries := pad (G @ e # H), ncount := length (G @ e # H)\<rparr>))\<lparr>tsize := tsize t + 1\<rparr>) a
               else refresh_ancestors V ((set_node t a (n\<lparr>entries := pad (G @ e # H), ncount := length (G @ e # H)\<rparr>))\<lparr>tsize := tsize t + 1\<rparr>) (Some a));
         Some (t, True) })"
proof -
  have ve: "v = area_of V e" using v(1) by (simp add: area_of_def)
  obtain T A a fs B n where T: "tree_of V t T" "leaf_for V (addr v) T A a fs B" "find_leaf t (addr v) = Some (Some a)"
    and n: "leaf_at t a = Some n" "entries n = pad fs" "ncount n = length fs"
    and es: "es = ents A @ fs @ ents B" "prev_leaf n = olast None (map fst A)" "next_leaf n = ohd (map fst B) None" "fs \<noteq> []" "known V fs"
      "\<forall>e\<in>set (ents A). adr V e < addr v"
    using find_leaf_rep [OF I, of "addr v"] by metis
  have o: "ordered V es" using I by (simp add: index_inv_def)
  let ?G = "takeWhile (\<lambda>f. adr V f < addr v) fs" and ?H = "dropWhile (\<lambda>f. adr V f < addr v) fs"
  define G H where "G = ?G" and "H = ?H"
  have fs: "fs = G @ H" by (simp add: G_def H_def)
  have l: "lvs T = A @ (a, fs) # B" using T(2) by (simp add: leaf_for_def)
  obtain c where c: "T = plug (LF a fs) c" "clvs_l c = A" "clvs_r c = B" using leaf_context [OF l] by blast
  have ctx: "ents A = cflat_l c" "ents B = cflat_r c" using ents_ctx [of c] c by auto
  have na: "tnodes t a = Some n" "kind n = Leaf" using n(1) by (auto simp: leaf_at_def split: bind_splits if_splits)
  have ln: "lnode (tnodes t) a (cpar c) fs" "length fs \<le> 12" using T(1) c(1) by (auto simp: tree_of_def mtree)
  have X: "\<forall>x\<in>set (cflat_l c @ G). adr V x < addr v" using es(6) ctx by (auto simp: G_def dest: set_takeWhileD)
  have Y: "\<forall>y\<in>set (H @ cflat_r c). addr v \<le> adr V y"
  proof -
    have "addr v \<le> adr V y" if "y \<in> set H" for y
    proof (cases H)
      case (Cons h H')
      have "addr v \<le> adr V h" using Cons dropWhile_eq_Cons_conv [of "\<lambda>f. adr V f < addr v" fs h H'] by (simp add: H_def)
      moreover have "sorted_wrt (\<lambda>e f. adr V e < adr V f) (h # H')"
        using ordered_starts [OF o] unfolding es(1) fs Cons by (simp add: sorted_wrt_append)
      ultimately show ?thesis using that Cons by auto
    qed (use that in simp)
    moreover have "\<forall>y\<in>set (ents B). addr v < adr V y" using T(2) by (simp add: leaf_for_def)
    ultimately show ?thesis using ctx by (auto intro: less_imp_le)
  qed
  have es': "es = (cflat_l c @ G) @ H @ cflat_r c" using es(1) fs ctx by simp
  have slot: "find_entry_slot V t (Some a) (addr v) = Some (length G)" unfolding G_def by (rule find_entry_slot_eq [OF es(5) n])
  have pe: "(if length G > 0 then arr_get (entries n) (length G - 1)
      else if prev_leaf n \<noteq> None then last_entry_mut t (prev_leaf n) else Some None) = Some (olast None (cflat_l c @ G))"
  proof (cases "G = []")
    case True
    have "last_entry t (prev_leaf n) = Some (olast None (ents A))" using last_entry_rep [OF T(1) l] es(2) by simp
    then show ?thesis using True ctx es(2) by (auto simp: last_entry_mut_def olast_def split: if_splits)
  next
    case False
    then have "fs ! (length G - 1) = last G" "length G - 1 < length fs"
      using fs by (simp_all add: nth_append last_conv_nth trans_less_add1)
    then show ?thesis using False n by (simp add: olast_def)
  qed
  have ne: "(if length G < ncount n then arr_get (entries n) (length G) else next_leaf_first t n) = Some (ohd (H @ cflat_r c) None)"
  proof (cases H)
    case Nil
    then show ?thesis using n fs next_leaf_first_rep [OF T(1) l es(3)] ctx by simp
  next
    case (Cons h H')
    then show ?thesis using n fs by (simp add: nth_append)
  qed
  have po: "ptr_overlaps V p v = Some (case p of None \<Rightarrow> False | Some f \<Rightarrow> overlaps_vma (area_of V f) v)" if "p = None \<or> (\<exists>f\<in>set es. p = Some f)" for p
    using that ordered_mem [OF o] by (auto simp: ptr_overlaps_def)
  have o1: "ptr_overlaps V (olast None (cflat_l c @ G)) v = Some (cflat_l c @ G \<noteq> [] \<and> overlaps_vma (area_of V (last (cflat_l c @ G))) v)"
    using po [of "olast None (cflat_l c @ G)"] last_in_set [of "cflat_l c @ G"] unfolding olast_conv es' by (auto simp del: last_append)
  have o2: "ptr_overlaps V (ohd (H @ cflat_r c) None) v = Some (H @ cflat_r c \<noteq> [] \<and> overlaps_vma (area_of V (hd (H @ cflat_r c))) v)"
    using po [of "ohd (H @ cflat_r c) None"] hd_in_set [of "H @ cflat_r c"] unfolding ohd_conv es' by (auto simp del: hd_append)
  have ov: "(\<exists>f\<in>set es. overlaps_vma (area_of V f) v) \<longleftrightarrow> (cflat_l c @ G \<noteq> [] \<and> overlaps_vma (area_of V (last (cflat_l c @ G))) v)
      \<or> (H @ cflat_r c \<noteq> [] \<and> overlaps_vma (area_of V (hd (H @ cflat_r c))) v)"
    using overlap_neighbours [of V "cflat_l c @ G" "H @ cflat_r c" v] o X Y v(2) unfolding es' by blast
  obtain xs where xs: "shift_right (entries n) (length G) (ncount n) = Some xs" "arr_set xs (length G) (Some e) = Some (pad (G @ e # H))"
    using pad_shift_right [of G H e] n fs ln(2) by (auto split: bind_splits)
  have uv: "used v \<noteq> 0" using v(2) by (simp add: valid_range_def)
  obtain r where rt: "root t = Some r" using T(1) by (auto simp: tree_of_def)
  define b1 b2 where "b1 \<longleftrightarrow> cflat_l c @ G \<noteq> [] \<and> overlaps_vma (area_of V (last (cflat_l c @ G))) v"
    and "b2 \<longleftrightarrow> H @ cflat_r c \<noteq> [] \<and> overlaps_vma (area_of V (hd (H @ cflat_r c))) v"
  note b = o1 [folded b1_def] o2 [folded b2_def] ov [folded b1_def b2_def]
  have cl: "compact_leaf V t (Some a) = Some t" by (rule compact_leaf_id [OF ln(1)])
  let ?t1 = "(set_node t a (n\<lparr>entries := pad (G @ e # H), ncount := length (G @ e # H)\<rparr>))\<lparr>tsize := tsize t + 1\<rparr>"
  have "tree_insert V (Some e) t =
      (if \<exists>f\<in>set es. overlaps_vma (area_of V f) v then Some (t, False)
       else do { t \<leftarrow> (if length (G @ H) + 1 > 12 then split_leaf V ?t1 a else refresh_ancestors V ?t1 (Some a)); Some (t, True) })"
    unfolding tree_insert_def b option.case v(1) Option.bind.simps(2) T(3) cl slot n(1) pe ne rt
    using v(2) uv xs n(3) fs by (cases b1; cases b2) (simp_all add: Let_def k_leaf_capacity_def)
  then show thesis using that [OF T(1) _ na(1), of G H c] c(1) fs X Y es' ln(2) ve by simp
qed


theorem tree_insert_rep:
  assumes I: "index_inv V t es" and v: "V e = Some v" "valid_range v"
  shows "if \<exists>f\<in>set es. overlaps_vma (area_of V f) v then tree_insert V (Some e) t = Some (t, False)
    else \<exists>t'. tree_insert V (Some e) t = Some (t', True) \<and> index_inv V t' (ins_area V e es)"
proof (cases "es = []")
  case True
  then show ?thesis using tree_insert_empty [of V t e v] I v by (simp add: ins_area_def)
next
  case False
  obtain T a G H c n where T: "tree_of V t T" "T = plug (LF a (G @ H)) c" "tnodes t a = Some n"
    and X: "\<forall>x\<in>set (cflat_l c @ G). adr V x < adr V e" and Y: "\<forall>y\<in>set (H @ cflat_r c). adr V e \<le> adr V y"
    and es: "es = (cflat_l c @ G) @ H @ cflat_r c" and l: "length (G @ H) \<le> 12"
    and ti: "tree_insert V (Some e) t =
      (if \<exists>f\<in>set es. overlaps_vma (area_of V f) v then Some (t, False)
       else do {
         t \<leftarrow> (if length (G @ H) + 1 > 12
               then split_leaf V ((set_node t a (n\<lparr>entries := pad (G @ e # H), ncount := length (G @ e # H)\<rparr>))\<lparr>tsize := tsize t + 1\<rparr>) a
               else refresh_ancestors V ((set_node t a (n\<lparr>entries := pad (G @ e # H), ncount := length (G @ e # H)\<rparr>))\<lparr>tsize := tsize t + 1\<rparr>) (Some a));
         Some (t, True) })"
    by (rule insert_position [OF I False v]) (rule that)
  show ?thesis
  proof (cases "\<exists>f\<in>set es. overlaps_vma (area_of V f) v")
    case True
    then show ?thesis using ti by simp
  next
    case no: False
    define s where "s = (set_node t a (n\<lparr>entries := pad (G @ e # H), ncount := length (G @ e # H)\<rparr>))\<lparr>tsize := tsize t + 1\<rparr>"
    have kn: "\<forall>x\<in>set es. V x \<noteq> None" using I ordered_mem by (auto simp: index_inv_def)
    have L: "loose V s (LF a (G @ e # H)) c"
      unfolding s_def by (rule leaf_changed [OF T]) (use kn v(1) l es in \<open>auto simp: known_def\<close>)
    obtain t' T' where t': "tree_insert V (Some e) t = Some (t', True)" "tree_of V t' T'"
      "flat T' = cflat_l c @ (G @ e # H) @ cflat_r c" "tsize t' = tsize t + 1"
    proof (cases "length (G @ H) + 1 > 12")
      case True
      then obtain s' T' where "split_leaf V s a = Some s'" "tree_of V s' T'" "flat T' = flat (plug (LF a (G @ e # H)) c)" "tsize s' = tsize s"
        using split_leaf_rep [OF L] l by auto
      then show thesis using that [of s' T'] True no ti [folded s_def] by (simp add: mtree) (simp add: s_def)
    next
      case False
      then obtain s' where "refresh_ancestors V s (Some a) = Some s'" "tree_of V s' (plug (LF a (G @ e # H)) c)" "tsize s' = tsize s"
        using loose_refresh [OF L] by auto
      then show thesis using that [of s' "plug (LF a (G @ e # H)) c"] False no ti [folded s_def] by (simp add: mtree) (simp add: s_def)
    qed
    have "ordered V ((cflat_l c @ G) @ e # H @ cflat_r c)"
      by (rule ordered_insert [OF _ X Y]) (use I v no es in \<open>auto simp: index_inv_def area_of_def\<close>)
    moreover have "ins_area V e es = (cflat_l c @ G) @ e # H @ cflat_r c" unfolding es by (rule ins_area_split [OF X Y])
    ultimately have "index_inv V t' (ins_area V e es)" using t' I es by (auto simp: index_inv_def)
    then show ?thesis using t'(1) no by auto
  qed
qed

end
