(* ===== verification/Vma_Erase.thy ===== *)
theory Vma_Erase
  imports Vma_Insert_Leaf
begin

text \<open>
  Removal: taking an emptied leaf out of the list of leaves and out of its parent, collapsing an inner
  node left with one child, and the result of \<open>erase\<close> in terms of the ordered list of indexed areas.
\<close>

subsection \<open>Nodes left behind\<close>

text \<open>The state represents the tree \<open>T\<close> with its keys; \<open>X\<close> is what else the heap still holds.\<close>

definition stands :: "vma_mem \<Rightarrow> VmaMapleTree \<Rightarrow> mtree \<Rightarrow> nat set \<Rightarrow> bool" where
  "stands V s T X \<longleftrightarrow> root s = Some (nid T) \<and> srep (tnodes s) None T \<and> kok V (tnodes s) T \<and> wft T \<and> distinct (ids T)
     \<and> dom (tnodes s) = set (ids T) \<union> X"

text \<open>The node \<open>a\<close> in the context \<open>c\<close> is to be taken out.\<close>

definition cut :: "vma_mem \<Rightarrow> VmaMapleTree \<Rightarrow> nat \<Rightarrow> ctx \<Rightarrow> bool" where
  "cut V s a c \<longleftrightarrow> root s = Some (nid (plug (LF a []) c)) \<and> map_option parent (tnodes s a) = Some (cpar c) \<and> crep (tnodes s) c a
     \<and> wfc c \<and> skok V (tnodes s) c \<and> distinct (a # cids c) \<and> known V (cflat_l c @ cflat_r c) \<and> dom (tnodes s) = insert a (set (cids c))"

lemma nid_plug_ctx: "c \<noteq> [] \<Longrightarrow> nid (plug t c) \<in> set (cids c)"
proof (induction c arbitrary: t)
  case (Cons f c)
  obtain a ls rs where "f = (a, ls, rs)" by (cases f)
  then show ?case using Cons.IH by (cases "c = []") auto
qed simp

text \<open>The root has nothing to be collapsed.\<close>

lemma refresh_keys_id:
  assumes "srep (tnodes s) p (IN a ts)" "knode V (tnodes s) a ts" "ne (IN a ts)" "distinct (ids (IN a ts))" "known V (flat (IN a ts))"
  shows "refresh_keys V s (Some a) = Some s"
proof -
  obtain n where n: "tnodes s a = Some n" "take (length ts) (keys n) = map (fk V) ts" using assms(2) by (auto simp: knode_def)
  have "refresh_keys V s (Some a) = Some (set_node s a (n\<lparr>keys := map (fk V) ts @ drop (length ts) (keys n)\<rparr>))"
  proof (rule refresh_keys_rep [OF n(1), of p])
    show "inode (tnodes s) a p (map nid ts)" using assms(1) by simp
    fix t assume "t \<in> set ts"
    then show "(\<exists>q. srep (tnodes s) q t) \<and> ne t \<and> known V (flat t) \<and> a \<notin> set (ids t)"
      using assms by (auto simp: known_def)
  qed
  also have "map (fk V) ts @ drop (length ts) (keys n) = keys n" by (simp flip: n(2))
  finally show ?thesis using n(1) by (simp add: set_node_id)
qed

lemma compress_root_id:
  assumes "stands V s T X" "known V (flat T)"
  shows "compress_root V s = Some s"
proof (cases T)
  case (LF a es)
  with assms obtain n where "root s = Some a" "tnodes s a = Some n" "kind n = Leaf" by (auto simp: stands_def lnode_def)
  then show ?thesis by (subst compress_root.simps) simp
next
  case (IN a ts)
  with assms obtain n where "root s = Some a" "tnodes s a = Some n" "kind n = Internal" "ncount n = length ts" "2 \<le> length ts"
    by (auto simp: stands_def inode_def)
  moreover have "refresh_keys V s (Some a) = Some s"
    by (rule refresh_keys_id [of _ None]) (use assms IN wft_ne [of T] in \<open>simp_all add: stands_def\<close>)
  ultimately show ?thesis by (subst compress_root.simps) auto
qed

text \<open>Refreshing the ancestors of \<open>t\<close>.\<close>

lemma refresh_stands:
  assumes "root s = Some (nid (plug t c))" "srep (tnodes s) (cpar c) t" "crep (tnodes s) c (nid t)" "wft t" "wfc c"
    "kok V (tnodes s) t" "skok V (tnodes s) c" "distinct (ids t @ cids c)" "known V (flat (plug t c))"
    "dom (tnodes s) = set (ids t @ cids c) \<union> X"
  shows "\<exists>h'. refresh_ancestors V s (Some (nid t)) = Some (s\<lparr>tnodes := h'\<rparr>) \<and> stands V (s\<lparr>tnodes := h'\<rparr>) (plug t c) X
    \<and> (\<forall>x. same_links (tnodes s) h' x)"
proof -
  obtain h' where h': "refresh_from V s (cpar c) = Some (s\<lparr>tnodes := h'\<rparr>)" "rekeyed (path c) (tnodes s) h'" "ckok V h' c t"
    using refresh_from_rep [OF assms(2,3) wft_ne [OF assms(4)] assms(5,9,8)] by blast
  have d: "set (ids t) \<inter> set (cids c) = {}" "distinct (cids c)" using assms(8) by auto
  then have "path c \<inter> set (ids t) = {}" "path c \<inter> (set (cids c) - path c) = {}" using path_cids [of c] by auto
  then have "kok V h' t" "skok V h' c" using assms(6,7) rekeyed_kok [OF h'(2)] rekeyed_skok [OF h'(2)] d by auto
  then have "stands V (s\<lparr>tnodes := h'\<rparr>) (plug t c) X"
    using assms h' rekeyed_simps [OF h'(2)] by (simp add: stands_def mtree)
  moreover obtain n where "tnodes s (nid t) = Some n" "parent n = cpar c"
    using assms(2) by (cases t) (auto simp: lnode_def inode_def)
  ultimately show ?thesis using h' by (auto simp: refresh_ancestors_def rekeyed_def)
qed

subsection \<open>Taking a node out of its parent\<close>

lemma remove_step:
  assumes C: "cut V s a ((p, ls, rs) # c)"
  obtains h n where "remove_child V s (Some a) =
      (if c = [] then compress_root V (s\<lparr>tnodes := h\<rparr>)
       else if length (ls @ rs) = 1 then hoist_only_child V (s\<lparr>tnodes := h\<rparr>) p n
       else refresh_ancestors V (s\<lparr>tnodes := h\<rparr>) (Some p))"
    "h p = Some n" "inode h p (cpar c) (map nid (ls @ rs))" "\<And>u. u \<in> set (ls @ rs) \<Longrightarrow> srep h (Some p) u \<and> kok V h u" "knode V h p (ls @ rs)"
    "crep h c p" "skok V h c" "dom h = dom (tnodes s)" "\<And>x. same_links (tnodes s) h x"
proof -
  let ?cs = "map nid ls @ a # map nid rs" and ?ts = "ls @ rs"
  obtain n where n: "tnodes s p = Some n" "kind n = Internal" "ncount n = length ?cs" "parent n = cpar c" "children n = pad ?cs" "length (keys n) = 13"
    using C by (auto simp: cut_def inode_def)
  have D: "distinct (a # p # concat (map ids ls) @ concat (map ids rs) @ cids c)" using C by (simp add: cut_def)
  have sz: "1 \<le> length ?ts" "length ?ts \<le> 11" using C by (auto simp: cut_def)
  obtain m where m: "tnodes s a = Some m" "parent m = Some p" using C by (auto simp: cut_def)
  have al: "a \<notin> set (map nid ls)" using D nid_in_ids by (auto simp: disjoint_iff)
  have fci: "find_child_index s (Some p) (Some a) = Some (Some (length ls))"
    using n scan_ptr_hit [OF al, of "map nid rs"] by (simp add: find_child_index_def internal_at_def)
  obtain xs where xs: "shift_left (children n) (length ls) (ncount n) = Some xs" "arr_set xs (ncount n - 1) None = Some (pad (map nid ?ts))"
    using pad_shift_left [of "map nid ls" a "map nid rs"] n sz by (auto split: bind_splits)
  define n1 where "n1 = n\<lparr>children := pad (map nid ?ts), ncount := length ?ts\<rparr>"
  define s1 where "s1 = set_node s p n1"
  define n2 where "n2 = n1\<lparr>keys := map (fk V) ?ts @ drop (length ?ts) (keys n1)\<rparr>"
  have ap: "a \<noteq> p" "p \<notin> set (ids u)" "a \<notin> set (ids u)" if "u \<in> set ?ts" for u using that D by auto
  have pc: "p \<notin> set (cids c)" using D by auto
  have us: "srep (tnodes s) (Some p) u \<and> kok V (tnodes s) u" if "u \<in> set ?ts" for u using that C by (auto simp: cut_def)
  have rk: "refresh_keys V s1 (Some p) = Some (set_node s1 p n2)" unfolding n2_def
  proof (rule refresh_keys_rep)
    show "tnodes s1 p = Some n1" by (simp add: s1_def)
    show "inode (tnodes s1) p (cpar c) (map nid ?ts)" using n sz by (simp add: s1_def inode_def n1_def)
    fix u assume u: "u \<in> set ?ts"
    have "wfc ((p, ls, rs) # c)" "known V (cflat_l ((p, ls, rs) # c) @ cflat_r ((p, ls, rs) # c))" using C unfolding cut_def by blast+
    then have "wft u" "known V (flat u)" using u by (auto simp: known_def)
    then show "(\<exists>q. srep (tnodes s1) q u) \<and> ne u \<and> known V (flat u) \<and> p \<notin> set (ids u)"
      using us [OF u] ap [OF u] wft_ne by (auto simp: s1_def)
  qed
  have s1: "set_node s1 p n2 = s\<lparr>tnodes := (tnodes s)(p \<mapsto> n2)\<rparr>" by (simp add: s1_def set_node_def)
  have rt: "root s = Some p \<longleftrightarrow> c = []"
    using C nid_plug_ctx [of c "IN p (ls @ LF a [] # rs)"] pc by (auto simp: cut_def)
  have i2: "internal_at (s\<lparr>tnodes := (tnodes s)(p \<mapsto> n2)\<rparr>) p = Some n2" "ncount n2 = length ?ts"
    using n by (simp_all add: internal_at_def n2_def n1_def)
  have eq: "remove_child V s (Some a) =
      (if c = [] then compress_root V (s\<lparr>tnodes := (tnodes s)(p \<mapsto> n2)\<rparr>)
       else if length ?ts = 1 then hoist_only_child V (s\<lparr>tnodes := (tnodes s)(p \<mapsto> n2)\<rparr>) p n2
       else refresh_ancestors V (s\<lparr>tnodes := (tnodes s)(p \<mapsto> n2)\<rparr>) (Some p))"
  proof -
    define S where "S = s\<lparr>tnodes := (tnodes s)(p \<mapsto> n2)\<rparr>"
    have "internal_at s p = Some n" using n by (simp add: internal_at_def)
    moreover have "set_node s p (n\<lparr>children := pad (map nid ?ts), ncount := ncount n - 1\<rparr>) = s1" using n by (simp add: s1_def n1_def)
    moreover have "refresh_keys V s1 (Some p) = Some S" "internal_at S p = Some n2" "root S = Some p \<longleftrightarrow> c = []"
      using rk i2 rt by (simp_all add: S_def s1)
    moreover have "ncount n2 \<noteq> 0" using i2(2) sz by linarith
    ultimately show ?thesis using m fci xs i2(2) unfolding S_def [symmetric]
      by (subst remove_child.simps) auto
  qed
  show thesis
  proof (rule that [OF eq])
    show "inode ((tnodes s)(p \<mapsto> n2)) p (cpar c) (map nid ?ts)" using n sz by (simp add: inode_def n1_def n2_def)
    show "knode V ((tnodes s)(p \<mapsto> n2)) p ?ts" by (simp add: knode_def n2_def)
    show "srep ((tnodes s)(p \<mapsto> n2)) (Some p) u \<and> kok V ((tnodes s)(p \<mapsto> n2)) u" if "u \<in> set ?ts" for u
      using us [OF that] ap [OF that] by simp
    show "crep ((tnodes s)(p \<mapsto> n2)) c p" "skok V ((tnodes s)(p \<mapsto> n2)) c" using C pc by (simp_all add: cut_def)
    show "same_links (tnodes s) ((tnodes s)(p \<mapsto> n2)) x" for x
      using n by (cases "x = p") (auto simp: same_links_def n1_def n2_def)
  qed (use n in auto)
qed


lemma reparent_one:
  assumes "srep h p u" "distinct (ids u)" "h (nid u) = Some m"
  shows "srep (h(nid u \<mapsto> m\<lparr>parent := q\<rparr>)) q u" "kok V (h(nid u \<mapsto> m\<lparr>parent := q\<rparr>)) u = kok V h u"
proof -
  show "srep (h(nid u \<mapsto> m\<lparr>parent := q\<rparr>)) q u"
    by (rule srep_reparent [OF assms(1) _ _ _ assms(2)]) (use assms(3) in \<open>auto simp: shape_def\<close>)
  have "\<forall>x\<in>set (ids u). same_keys h (h(nid u \<mapsto> m\<lparr>parent := q\<rparr>)) x" using assms(3) by (auto simp: same_keys_def)
  from kok_cong [OF this, of V] show "kok V (h(nid u \<mapsto> m\<lparr>parent := q\<rparr>)) u = kok V h u" by simp
qed

text \<open>The root is left with the one child \<open>u\<close>, which becomes the root.\<close>

lemma collapse_root:
  assumes "root s = Some p" "inode (tnodes s) p None [nid u]" "srep (tnodes s) (Some p) u" "kok V (tnodes s) u" "wft u"
    "distinct (a # p # ids u)" "known V (flat u)" "dom (tnodes s) = set (a # p # ids u)"
  shows "\<exists>s'. compress_root V s = Some s' \<and> stands V s' u {a} \<and> (\<forall>x\<in>set (ids u). same_links (tnodes s) (tnodes s') x)
    \<and> rest_same s s' \<and> tfresh s' = tfresh s"
proof -
  obtain n where n: "tnodes s p = Some n" "kind n = Internal" "ncount n = 1" "children n = pad [nid u]" using assms(2) by (auto simp: inode_def)
  obtain m where m: "tnodes s (nid u) = Some m" using srep_in_dom [OF assms(3)] nid_in_ids [of u] by blast
  have pu: "p \<notin> set (ids u)" "a \<notin> set (ids u)" "a \<noteq> p" using assms(6) by auto
  then have pn: "p \<noteq> nid u" using nid_in_ids [of u] by metis
  define s' where "s' = s\<lparr>root := Some (nid u), tnodes := (tnodes s)(nid u \<mapsto> m\<lparr>parent := None\<rparr>, p := None)\<rparr>"
  have eq: "compress_root V s = compress_root V s'"
    using assms(1) n m pn by (subst compress_root.simps) (simp add: set_node_def delete_node_def s'_def)
  have "distinct (ids u)" using assms(6) by simp
  note r = reparent_one [OF assms(3) this m, where q = None]
  have dm: "dom (tnodes s') = set (ids u) \<union> {a}" using assms(8) m pu by (auto simp: s'_def)
  have st: "stands V s' u {a}" using assms r pu dm by (simp add: stands_def s'_def)
  moreover have "\<forall>x\<in>set (ids u). same_links (tnodes s) (tnodes s') x" using pu m by (auto simp: s'_def same_links_def)
  ultimately show ?thesis using compress_root_id [OF st assms(7)] eq by (auto simp: s'_def rest_same_def)
qed

text \<open>An inner node below \<open>g\<close> is left with the one child \<open>u\<close>, which takes its place.\<close>

lemma hoist_rep:
  assumes rt: "root s = Some (nid (plug u ((g, ls, rs) # c)))" and n: "tnodes s p = Some n"
    and i: "inode (tnodes s) p (Some g) [nid u]" and u: "srep (tnodes s) (Some p) u" "kok V (tnodes s) u" "wft u"
    and c: "crep (tnodes s) ((g, ls, rs) # c) p" "wfc ((g, ls, rs) # c)" "skok V (tnodes s) ((g, ls, rs) # c)"
    and d: "distinct (a # p # ids u @ cids ((g, ls, rs) # c))" and k: "known V (flat (plug u ((g, ls, rs) # c)))"
    and dm: "dom (tnodes s) = set (a # p # ids u @ cids ((g, ls, rs) # c))"
  shows "\<exists>s'. hoist_only_child V s p n = Some s' \<and> stands V s' (plug u ((g, ls, rs) # c)) {a}
    \<and> (\<forall>x\<in>set (ids (plug u ((g, ls, rs) # c))). same_links (tnodes s) (tnodes s') x) \<and> rest_same s s' \<and> tfresh s' = tfresh s"
proof -
  let ?ts = "ls @ u # rs"
  have nn: "children n = pad [nid u]" "parent n = Some g" using i n by (auto simp: inode_def)
  obtain m where m: "tnodes s (nid u) = Some m" using srep_in_dom [OF u(1)] nid_in_ids [of u] by blast
  obtain gn where gn: "tnodes s g = Some gn" "kind gn = Internal" "ncount gn = length ?ts" "parent gn = cpar c"
    "children gn = pad (map nid ls @ p # map nid rs)" "length (keys gn) = 13" "length ?ts \<le> 12" using c by (auto simp: inode_def)
  have D: "p \<notin> set (ids u)" "g \<notin> set (ids u)" "p \<noteq> g" "p \<notin> set (cids c)" "g \<notin> set (cids c)" "a \<noteq> p"
    "set (ids u) \<inter> set (cids c) = {}" "distinct (ids u)" using d by auto
  have W: "p \<notin> set (ids w)" "g \<notin> set (ids w)" "set (ids u) \<inter> set (ids w) = {}" if "w \<in> set ls \<union> set rs" for w
    using d that by auto
  have N: "nid u \<noteq> p" "nid u \<noteq> g" "nid u \<notin> set (cids c)" "\<And>w. w \<in> set ls \<union> set rs \<Longrightarrow> nid u \<notin> set (ids w)"
    using D W nid_in_ids [of u] by (metis disjoint_iff)+
  have pl: "p \<notin> set (map nid ls)" using W(1) nid_in_ids by (metis UnCI imageE list.set_map)
  define h0 where "h0 = (tnodes s)(g \<mapsto> gn\<lparr>children := pad (map nid ?ts)\<rparr>)"
  define h where "h = h0(nid u \<mapsto> m\<lparr>parent := Some g\<rparr>)"
  define gn' where "gn' = gn\<lparr>children := pad (map nid ?ts), keys := map (fk V) ?ts @ drop (length ?ts) (keys gn)\<rparr>"
  define s1 where "s1 = s\<lparr>tnodes := h(g \<mapsto> gn', p := None)\<rparr>"
  have as: "arr_set (children gn) (length ls) (Some (nid u)) = Some (pad (map nid ?ts))"
    using gn by (simp add: pad_def arr_set_def list_update_append)
  have hg: "h g = Some (gn\<lparr>children := pad (map nid ?ts)\<rparr>)" using N by (simp add: h_def h0_def)
  have h1: "srep h0 (Some p) u" "h0 (nid u) = Some m" "kok V h0 u" using u D N m by (simp_all add: h0_def)
  have su: "srep h (Some g) u" "kok V h u"
    using reparent_one [OF h1(1) D(8) h1(2), where q = "Some g"] h1(3) by (simp_all add: h_def)
  have ws: "srep h (Some g) w \<and> kok V h w" if "w \<in> set ls \<union> set rs" for w
    using that c(1,3) W [OF that] N(4) [OF that] by (auto simp: h_def h0_def)
  have all: "srep h (Some g) w \<and> kok V h w \<and> wft w \<and> known V (flat w) \<and> p \<notin> set (ids w) \<and> g \<notin> set (ids w)" if "w \<in> set ?ts" for w
  proof -
    have "known V (flat w)" using that k by (auto simp: flat_plug known_def)
    then show ?thesis using that su ws W D u(3) c(2) by auto
  qed
  have ih: "inode h g (cpar c) (map nid ?ts)" using hg gn by (simp add: inode_def)
  have rk: "refresh_keys V (s\<lparr>tnodes := h\<rparr>) (Some g) = Some (s\<lparr>tnodes := h(g \<mapsto> gn')\<rparr>)"
    using refresh_keys_rep [of "s\<lparr>tnodes := h\<rparr>" g "gn\<lparr>children := pad (map nid ?ts)\<rparr>" "cpar c" ?ts V] hg ih all wft_ne
    by (fastforce simp: set_node_def gn'_def)
  have hp: "(h(g \<mapsto> gn')) p = Some n" using N D n by (simp add: h_def h0_def)
  have eq: "hoist_only_child V s p n = (if root s = Some g then compress_root V s1 else refresh_ancestors V s1 (Some g))"
  proof -
    have "find_child_index s (Some g) (Some p) = Some (Some (length ls))"
      using gn scan_ptr_hit [OF pl, of "map nid rs"] by (simp add: find_child_index_def internal_at_def)
    moreover have "internal_at s g = Some gn" using gn by (simp add: internal_at_def)
    moreover have "set_node (set_node s g (gn\<lparr>children := pad (map nid ?ts)\<rparr>)) (nid u) (m\<lparr>parent := Some g\<rparr>) = s\<lparr>tnodes := h\<rparr>"
      by (simp add: set_node_def h_def h0_def)
    moreover have "tnodes (set_node s g (gn\<lparr>children := pad (map nid ?ts)\<rparr>)) (nid u) = Some m" using h1(2) by (simp add: h0_def)
    moreover have "delete_node (s\<lparr>tnodes := h(g \<mapsto> gn')\<rparr>) p = Some s1" using hp by (simp add: delete_node_def s1_def)
    moreover have "root s1 = root s" "arr_get (children n) 0 = Some (Some (nid u))" using nn by (simp_all add: s1_def)
    ultimately show ?thesis using as rk nn(2) by (simp add: hoist_only_child_def)
  qed
  let ?t = "IN g ?ts"
  have t: "srep (tnodes s1) (cpar c) ?t" "kok V (tnodes s1) ?t" "wft ?t"
    using all gn c(2) D(3) by (auto simp: s1_def inode_def knode_def gn'_def)
  have dt: "distinct (ids ?t @ cids c)"
  proof -
    have "mset (ids ?t @ cids c) = mset (ids u @ cids ((g, ls, rs) # c))" by simp
    moreover have "distinct (ids u @ cids ((g, ls, rs) # c))" using d unfolding distinct.simps by blast
    ultimately show ?thesis using mset_eq_imp_distinct_iff by blast
  qed
  have cc: "crep (tnodes s1) c g" "skok V (tnodes s1) c" using c D N by (simp_all add: s1_def h_def h0_def)
  have dm1: "dom (tnodes s1) = set (ids ?t @ cids c) \<union> {a}"
  proof -
    have "dom (tnodes s1) = dom (tnodes s) - {p}" using gn m D N by (auto simp: s1_def h_def h0_def)
    moreover have "p \<notin> set (a # ids u @ cids ((g, ls, rs) # c))" using d by auto
    moreover have "dom (tnodes s) = insert p (set (a # ids u @ cids ((g, ls, rs) # c)))" using dm by auto
    ultimately have "dom (tnodes s1) = set (a # ids u @ cids ((g, ls, rs) # c))" by (metis Diff_insert_absorb)
    then show ?thesis by auto
  qed
  have sl: "\<forall>x\<in>set (ids (plug u ((g, ls, rs) # c))). same_links (tnodes s) (tnodes s1) x"
  proof
    fix x assume "x \<in> set (ids (plug u ((g, ls, rs) # c)))"
    then have "x \<in> set (ids u) \<union> set (cids ((g, ls, rs) # c))" by (simp only: set_ids_plug)
    then have "x \<noteq> p" using d by auto
    then show "same_links (tnodes s) (tnodes s1) x" using gn m N
      by (cases "x = g"; cases "x = nid u") (auto simp: s1_def h_def h0_def gn'_def same_links_def)
  qed
  have r: "root s = Some g \<longleftrightarrow> c = []" using rt nid_plug_ctx [of c ?t] D(5) by (cases "c = []") auto
  show ?thesis
  proof (cases "c = []")
    case True
    then have "stands V s1 ?t {a}" using t dm1 dt rt by (simp add: stands_def s1_def)
    moreover have "known V (flat ?t)" using k True by simp
    ultimately show ?thesis using compress_root_id eq r True sl by (auto simp: s1_def rest_same_def)
  next
    case False
    have "\<exists>h'. refresh_ancestors V s1 (Some (nid ?t)) = Some (s1\<lparr>tnodes := h'\<rparr>) \<and> stands V (s1\<lparr>tnodes := h'\<rparr>) (plug ?t c) {a}
      \<and> (\<forall>x. same_links (tnodes s1) h' x)"
    proof (rule refresh_stands)
      show "root s1 = Some (nid (plug ?t c))" using rt by (simp add: s1_def)
      show "wfc c" using c(2) by simp
      show "known V (flat (plug ?t c))" using k by simp
      show "distinct (ids ?t @ cids c)" using dt .
      show "crep (tnodes s1) c (nid ?t)" using cc by simp
    qed (fact t cc dm1)+
    then obtain h' where h': "refresh_ancestors V s1 (Some g) = Some (s1\<lparr>tnodes := h'\<rparr>)" "stands V (s1\<lparr>tnodes := h'\<rparr>) (plug ?t c) {a}"
      "\<forall>x. same_links (tnodes s1) h' x" by auto
    have "\<forall>x\<in>set (ids (plug u ((g, ls, rs) # c))). same_links (tnodes s) h' x" using sl h'(3) by (simp add: same_links_def)
    then show ?thesis using h' eq r False by (auto simp: s1_def rest_same_def)
  qed
qed


lemma remove_child_rep:
  assumes C: "cut V s a c" and ne: "c \<noteq> []"
  shows "\<exists>s' T. remove_child V s (Some a) = Some s' \<and> stands V s' T {a} \<and> (\<forall>x\<in>set (ids T). same_links (tnodes s) (tnodes s') x)
    \<and> rest_same s s' \<and> tfresh s' = tfresh s \<and> lvs T = clvs_l c @ clvs_r c \<and> set (ids T) \<subseteq> set (cids c)"
proof -
  obtain p ls rs c' where c: "c = (p, ls, rs) # c'" by (cases c) (use ne in auto)
  let ?ts = "ls @ rs"
  obtain h n where eq: "remove_child V s (Some a) =
      (if c' = [] then compress_root V (s\<lparr>tnodes := h\<rparr>)
       else if length ?ts = 1 then hoist_only_child V (s\<lparr>tnodes := h\<rparr>) p n
       else refresh_ancestors V (s\<lparr>tnodes := h\<rparr>) (Some p))"
    and n: "h p = Some n" and i: "inode h p (cpar c') (map nid ?ts)" and u: "\<And>u. u \<in> set ?ts \<Longrightarrow> srep h (Some p) u \<and> kok V h u"
    and k: "knode V h p ?ts" and cc: "crep h c' p" "skok V h c'" and dm: "dom h = dom (tnodes s)" and sl: "\<And>x. same_links (tnodes s) h x"
    by (rule remove_step [OF C [unfolded c]]) (rule that)
  define S where "S = s\<lparr>tnodes := h\<rparr>"
  have S: "tnodes S = h" "root S = root s" "tfresh S = tfresh s" "rest_same S s' = rest_same s s'" for s' by (simp_all add: S_def rest_same_def)
  note eq = eq [folded S_def]
  have rt: "root s = Some (nid (plug (IN p ts) c'))" for ts using C c nid_plug [of c'] by (cases "c' = []") (auto simp: cut_def)
  have w: "wfc c'" "\<forall>u\<in>set ?ts. wft u" "1 \<le> length ?ts" "length ?ts \<le> 11" using C c by (auto simp: cut_def)
  have kn: "known V (cflat_l c' @ concat (map flat ?ts) @ cflat_r c')" using C c by (auto simp: cut_def known_def)
  have D: "distinct (a # p # concat (map ids ?ts) @ cids c')" using C c by (simp add: cut_def)
  have dh: "dom h = set (a # p # concat (map ids ?ts) @ cids c')" using C c dm by (auto simp: cut_def)
  have cl: "clvs_l c @ clvs_r c = clvs_l c' @ concat (map lvs ?ts) @ clvs_r c'" by (simp add: c)
  have ci: "set (cids c) = insert p (set (concat (map ids ?ts) @ cids c'))" by (auto simp: c)
  show ?thesis
  proof (cases "length ?ts = 1")
    case True
    then obtain v where v: "?ts = [v]" by (cases ?ts) auto
    have vs: "srep h (Some p) v" "kok V h v" "wft v" using u [of v] w(2) unfolding v by auto
    show ?thesis
    proof (cases c')
      case Nil
      have "\<exists>s'. compress_root V S = Some s' \<and> stands V s' v {a} \<and> (\<forall>x\<in>set (ids v). same_links (tnodes S) (tnodes s') x)
          \<and> rest_same S s' \<and> tfresh s' = tfresh S"
        by (rule collapse_root [of S p]) (use rt Nil i vs D kn dh v S in \<open>simp_all\<close>)
      then show ?thesis using eq Nil cl ci v sl S by (auto simp: same_links_def)
    next
      case (Cons f c'')
      obtain g ls' rs' where f: "f = (g, ls', rs')" by (cases f)
      have "\<exists>s'. hoist_only_child V S p n = Some s' \<and> stands V s' (plug v c') {a}
        \<and> (\<forall>x\<in>set (ids (plug v c')). same_links (tnodes S) (tnodes s') x) \<and> rest_same S s' \<and> tfresh s' = tfresh S"
        unfolding Cons f
      proof (rule hoist_rep)
        show "root S = Some (nid (plug v ((g, ls', rs') # c'')))" using rt [of "[]"] Cons f nid_plug [of c' "IN p []" v] S by simp
        show "inode (tnodes S) p (Some g) [nid v]" using i v Cons f S by simp
        show "distinct (a # p # ids v @ cids ((g, ls', rs') # c''))" using D [unfolded v Cons f] by simp
        show "dom (tnodes S) = set (a # p # ids v @ cids ((g, ls', rs') # c''))" using dh [unfolded v Cons f] S by simp
        show "known V (flat (plug v ((g, ls', rs') # c'')))" using kn [unfolded v Cons f] by (simp add: flat_plug)
      qed (use n vs cc w(1) Cons f S in simp_all)
      then obtain s' where s': "hoist_only_child V S p n = Some s'" "stands V s' (plug v c') {a}"
        "\<forall>x\<in>set (ids (plug v c')). same_links h (tnodes s') x" "rest_same s s'" "tfresh s' = tfresh s" using S by auto
      have "\<forall>x\<in>set (ids (plug v c')). same_links (tnodes s) (tnodes s') x" using s'(3) sl by (simp add: same_links_def)
      moreover have "remove_child V s (Some a) = Some s'" using eq s'(1) True Cons by simp
      moreover have "lvs (plug v c') = clvs_l c @ clvs_r c" unfolding cl v by (simp add: lvs_plug)
      moreover have "set (ids (plug v c')) \<subseteq> set (cids c)" unfolding ci v by (auto simp: set_ids_plug)
      ultimately show ?thesis using s' by blast
    qed
  next
    case False
    let ?t = "IN p ?ts"
    have t: "srep h (cpar c') ?t" "kok V h ?t" "wft ?t" using i u k w False by auto
    have dt: "distinct (ids ?t @ cids c')" "distinct (ids ?t)" using D by auto
    show ?thesis
    proof (cases "c' = []")
      case True
      have st: "stands V S ?t {a}" using t dh rt dt True by (auto simp: stands_def S)
      moreover have "known V (flat ?t)" using kn True by simp
      ultimately have "compress_root V S = Some S" by (rule compress_root_id)
      then have "remove_child V s (Some a) = Some S" using eq True by simp
      moreover have "\<forall>x\<in>set (ids ?t). same_links (tnodes s) (tnodes S) x" using sl S by simp
      moreover have "rest_same s S" "lvs ?t = clvs_l c @ clvs_r c" "set (ids ?t) \<subseteq> set (cids c)"
        using cl ci True by (simp_all add: S_def rest_same_def)
      ultimately show ?thesis using st S(3) by blast
    next
      case c': False
      have "\<exists>h'. refresh_ancestors V S (Some (nid ?t)) = Some (S\<lparr>tnodes := h'\<rparr>) \<and> stands V (S\<lparr>tnodes := h'\<rparr>) (plug ?t c') {a}
        \<and> (\<forall>x. same_links (tnodes S) h' x)"
        by (rule refresh_stands) (use rt t cc w(1) dt kn dh in \<open>simp_all add: S flat_plug\<close>)
      then obtain h' where h': "refresh_ancestors V S (Some p) = Some (S\<lparr>tnodes := h'\<rparr>)" "stands V (S\<lparr>tnodes := h'\<rparr>) (plug ?t c') {a}"
        "\<forall>x. same_links h h' x" using S by auto
      have "\<forall>x\<in>set (ids (plug ?t c')). same_links (tnodes s) (tnodes (S\<lparr>tnodes := h'\<rparr>)) x" using h'(3) sl by (simp add: same_links_def)
      moreover have "remove_child V s (Some a) = Some (S\<lparr>tnodes := h'\<rparr>)" using eq h'(1) c' False by simp
      moreover have "lvs (plug ?t c') = clvs_l c @ clvs_r c" unfolding cl by (simp add: lvs_plug)
      moreover have "set (ids (plug ?t c')) \<subseteq> set (cids c)" unfolding ci by (auto simp: set_ids_plug)
      moreover have "rest_same s (S\<lparr>tnodes := h'\<rparr>)" "tfresh (S\<lparr>tnodes := h'\<rparr>) = tfresh s" by (simp_all add: S_def rest_same_def)
      ultimately show ?thesis using h'(2) by blast
    qed
  qed
qed


subsection \<open>Taking a leaf out of the list\<close>

lemma chain_unlink:
  assumes "chain h p (A @ a # B) z"
    and "A \<noteq> [] \<Longrightarrow> link h' (last A) (olast p (butlast A)) (ohd B z)" "\<forall>x\<in>set (butlast A). same_links h h' x"
    and "B \<noteq> [] \<Longrightarrow> link h' (hd B) (olast p A) (ohd (tl B) z)" "\<forall>x\<in>set (tl B). same_links h h' x"
  shows "chain h' p (A @ B) z"
proof -
  have "chain h' p A (ohd B z)"
  proof (cases A rule: rev_cases)
    case (snoc A' q)
    then have "chain h p A' (Some q)" using assms(1) by simp
    then have "chain h' p A' (Some q)" using chain_cong [OF assms(3), of p "Some q"] snoc by simp
    then show ?thesis using snoc assms(2) by simp
  qed simp
  moreover have "chain h' (olast p A) B z"
  proof (cases B)
    case (Cons x B')
    then have "chain h (Some x) B' z" using assms(1) by simp
    then show ?thesis using Cons assms(4) chain_cong [OF assms(5), of "Some x" z] by simp
  qed simp
  ultimately show ?thesis by simp
qed

lemma unlink_leaf_rep:
  assumes ch: "chain (tnodes s) None (A @ a # B) None" and d: "distinct (A @ a # B)"
    and lf: "\<forall>x\<in>set (A @ a # B). \<exists>n. leaf_at s x = Some n"
    and ht: "head s = ohd (A @ a # B) None" "tail s = olast None (A @ a # B)"
  shows "\<exists>s'. unlink_leaf s a = Some s' \<and> chain (tnodes s') None (A @ B) None \<and> head s' = ohd (A @ B) None \<and> tail s' = olast None (A @ B)
    \<and> (\<forall>x. same_node (tnodes s) (tnodes s') x \<and> same_keys (tnodes s) (tnodes s') x) \<and> root s' = root s \<and> tfresh s' = tfresh s \<and> tsize s' = tsize s"
proof -
  obtain n where n: "tnodes s a = Some n" "kind n = Leaf" "prev_leaf n = olast None A" "next_leaf n = ohd B None"
    using ch lf by (auto simp: leaf_at_def link_def split: bind_splits if_splits)
  have lf': "\<exists>m. tnodes s x = Some m \<and> kind m = Leaf" if "x \<in> set (A @ B)" for x
    using lf that by (fastforce simp: leaf_at_def split: bind_splits if_splits)
  define s1 where "s1 = (if A = [] then s\<lparr>head := ohd B None\<rparr>
    else set_node s (last A) ((the (tnodes s (last A)))\<lparr>next_leaf := ohd B None\<rparr>))"
  define s2 where "s2 = (if B = [] then s1\<lparr>tail := olast None A\<rparr>
    else set_node s1 (hd B) ((the (tnodes s1 (hd B)))\<lparr>prev_leaf := olast None A\<rparr>))"
  have AB: "set A \<inter> set B = {}" using d by auto
  have la: "A \<noteq> [] \<Longrightarrow> last A \<noteq> a" "A \<noteq> [] \<Longrightarrow> B \<noteq> [] \<Longrightarrow> last A \<noteq> hd B" "B \<noteq> [] \<Longrightarrow> hd B \<noteq> a"
    using d AB last_in_set [of A] hd_in_set [of B] by (auto, metis disjoint_iff)
  have "unlink_leaf s a = Some s2"
    using n la lf' [of "last A"] lf' [of "hd B"] unfolding s1_def s2_def
    by (cases "A = []"; cases "B = []") (auto simp: unlink_leaf_def leaf_at_def olast_conv ohd_conv)
  moreover have "chain (tnodes s2) None (A @ B) None"
  proof (rule chain_unlink [OF ch])
    show "link (tnodes s2) (last A) (olast None (butlast A)) (ohd B None)" if "A \<noteq> []"
    proof -
      obtain A' q where A: "A = A' @ [q]" using \<open>A \<noteq> []\<close> by (cases A rule: rev_cases) auto
      then have "link (tnodes s) q (olast None A') (Some a)" using ch by simp
      then show ?thesis using A la by (auto simp: s1_def s2_def link_def)
    qed
    show "link (tnodes s2) (hd B) (olast None A) (ohd (tl B) None)" if "B \<noteq> []"
      using ch la that by (cases B) (auto simp: s1_def s2_def link_def)
    have keep: "same_links (tnodes s) (tnodes s2) x" if "A \<noteq> [] \<Longrightarrow> x \<noteq> last A" "B \<noteq> [] \<Longrightarrow> x \<noteq> hd B" for x
      using that by (simp add: s1_def s2_def same_links_def)
    show "\<forall>x\<in>set (butlast A). same_links (tnodes s) (tnodes s2) x"
    proof
      fix x assume x: "x \<in> set (butlast A)"
      then have "x \<noteq> last A" using d by (cases A rule: rev_cases) auto
      moreover have "x \<noteq> hd B" if "B \<noteq> []" using in_set_butlastD [OF x] hd_in_set [OF that] AB by (metis disjoint_iff)
      ultimately show "same_links (tnodes s) (tnodes s2) x" by (intro keep)
    qed
    show "\<forall>x\<in>set (tl B). same_links (tnodes s) (tnodes s2) x"
    proof
      fix x assume x: "x \<in> set (tl B)"
      then have "x \<noteq> hd B" "x \<in> set B" using d by (cases B; auto)+
      then show "same_links (tnodes s) (tnodes s2) x" using d last_in_set [of A] by (intro keep) (auto simp: disjoint_iff)
    qed
  qed
  moreover have "same_node (tnodes s) (tnodes s2) x \<and> same_keys (tnodes s) (tnodes s2) x" for x
  proof -
    have 1: "same_node (tnodes s) (tnodes s1) x \<and> same_keys (tnodes s) (tnodes s1) x"
      using lf' [of "last A"] by (cases "A = []") (auto simp: s1_def same_node_def same_keys_def shape_def)
    have "\<exists>m. tnodes s1 (hd B) = Some m" if "B \<noteq> []" using lf' [of "hd B"] la that by (auto simp: s1_def)
    then have "same_node (tnodes s1) (tnodes s2) x \<and> same_keys (tnodes s1) (tnodes s2) x"
      by (cases "B = []") (auto simp: s2_def same_node_def same_keys_def shape_def)
    with 1 show ?thesis by (simp add: same_node_def same_keys_def)
  qed
  moreover have "head s2 = ohd (A @ B) None" "tail s2 = olast None (A @ B)" using ht by (auto simp: s1_def s2_def olast_def ohd_conv)
  moreover have "root s2 = root s" "tfresh s2 = tfresh s" "tsize s2 = tsize s" by (simp_all add: s1_def s2_def)
  ultimately show ?thesis by blast
qed


subsection \<open>The removal of an area\<close>

lemma loose_cut:
  assumes "loose V s (LF a []) c" and "\<forall>x. same_node (tnodes s) h x \<and> same_keys (tnodes s) h x"
  shows "cut V (s\<lparr>tnodes := h\<rparr>) a c"
proof -
  have "crep h c a = crep (tnodes s) c a" "skok V h c = skok V (tnodes s) c"
    using crep_cong [of c "tnodes s" h a] skok_cong [of c "tnodes s" h V] assms(2) by auto
  moreover have "dom h = dom (tnodes s)" using assms(2) same_node_Some [of "tnodes s" h] by (auto simp: dom_def)
  moreover have "map_option parent (h a) = map_option parent (tnodes s a)" using assms(2) by (simp add: same_node_def)
  ultimately show ?thesis using assms(1) by (auto simp: loose_def cut_def flat_plug lnode_def)
qed

lemma erase_leaf_rep:
  assumes L: "loose V s (LF a []) c"
  shows "\<exists>s'. (do { t \<leftarrow> unlink_leaf s a; t \<leftarrow> remove_child V t (Some a); delete_node t a }) = Some s' \<and> tsize s' = tsize s
    \<and> (if c = [] then tnodes s' = Map.empty \<and> root s' = None \<and> head s' = None \<and> tail s' = None
       else \<exists>T. tree_of V s' T \<and> flat T = cflat_l c @ cflat_r c)"
proof -
  let ?A = "map fst (clvs_l c)" and ?B = "map fst (clvs_r c)"
  have li: "lids (plug (LF a []) c) = ?A @ a # ?B" by (simp add: lvs_plug)
  have d: "distinct (?A @ a # ?B)"
    using L distinct_lids [of "plug (LF a []) c"] distinct_ids_plug [of "LF a []" c] by (simp add: loose_def li)
  have sr: "srep (tnodes s) None (plug (LF a []) c)" using L by (simp add: loose_def srep_plug)
  have lf: "\<exists>n. leaf_at s x = Some n" if "x \<in> set (?A @ a # ?B)" for x
  proof -
    have "x \<in> set (lids (plug (LF a []) c))" using that unfolding li .
    then obtain fs where "(x, fs) \<in> set (lvs (plug (LF a []) c))" by auto
    then show ?thesis using lnode_of_leaf [OF sr] by (fastforce simp: lnode_def leaf_at_def)
  qed
  have "\<exists>s1. unlink_leaf s a = Some s1 \<and> chain (tnodes s1) None (?A @ ?B) None \<and> head s1 = ohd (?A @ ?B) None \<and> tail s1 = olast None (?A @ ?B)
    \<and> (\<forall>x. same_node (tnodes s) (tnodes s1) x \<and> same_keys (tnodes s) (tnodes s1) x) \<and> root s1 = root s \<and> tfresh s1 = tfresh s \<and> tsize s1 = tsize s"
    by (rule unlink_leaf_rep) (use L lf d in \<open>simp_all add: loose_def li\<close>)
  then obtain s1 where s1: "unlink_leaf s a = Some s1" "chain (tnodes s1) None (?A @ ?B) None" "head s1 = ohd (?A @ ?B) None" "tail s1 = olast None (?A @ ?B)"
    "\<forall>x. same_node (tnodes s) (tnodes s1) x \<and> same_keys (tnodes s) (tnodes s1) x" "root s1 = root s" "tfresh s1 = tfresh s" "tsize s1 = tsize s"
    by blast
  have C: "cut V s1 a c" using loose_cut [OF L s1(5)] s1(6) by (simp add: cut_def)
  have fr: "\<forall>p\<in>set (cids c). p < tfresh s" using L by (simp add: loose_def)
  show ?thesis
  proof (cases "c = []")
    case True
    then obtain n where "tnodes s1 a = Some n" "parent n = None" "root s1 = Some a" "dom (tnodes s1) = {a}" using C by (auto simp: cut_def)
    moreover from this(4) have "(tnodes s1)(a := None) = Map.empty" by (auto simp: fun_eq_iff dom_def)
    ultimately show ?thesis using s1(1,8) True by (subst remove_child.simps) (simp add: delete_node_def)
  next
    case False
    obtain s2 T where s2: "remove_child V s1 (Some a) = Some s2" "stands V s2 T {a}" "\<forall>x\<in>set (ids T). same_links (tnodes s1) (tnodes s2) x"
      "rest_same s1 s2" "tfresh s2 = tfresh s1" "lvs T = clvs_l c @ clvs_r c" "set (ids T) \<subseteq> set (cids c)"
      using remove_child_rep [OF C False] by blast
    define s3 where "s3 = s2\<lparr>tnodes := (tnodes s2)(a := None)\<rparr>"
    have aT: "a \<notin> set (ids T)" using s2(7) C by (auto simp: cut_def)
    have "delete_node s2 a = Some s3" 
    proof -
      obtain n where "tnodes s2 a = Some n" using s2(2) unfolding stands_def by blast
      then show ?thesis by (simp add: delete_node_def s3_def)
    qed
    moreover have "tree_of V s3 T"
    proof (rule holds_tree_of)
      show "holds V (tnodes s1) s3 T"
      proof -
        have "same_links (tnodes s1) (tnodes s3) x" if "x \<in> set (ids T)" for x using s2(3) aT that by (cases "x = a") (simp_all add: s3_def)
        moreover have "dom (tnodes s3) = set (ids T)" using s2(2) aT by (simp add: s3_def stands_def)
        ultimately show ?thesis using s2(2,5,7) aT fr s1(7) by (auto simp: holds_def stands_def s3_def)
      qed
      show "chain (tnodes s1) None (lids T) None" "head s3 = ohd (lids T) None" "tail s3 = olast None (lids T)"
        using s1 s2(4,6) by (simp_all add: s3_def rest_same_def)
    qed
    moreover have "flat T = cflat_l c @ cflat_r c" using s2(6) ents_ctx [of c] by (simp add: flat_lvs)
    moreover have "tsize s3 = tsize s" using s2(4) s1(8) by (simp add: s3_def rest_same_def)
    ultimately show ?thesis using s1(1) s2(1) False by auto
  qed
qed

lemma ctx_flat: "wfc c \<Longrightarrow> c \<noteq> [] \<Longrightarrow> cflat_l c @ cflat_r c \<noteq> []"
proof (cases c)
  case (Cons f c')
  obtain a ls rs where f: "f = (a, ls, rs)" by (cases f)
  assume "wfc c"
  then have "\<forall>t\<in>set (ls @ rs). wft t" "ls @ rs \<noteq> []" using Cons f by auto
  then obtain t where "t \<in> set (ls @ rs)" "wft t" using hd_in_set by blast
  then have "flat t \<noteq> []" using wft_ne ne_flat by blast
  with \<open>t \<in> set (ls @ rs)\<close> show ?thesis using Cons f by auto
qed simp

lemma ordered_mem_cong: "\<forall>x\<in>set es. W x = V x \<Longrightarrow> ordered W es = ordered V es"
  by (auto simp: ordered_def area_of_def sorted_wrt_iff_nth_less)

theorem tree_erase_at_rep:
  assumes I: "index_inv V t es" and e: "e \<in> set es" and W: "\<forall>x\<in>set es - {e}. W x = V x"
  shows "\<exists>t'. tree_erase_at W (Some e) (adr V e) t = Some t' \<and> index_inv W t' (remove1 e es)"
proof -
  obtain T A a F G B where T: "tree_of V t T" "lvs T = A @ (a, F @ e # G) # B" "es = ents A @ (F @ e # G) @ ents B"
    and loc: "locate_leaf_for_entry W t (Some e) (adr V e) = Some (Some a)"
    by (rule locate_present [OF I e])
  obtain c where c: "T = plug (LF a (F @ e # G)) c" "clvs_l c = A" "clvs_r c = B" using leaf_context [OF T(2)] by blast
  have es: "es = cflat_l c @ (F @ e # G) @ cflat_r c" using T(3) ents_ctx [of c] c by simp
  have o: "ordered V es" using I by (simp add: index_inv_def)
  have dis: "distinct es" using ordered_distinct [OF o] .
  have nin: "e \<notin> set (cflat_l c @ (F @ G) @ cflat_r c)" using dis unfolding es by simp
  then have rem: "remove1 e es = cflat_l c @ (F @ G) @ cflat_r c" unfolding es by (simp add: remove1_append)
  have mem: "\<forall>x\<in>set (cflat_l c @ (F @ G) @ cflat_r c). W x = V x \<and> V x \<noteq> None"
    using W nin ordered_mem [OF o] unfolding es by auto
  have ln: "lnode (tnodes t) a (cpar c) (F @ e # G)" using T(1) c(1) by (simp add: tree_of_def srep_plug)
  then obtain n where n: "tnodes t a = Some n" "kind n = Leaf" "ncount n = length (F @ e # G)" "entries n = pad (F @ e # G)"
    by (auto simp: lnode_def)
  have len: "length (F @ e # G) \<le> 12" using T(1) c(1) by (simp add: tree_of_def wft_plug)
  define s where "s = (set_node t a (n\<lparr>entries := pad (F @ G), ncount := length (F @ G)\<rparr>))\<lparr>tsize := tsize t - 1\<rparr>"
  have L: "loose W s (LF a (F @ G)) c" unfolding s_def
    by (rule leaf_changed [OF T(1) c(1) n(1)]) (use mem len in \<open>auto simp: known_def\<close>)
  have eq: "tree_erase_at W (Some e) (adr V e) t =
      (if F @ G = [] then do { t \<leftarrow> unlink_leaf s a; t \<leftarrow> remove_child W t (Some a); delete_node t a } else refresh_ancestors W s (Some a))"
  proof -
    have "scan (is_ptr e) (entries n) 0 (ncount n) = Some (Some (length F))" using n nin scan_ptr_hit [of e F G] by simp
    moreover obtain xs where "shift_left (entries n) (length F) (ncount n) = Some xs" "arr_set xs (ncount n - 1) None = Some (pad (F @ G))"
      using pad_shift_left [of F e G] n len by (auto split: bind_splits)
    moreover obtain r where "root t = Some r" using T(1) by (simp add: tree_of_def)
    moreover have "leaf_at t a = Some n" "ncount n - 1 = length (F @ G)" using n by (simp_all add: leaf_at_def)
    ultimately show ?thesis using loc compact_leaf_id [OF ln, of W] unfolding s_def
      by (cases "F @ G = []") (auto simp: tree_erase_at_def Let_def)
  qed
  have "ordered V (cflat_l c @ (F @ G) @ cflat_r c)" using o unfolding es by (auto simp: ordered_append ordered_Cons)
  then have ord: "ordered W (remove1 e es)" unfolding rem using ordered_mem_cong mem by blast
  have ts: "tsize s = int (length (remove1 e es))" using I unfolding rem by (simp add: s_def index_inv_def es)
  show ?thesis
  proof (cases "F @ G = []")
    case True
    then have L0: "loose W s (LF a []) c" and eq0: "F = []" "G = []" using L by simp_all
    obtain s' where "tree_erase_at W (Some e) (adr V e) t = Some s'" "tsize s' = tsize s"
      "if c = [] then tnodes s' = Map.empty \<and> root s' = None \<and> head s' = None \<and> tail s' = None
       else \<exists>T. tree_of W s' T \<and> flat T = cflat_l c @ cflat_r c" using erase_leaf_rep [OF L0] eq True by auto
    moreover have "remove1 e es = [] \<longleftrightarrow> c = []" using rem eq0 ctx_flat [of c] L by (auto simp: loose_def)
    ultimately show ?thesis using ord ts rem eq0 by (auto simp: index_inv_def)
  next
    case False
    then have "wft (LF a (F @ G))" using len by simp
    then obtain s' where "refresh_ancestors W s (Some a) = Some s'" "tree_of W s' (plug (LF a (F @ G)) c)" "tsize s' = tsize s"
      using loose_refresh [OF L] by auto
    then show ?thesis using eq False ord ts by (auto simp: index_inv_def rem flat_plug)
  qed
qed


text \<open>An area that is not indexed is not removed.\<close>

theorem tree_erase_at_absent:
  assumes I: "index_inv V t es" and e: "e \<notin> set es"
  shows "tree_erase_at V (Some e) key t = Some t"
  using locate_absent [OF I e] by (simp add: tree_erase_at_def)

lemma ins_remove:
  assumes "ordered V es" "e \<notin> set es"
  shows "remove1 e (ins_area V e es) = es"
proof -
  have "e \<notin> set (takeWhile (\<lambda>f. adr V f < adr V e) es)" by (auto dest: set_takeWhileD)
  then show ?thesis by (simp add: ins_area_def remove1_append)
qed

end
