(* ===== verification/Vma_Gap.thy ===== *)
theory Vma_Gap
  imports Vma_Erase
begin

text \<open>
  The search for free address ranges, the conflict test with an area to be ignored, the traversals, and
  the destruction of the index.
\<close>

subsection \<open>Free ranges\<close>

abbreviation aligned :: "nat \<Rightarrow> nat \<Rightarrow> bool" where
  "aligned al g \<equiv> al = 0 \<or> al dvd g"

text \<open>Rounding up either gives the least multiple, or wraps to zero when there is none below \<open>2^64\<close>.\<close>

lemma align_up_least:
  assumes "0 < x" "x < 2 ^ 64" "al = 0 \<or> al dvd 2 ^ 64"
  shows "align_up x al \<noteq> 0 \<and> x \<le> align_up x al \<and> aligned al (align_up x al) \<and> (\<forall>g. x \<le> g \<longrightarrow> aligned al g \<longrightarrow> align_up x al \<le> g)
    \<or> align_up x al = 0 \<and> (\<forall>g. x \<le> g \<longrightarrow> aligned al g \<longrightarrow> 2 ^ 64 \<le> g)"
proof (cases "al = 0 \<or> x mod al = 0")
  case True
  then show ?thesis using assms(1) by (auto simp: align_up_def Let_def)
next
  case False
  define m where "m = (x div al + 1) * al"
  obtain k where k: "(2::nat) ^ 64 = k * al" using False assms(3) by (auto simp: dvd_def mult.commute)
  have r: "0 < x mod al" "x mod al < al" using False by auto
  have x: "x = x div al * al + x mod al" by simp
  have lo: "x < m" unfolding m_def using r x by (metis add_mult_distrib nat_add_left_cancel_less nat_mult_1)
  have "x div al < k" using assms(2) k by (simp add: less_mult_imp_div_less)
  then have "m \<le> 2 ^ 64" unfolding m_def k by (intro mult_le_mono1) simp
  have least: "m \<le> g" if "x \<le> g" "al dvd g" for g
  proof -
    obtain j where j: "g = j * al" using \<open>al dvd g\<close> by (auto simp: dvd_def mult.commute)
    have "x div al * al < j * al" using x r \<open>x \<le> g\<close> j by linarith
    then have "x div al + 1 \<le> j" by simp
    then show ?thesis unfolding m_def j by (rule mult_le_mono1)
  qed
  have "x mod al + (al - x mod al) = al" using r by simp
  then have "x + (al - x mod al) = x div al * al + al" using x by linarith
  then have "x + (al - x mod al) = m" by (simp add: m_def)
  then have a: "align_up x al = m mod 2 ^ 64" using False r by (simp add: align_up_def u64_sub_def u64_add_def)
  show ?thesis
  proof (cases "m = 2 ^ 64")
    case True
    then show ?thesis using a least False by auto
  next
    case m: False
    then have "m < 2 ^ 64" using \<open>m \<le> 2 ^ 64\<close> by simp
    then have "align_up x al = m" using a by simp
    moreover have "al dvd m" by (simp add: m_def)
    ultimately show ?thesis using least lo False by auto
  qed
qed

lemma align_up_cases:
  assumes "0 < x" "x < 2 ^ 64" "al = 0 \<or> al dvd 2 ^ 64"
  obtains (fits) "align_up x al \<noteq> 0" "x \<le> align_up x al" "aligned al (align_up x al)" "\<forall>g. x \<le> g \<longrightarrow> aligned al g \<longrightarrow> align_up x al \<le> g"
    | (wraps) "align_up x al = 0" "\<forall>g. x \<le> g \<longrightarrow> aligned al g \<longrightarrow> 2 ^ 64 \<le> g"
proof (rule disjE [OF align_up_least [OF assms]], goal_cases)
  case 1
  then show ?case by (elim conjE) (rule that(1))
next
  case 2
  then show ?case by (elim conjE) (rule that(2))
qed

text \<open>
  \<open>gap_at\<close>: the range \<open>[g, g + need)\<close> lies in the window, is aligned, and meets no area of the list;
  \<open>answer\<close>: the least such start, or zero when there is none.
\<close>

definition gap_at :: "vma_mem \<Rightarrow> nat list \<Rightarrow> nat \<Rightarrow> nat \<Rightarrow> nat \<Rightarrow> nat \<Rightarrow> nat \<Rightarrow> bool" where
  "gap_at V es lo hi need al g \<longleftrightarrow> lo \<le> g \<and> g + need \<le> hi \<and> aligned al g \<and> (\<forall>e\<in>set es. fin V e \<le> g \<or> g + need \<le> adr V e)"

definition answer :: "vma_mem \<Rightarrow> nat list \<Rightarrow> nat \<Rightarrow> nat \<Rightarrow> nat \<Rightarrow> nat \<Rightarrow> nat \<Rightarrow> bool" where
  "answer V es lo hi need al r \<longleftrightarrow>
     (if r = 0 then \<forall>g. \<not> gap_at V es lo hi need al g
      else gap_at V es lo hi need al r \<and> (\<forall>g. gap_at V es lo hi need al g \<longrightarrow> r \<le> g))"

lemma gap_at_append: "gap_at V (X @ Y) lo hi need al g \<longleftrightarrow> gap_at V X lo hi need al g \<and> (\<forall>e\<in>set Y. fin V e \<le> g \<or> g + need \<le> adr V e)"
  by (auto simp: gap_at_def)

lemma answer_stays:
  assumes "answer V X lo hi need al r" "r \<noteq> 0 \<Longrightarrow> \<forall>e\<in>set Y. fin V e \<le> r \<or> r + need \<le> adr V e"
  shows "answer V (X @ Y) lo hi need al r"
  using assms by (auto simp: answer_def gap_at_append split: if_splits)

lemma gap_fits_iff: "gap_fits hi need r \<longleftrightarrow> r + need \<le> hi"
  by (auto simp: gap_fits_def u64_sub_def)

text \<open>Skipping an area that ends behind the cursor and leaves no room before it.\<close>

lemma answer_skip:
  assumes A: "answer V X lo hi need al c" and o: "ordered V (X @ [e])" and e: "c < fin V e" "lo < fin V e"
    and no: "\<not> c + need \<le> adr V e" and w: "0 < need" "hi < 2 ^ 64" "al = 0 \<or> al dvd 2 ^ 64"
  defines "c' \<equiv> align_up (fin V e) al"
  shows "if gap_fits hi need c' then answer V (X @ [e]) lo hi need al c'
    else \<forall>g. \<not> gap_at V (X @ [e]) lo hi need al g"
proof -
  have X: "\<forall>x\<in>set X. fin V x \<le> fin V e" using o ordered_less [OF o, of e] by (fastforce simp: ordered_append)
  have f: "0 < fin V e" "fin V e < 2 ^ 64" using e(1) end_addr_typed by auto
  have ge: "fin V e \<le> g" if "gap_at V (X @ [e]) lo hi need al g" for g
  proof (cases "c = 0")
    case True
    then show ?thesis using A that by (simp add: answer_def gap_at_append)
  next
    case False
    then have "c \<le> g" using A that by (simp add: answer_def gap_at_append)
    then show ?thesis using that no by (auto simp: gap_at_append)
  qed
  from f w(3) show ?thesis
  proof (cases rule: align_up_cases [of "fin V e" al])
    case fits
    note fits = fits [folded c'_def]
    have le: "c' \<le> g" if "gap_at V (X @ [e]) lo hi need al g" for g using ge [OF that] fits(4) that unfolding gap_at_def by blast
    have "gap_at V (X @ [e]) lo hi need al c'" if "gap_fits hi need c'"
      using that fits(2,3) e(2) X by (auto simp: gap_at_def gap_fits_iff intro: order_trans)
    moreover have False if "\<not> gap_fits hi need c'" "gap_at V (X @ [e]) lo hi need al g" for g
      using le [OF that(2)] that by (simp add: gap_at_def gap_fits_iff)
    ultimately show ?thesis using le fits(1) by (auto simp: answer_def)
  next
    case wraps
    note wraps = wraps [folded c'_def]
    have "\<not> gap_at V (X @ [e]) lo hi need al g" for g using ge [of g] wraps(2) w(2) by (auto simp: gap_at_def)
    then show ?thesis using wraps(1) by (simp add: answer_def)
  qed
qed

lemma find_gap_loop_rep:
  assumes I: "index_inv V t (X @ Y)" and A: "answer V X lo hi need al c" and f: "gap_fits hi need c"
    and w: "0 < need" "hi < 2 ^ 64" "al = 0 \<or> al dvd 2 ^ 64" and Y: "\<forall>y\<in>set Y. lo < fin V y"
  shows "\<exists>r. find_gap_loop V t hi need al c (ohd Y None) = Some r \<and> answer V (X @ Y) lo hi need al r"
  using I A f Y
proof (induction Y arbitrary: X c)
  case Nil
  then show ?case by (subst find_gap_loop.simps) (simp add: gap_fits_def)
next
  case (Cons e Y)
  have o: "ordered V (X @ e # Y)" using Cons.prems(1) by (simp add: index_inv_def)
  obtain v where "V e = Some v" using ordered_mem [OF o, of e] by auto
  then have v: "V e = Some v" "adr V e = addr v" "fin V e = end_addr v" by (simp_all add: area_of_def)
  have later: "\<forall>y\<in>set (e # Y). adr V e \<le> adr V y" using o ordered_less [OF o, of e] by (fastforce simp: ordered_append ordered_Cons)
  have stop: "answer V (X @ e # Y) lo hi need al c" if "c + need \<le> adr V e"
    by (rule answer_stays [OF Cons.prems(2)]) (use later that in fastforce)
  have fit: "need \<le> u64_sub hi c" "c + need \<le> hi" using Cons.prems(3) by (auto simp: gap_fits_def u64_sub_def)
  have nx: "tree_next V t (Some e) = Some (ohd Y None)" using Cons.prems(1) by (rule tree_next_rep)
  have IH: "\<exists>r. find_gap_loop V t hi need al c' (ohd Y None) = Some r \<and> answer V (X @ e # Y) lo hi need al r"
    if "answer V (X @ [e]) lo hi need al c'" "gap_fits hi need c'" for c'
    using Cons.IH [of "X @ [e]" c'] that Cons.prems(1,4) by simp
  show ?case
  proof (cases "c + need \<le> adr V e")
    case True
    then have "find_gap_loop V t hi need al c (ohd (e # Y) None) = Some c"
      using fit v w(1) by (subst find_gap_loop.simps) (auto simp: u64_sub_def)
    then show ?thesis using stop [OF True] by blast
  next
    case no: False
    then have ne: "\<not> addr v > hi" "\<not> (c < addr v \<and> c \<le> addr v \<and> need \<le> u64_sub (addr v) c)"
      using fit(2) v by (auto simp: u64_sub_def)
    have o1: "ordered V (X @ [e])" using o by (auto simp: ordered_append ordered_Cons)
    show ?thesis
    proof (cases "c < fin V e")
      case True
      define c' where "c' = align_up (fin V e) al"
      have eq: "find_gap_loop V t hi need al c (ohd (e # Y) None) =
          (if gap_fits hi need c' then find_gap_loop V t hi need al c' (ohd Y None) else Some 0)"
        using ne v nx True by (subst find_gap_loop.simps) (auto simp: c'_def)
      have sk: "if gap_fits hi need c' then answer V (X @ [e]) lo hi need al c' else \<forall>g. \<not> gap_at V (X @ [e]) lo hi need al g"
        unfolding c'_def by (rule answer_skip [OF Cons.prems(2) o1 True _ no w]) (use Cons.prems(4) in simp)
      show ?thesis
      proof (cases "gap_fits hi need c'")
        case True
        then show ?thesis using eq sk IH by simp
      next
        case False
        then have "answer V (X @ e # Y) lo hi need al 0" using sk gap_at_append [of V "X @ [e]" Y] by (simp add: answer_def)
        then show ?thesis using eq False by simp
      qed
    next
      case False
      have "answer V (X @ [e]) lo hi need al c" by (rule answer_stays [OF Cons.prems(2)]) (use False in simp)
      moreover have "find_gap_loop V t hi need al c (ohd (e # Y) None) = find_gap_loop V t hi need al c (ohd Y None)"
        using ne v nx False by (subst find_gap_loop.simps) auto
      ultimately show ?thesis using IH Cons.prems(3) by simp
    qed
  qed
qed

theorem find_gap_rep:
  assumes I: "index_inv V t es" and al: "al = 0 \<or> al dvd 2 ^ 64"
    and w: "0 < min_addr" "start_hint < 2 ^ 64" "max_addr < 2 ^ 64" "0 < need"
  shows "\<exists>r. find_gap V t start_hint min_addr max_addr need al = Some r \<and> answer V es (max start_hint min_addr) max_addr need al r"
proof -
  define lo where "lo = max start_hint min_addr"
  let ?go = "find_gap V t start_hint min_addr max_addr need al"
  have none: "?thesis" if "?go = Some 0" "\<And>g. \<not> gap_at V es lo max_addr need al g" using that by (simp add: answer_def lo_def)
  have o: "ordered V es" using I by (simp add: index_inv_def)
  define c where "c = align_up lo al"
  have lo': "(if start_hint > min_addr then start_hint else min_addr) = lo" by (simp add: lo_def)
  show ?thesis
  proof (cases "max_addr \<le> min_addr")
    case True
    then show ?thesis using w by (intro none) (auto simp: find_gap_def gap_at_def lo_def)
  next
    case win: False
    have "0 < lo" "lo < 2 ^ 64" using w win by (auto simp: lo_def)
    from this al show ?thesis
    proof (cases rule: align_up_cases [of lo al])
      case wraps
      note wrap = wraps [folded c_def]
      have "?go = Some 0" using wrap(1) w win by (simp add: find_gap_def lo' c_def [symmetric])
      then show ?thesis by (rule none) (use wrap(2) w(3) in \<open>auto simp: gap_at_def\<close>)
    next
      case fits
      note ok = fits [folded c_def]
      have cm: "\<not> c < min_addr" using ok(2) by (simp add: lo_def)
      show ?thesis
      proof (cases "gap_fits max_addr need c")
        case False
        have "?go = Some 0" using False w(4) win cm by (simp add: find_gap_def lo' c_def [symmetric])
        then show ?thesis by (rule none) (use False ok(4) in \<open>auto simp: gap_at_def gap_fits_iff\<close>)
      next
        case fit: True
        have A: "answer V X lo max_addr need al c" if "\<forall>x\<in>set X. fin V x \<le> c" for X
          using that ok fit by (auto simp: answer_def gap_at_def gap_fits_iff)
        show ?thesis
        proof (cases "find (\<lambda>e. covers (area_of V e) c) es")
          case (Some e)
          then have e: "e \<in> set es" "covers (area_of V e) c" by (rule find_covers_Some)+
          then obtain X Y where es: "es = X @ e # Y" by (metis split_list)
          have ce: "adr V e \<le> c" "c < fin V e" using e covers_iff [OF o e(1)] by simp_all
          have X: "\<forall>x\<in>set X. fin V x \<le> c" and Y: "\<forall>y\<in>set Y. lo < fin V y" and o1: "ordered V (X @ [e])"
            using o ce ok(2) ordered_less [OF o] unfolding es by (fastforce simp: ordered_append ordered_Cons)+
          define c' where "c' = align_up (fin V e) al"
          have eq: "?go = (if gap_fits max_addr need c' then find_gap_loop V t max_addr need al c' (ohd Y None) else Some 0)"
          proof -
            have "V e = Some (area_of V e)" using ordered_mem [OF o e(1)] by (auto simp: area_of_def)
            moreover have "tree_find V t c = Some (Some e)" using tree_find_rep [OF I] Some by simp
            moreover have "tree_next V t (Some e) = Some (ohd Y None)" using I unfolding es by (rule tree_next_rep)
            ultimately show ?thesis using win cm fit w(4) by (simp add: find_gap_def lo' c_def [symmetric] c'_def Let_def)
          qed
          have "if gap_fits max_addr need c' then answer V (X @ [e]) lo max_addr need al c'
            else \<forall>g. \<not> gap_at V (X @ [e]) lo max_addr need al g"
            unfolding c'_def by (rule answer_skip [OF A [OF X] o1 ce(2) _ _ w(4,3) al]) (use ce ok(2) w(4) in simp_all)
          note sk = this
          show ?thesis
          proof (cases "gap_fits max_addr need c'")
            case True
            have "\<exists>r. find_gap_loop V t max_addr need al c' (ohd Y None) = Some r \<and> answer V ((X @ [e]) @ Y) lo max_addr need al r"
              by (rule find_gap_loop_rep [OF _ _ True w(4,3) al Y]) (use I es sk True in simp_all)
            then show ?thesis using eq True by (simp add: es lo_def)
          next
            case False
            have "\<not> gap_at V es lo max_addr need al g" for g
              using False sk gap_at_append [of V "X @ [e]" Y lo max_addr need al g] by (simp add: es)
            then show ?thesis using eq False none by simp
          qed
        next
          case None
          define X Y where "X = takeWhile (\<lambda>e. adr V e < c) es" and "Y = dropWhile (\<lambda>e. adr V e < c) es"
          have es: "es = X @ Y" by (simp add: X_def Y_def)
          have X: "\<forall>x\<in>set X. fin V x \<le> c"
          proof
            fix x assume "x \<in> set X"
            then have "adr V x < c" "x \<in> set es" by (auto simp: X_def dest: set_takeWhileD)
            moreover have "\<not> covers (area_of V x) c" using None \<open>x \<in> set es\<close> by (simp add: find_None_iff)
            ultimately show "fin V x \<le> c" using covers_iff [OF o, of x c] by simp
          qed
          have Y: "\<forall>y\<in>set Y. lo < fin V y"
          proof
            fix y assume y: "y \<in> set Y"
            then obtain h H where Yh: "Y = h # H" by (cases Y) auto
            have "c \<le> adr V h" using Yh dropWhile_eq_Cons_conv [of "\<lambda>e. adr V e < c" es h H] by (simp add: Y_def)
            moreover have "adr V h \<le> adr V y" using o y ordered_less [OF o, of h] unfolding es Yh
              by (fastforce simp: ordered_append ordered_Cons)
            moreover have "adr V y < fin V y" using y by (intro ordered_less [OF o]) (simp add: es)
            ultimately show "lo < fin V y" using ok(2) by linarith
          qed
          have eq: "?go = find_gap_loop V t max_addr need al c (ohd Y None)"
          proof -
            have "(case olast None X of None \<Rightarrow> Some None
                | Some e \<Rightarrow> do { v \<leftarrow> V e; Some (if end_addr v > c then Some (end_addr v) else None) }) = Some None"
            proof (cases "X = []")
              case False
              then have "last X \<in> set X" by simp
              moreover from this obtain v where "V (last X) = Some v" using ordered_mem [OF o, of "last X"] es by auto
              moreover have "fin V (last X) \<le> c" using X \<open>last X \<in> set X\<close> by blast
              ultimately show ?thesis using False by (auto simp: olast_def area_of_def)
            qed simp
            moreover have "lower_bound V t c = Some (ohd Y None)"
              using lower_bound_rep [OF I, of c] find_dropWhile [of "\<lambda>e. c \<le> adr V e" es]
              by (simp add: Y_def ohd_def not_le comp_def)
            moreover have "tree_find V t c = Some None" using tree_find_rep [OF I] None by simp
            moreover have "prev_by_start V t c = Some (olast None X)" using prev_by_start_rep [OF I] by (simp add: X_def)
            ultimately show ?thesis using win cm fit w(4) by (simp add: find_gap_def lo' c_def [symmetric] Let_def)
          qed
          show ?thesis using find_gap_loop_rep [OF _ A [OF X] fit w(4,3) al Y, of t] I eq unfolding es lo_def by simp
        qed
      qed
    qed
  qed
qed


subsection \<open>Conflicts except with one area\<close>

text \<open>
  The answer with an area to be ignored. It is right unless the ignored area is the first one at or
  after \<open>start\<close>: then the areas behind it are not examined.
\<close>

lemma has_conflict_ignore:
  assumes I: "index_inv V t es" and lt: "start < stop"
  shows "has_conflict V t start stop (Some i) = Some
    ((\<exists>e\<in>set es. e \<noteq> i \<and> covers (area_of V e) start)
     \<or> (case find (\<lambda>e. start \<le> adr V e) es of None \<Rightarrow> False | Some e \<Rightarrow> e \<noteq> i \<and> adr V e < stop))"
proof -
  have o: "ordered V es" using I by (simp add: index_inv_def)
  have "(\<exists>e\<in>set es. e \<noteq> i \<and> covers (area_of V e) start) \<longleftrightarrow> find (\<lambda>e. covers (area_of V e) start) es \<notin> {None, Some i}"
  proof (cases "find (\<lambda>e. covers (area_of V e) start) es")
    case None
    then show ?thesis by (auto simp: find_None_iff)
  next
    case (Some e)
    then have e: "e \<in> set es" "covers (area_of V e) start" by (rule find_covers_Some)+
    then obtain X Y where es: "es = X @ e # Y" by (metis split_list)
    have "f = e" if "f \<in> set es" "covers (area_of V f) start" for f
      using covering_unique [OF o [unfolded es] e(2), of f] that es by auto
    then have "(\<exists>f\<in>set es. f \<noteq> i \<and> covers (area_of V f) start) \<longleftrightarrow> e \<noteq> i" using e by blast
    then show ?thesis using Some by simp
  qed
  moreover have "V e = Some (area_of V e)" if "find (\<lambda>e. start \<le> adr V e) es = Some e" for e
    using that ordered_mem [OF o, of e] by (auto simp: find_Some_iff area_of_def)
  ultimately show ?thesis using lt tree_find_rep [OF I, of start] lower_bound_rep [OF I, of start]
    by (cases "find (\<lambda>e. start \<le> adr V e) es") (auto simp: has_conflict_def)
qed

subsection \<open>Traversals\<close>

declare for_entries.simps [simp del]

primrec visit :: "(nat \<Rightarrow> 's \<Rightarrow> ('s \<times> bool) option) \<Rightarrow> nat list \<Rightarrow> 's \<Rightarrow> ('s \<times> bool) option" where
  "visit fn [] s = Some (s, True)"
| "visit fn (e # es) s = do { r \<leftarrow> fn e s; if snd r then visit fn es (fst r) else Some (fst r, False) }"

lemma visit_append: "visit fn (A @ B) s = do { r \<leftarrow> visit fn A s; if snd r then visit fn B (fst r) else Some (fst r, False) }"
  by (induction A arbitrary: s) (auto split: bind_splits)

lemma for_entries_rep:
  assumes "entries n = pad fs" "ncount n = length fs" "i \<le> length fs"
  shows "for_entries fn n i s = visit fn (drop i fs) s"
  using assms(3)
proof (induction "length fs - i" arbitrary: i s)
  case 0
  then show ?case by (subst for_entries.simps) (simp add: assms)
next
  case (Suc k)
  then have i: "i < length fs" "drop i fs = fs ! i # drop (i + 1) fs" by (simp_all add: Cons_nth_drop_Suc)
  have "for_entries fn n (i + 1) s = visit fn (drop (i + 1) fs) s" for s using Suc(1) [of "i + 1" s] Suc(2,3) i by simp
  then show ?case using i assms by (cases "fn (fs ! i) s") (subst for_entries.simps, auto)+
qed

lemma for_leaves_rep:
  assumes "tree_of V t T" "lvs T = A @ B"
  shows "for_leaves fn t (ohd (map fst B) None) s = visit fn (ents B) s"
  using assms(2)
proof (induction B arbitrary: A s)
  case Nil
  then show ?case by (subst for_leaves.simps) simp
next
  case (Cons b B)
  obtain a fs where b: "b = (a, fs)" by (cases b)
  obtain n where n: "leaf_at t a = Some n" "entries n = pad fs" "ncount n = length fs" "next_leaf n = ohd (map fst B) None"
    by (rule leaf_view [OF assms(1), of A a fs B]) (use Cons.prems b in auto)
  have "for_leaves fn t (ohd (map fst B) None) s = visit fn (ents B) s" for s
    by (rule Cons.IH [of "A @ [b]"]) (use Cons.prems in simp)
  then show ?case using n b for_entries_rep [OF n(2,3), of 0 fn s]
    by (cases "visit fn fs s") (subst for_leaves.simps, simp add: visit_append)+
qed

theorem tree_for_each_rep:
  assumes "index_inv V t es"
  shows "tree_for_each fn t s = visit fn es s"
proof (cases "es = []")
  case True
  then show ?thesis using assms by (simp add: tree_for_each_def index_inv_def) (subst for_leaves.simps, simp)
next
  case False
  then obtain T where T: "tree_of V t T" "flat T = es" using assms by (auto simp: index_inv_def)
  then show ?thesis using for_leaves_rep [OF T(1), of "[]" "lvs T" fn s]
    by (simp add: tree_for_each_def tree_of_def flat_lvs)
qed

lemma range_loop_rep:
  assumes "index_inv V t (X @ Y)"
  shows "range_loop fn V t start stop (ohd Y None) s = visit fn (filter (\<lambda>e. overlaps (area_of V e) start stop) Y) s"
  using assms
proof (induction Y arbitrary: X s)
  case Nil
  then show ?case by (subst range_loop.simps) simp
next
  case (Cons e Y)
  have o: "ordered V (X @ e # Y)" using Cons.prems by (simp add: index_inv_def)
  then obtain v where "V e = Some v" using ordered_mem [OF o, of e] by auto
  then have v: "V e = Some v" "area_of V e = v" by (simp_all add: area_of_def)
  have nx: "tree_next V t (Some e) = Some (ohd Y None)" using Cons.prems by (rule tree_next_rep)
  have IH: "range_loop fn V t start stop (ohd Y None) s = visit fn (filter (\<lambda>e. overlaps (area_of V e) start stop) Y) s" for s
    by (rule Cons.IH [of "X @ [e]"]) (use Cons.prems in simp)
  show ?case
  proof (cases "addr v < stop")
    case True
    then show ?thesis using v nx IH by (cases "fn e s") (subst range_loop.simps, auto)+
  next
    case False
    have "adr V e \<le> adr V y" if "y \<in> set (e # Y)" for y
      using o that ordered_less [OF o, of e] by (fastforce simp: ordered_append ordered_Cons)
    then have "filter (\<lambda>e. overlaps (area_of V e) start stop) (e # Y) = []"
      using False v by (fastforce simp: filter_empty_conv overlaps_def)
    then show ?thesis using False v by (subst range_loop.simps) simp
  qed
qed

theorem for_each_in_range_rep:
  assumes I: "index_inv V t es"
  shows "for_each_in_range fn V t start stop s =
    (if start < stop then visit fn (filter (\<lambda>e. overlaps (area_of V e) start stop) es) s else Some (s, True))"
proof (cases "start < stop")
  case lt: True
  have o: "ordered V es" using I by (simp add: index_inv_def)
  define X Y where "X = takeWhile (\<lambda>e. fin V e \<le> start) es" and "Y = dropWhile (\<lambda>e. fin V e \<le> start) es"
  have es: "es = X @ Y" by (simp add: X_def Y_def)
  have TW: "fin V x \<le> start" if "x \<in> set X" for x using set_takeWhileD [OF that [unfolded X_def]] by simp
  have fX: "filter (\<lambda>e. overlaps (area_of V e) start stop) X = []"
    by (auto simp: X_def filter_empty_conv overlaps_def dest: set_takeWhileD)
  have "if find (\<lambda>e. covers (area_of V e) start) es = None then lower_bound V t start = Some (ohd Y None)
    else find (\<lambda>e. covers (area_of V e) start) es = ohd Y None"
  proof (cases Y)
    case Nil
    then have "fin V e \<le> start" if "e \<in> set es" for e using that es TW by simp
    then have "find (\<lambda>e. covers (area_of V e) start) es = None" "find (\<lambda>e. start \<le> adr V e) es = None"
      using ordered_less [OF o] by (fastforce simp: find_None_iff covers_def)+
    then show ?thesis using lower_bound_rep [OF I, of start] Nil by simp
  next
    case (Cons h H)
    have h: "start < fin V h" using Cons dropWhile_eq_Cons_conv [of "\<lambda>e. fin V e \<le> start" es h H] by (simp add: Y_def)
    have X: "fin V x \<le> start" "adr V x < start" if "x \<in> set X" for x
      using TW [OF that] ordered_less [OF o, of x] that es by auto
    have H: "fin V h \<le> adr V y" if "y \<in> set H" for y using o that unfolding es Cons by (auto simp: ordered_append ordered_Cons)
    have sk: "find P es = find P Y" if "\<And>x. x \<in> set X \<Longrightarrow> \<not> P x" for P unfolding es by (rule find_skip) (use that in blast)
    show ?thesis
    proof (cases "covers (area_of V h) start")
      case True
      then have "find (\<lambda>e. covers (area_of V e) start) es = Some h"
        using sk [of "\<lambda>e. covers (area_of V e) start"] X(1) Cons by (force simp: covers_def)
      then show ?thesis using Cons by simp
    next
      case False
      then have "start \<le> adr V h" using covers_iff [OF o, of h start] h es Cons by auto
      then have "lower_bound V t start = Some (Some h)"
        using sk [of "\<lambda>e. start \<le> adr V e"] X(2) Cons lower_bound_rep [OF I, of start] by force
      moreover have "find (\<lambda>e. covers (area_of V e) start) es = None"
        unfolding find_None_iff using X H h False \<open>start \<le> adr V h\<close> unfolding es Cons by (fastforce simp: covers_def)
      ultimately show ?thesis using Cons by simp
    qed
  qed
  moreover have "range_loop fn V t start stop (ohd Y None) s = visit fn (filter (\<lambda>e. overlaps (area_of V e) start stop) Y) s"
    using I unfolding es by (rule range_loop_rep)
  ultimately show ?thesis using lt fX tree_find_rep [OF I, of start]
    by (cases "find (\<lambda>e. covers (area_of V e) start) es") (auto simp: for_each_in_range_def es)
qed (simp add: for_each_in_range_def)


subsection \<open>Destruction\<close>

text \<open>Every node of the tree is deleted once, and no other.\<close>

lemma destroy_subtree_rep:
  assumes "srep (tnodes s) p T" "distinct (ids T)"
  shows "destroy_subtree s (Some (nid T)) = Some (s\<lparr>tnodes := tnodes s |` (- set (ids T))\<rparr>)"
  using assms
proof (induction T arbitrary: s p rule: ids.induct)
  case (1 a es)
  then obtain n where "tnodes s a = Some n" "kind n = Leaf" by (auto simp: lnode_def)
  moreover have "(tnodes s)(a := None) = tnodes s |` (- {a})" by (auto simp: restrict_map_def fun_eq_iff)
  ultimately show ?case by (subst destroy_subtree.simps) (simp add: delete_node_def)
next
  case (2 a ts)
  obtain n where n: "tnodes s a = Some n" "kind n = Internal" "ncount n = length ts" "children n = pad (map nid ts)"
    using 2(2) by (auto simp: inode_def)
  let ?S = "\<lambda>k. s\<lparr>tnodes := tnodes s |` (- set (concat (map ids (take k ts))))\<rparr>"
  let ?body = "\<lambda>i t. do { n \<leftarrow> internal_at t a; c \<leftarrow> arr_get (children n) i; destroy_subtree t c }"
  have "for_each ?body [0..<length ts] (?S 0) = Some (?S (length ts))"
  proof (rule for_each_upt)
    fix k assume k: "k < length ts"
    have ts: "ts = take k ts @ ts ! k # drop (Suc k) ts" using k by (simp add: id_take_nth_drop)
    have D: "distinct (a # concat (map ids (take k ts @ ts ! k # drop (Suc k) ts)))" using 2(3) ts by simp
    have dis: "a \<notin> set (concat (map ids (take k ts)))" "set (concat (map ids (take k ts))) \<inter> set (ids (ts ! k)) = {}" "distinct (ids (ts ! k))"
      using D by auto
    have "srep (tnodes s) (Some a) (ts ! k)" using 2(2) k by simp
    moreover have "\<forall>x\<in>set (ids (ts ! k)). same_node (tnodes s) (tnodes (?S k)) x"
      using dis(2) by (auto simp: same_node_def restrict_map_def disjoint_iff)
    ultimately have "srep (tnodes (?S k)) (Some a) (ts ! k)" using srep_cong by blast
    then have "destroy_subtree (?S k) (Some (nid (ts ! k))) = Some ((?S k)\<lparr>tnodes := tnodes (?S k) |` (- set (ids (ts ! k)))\<rparr>)"
      using 2(1) [of "ts ! k" "?S k"] k dis(3) nth_mem by blast
    moreover have "(?S k)\<lparr>tnodes := tnodes (?S k) |` (- set (ids (ts ! k)))\<rparr> = ?S (Suc k)"
      using k by (simp add: take_Suc_conv_app_nth Compl_Un Int_commute)
    moreover have "internal_at (?S k) a = Some n" using n dis(1) by (simp add: internal_at_def restrict_map_def)
    ultimately show "?body k (?S k) = Some (?S (Suc k))" using n k by simp
  qed
  moreover have "?S 0 = s" by (simp add: restrict_map_def)
  ultimately have "for_each ?body [0..<length ts] s = Some (?S (length ts))" by simp
  moreover have "delete_node (?S (length ts)) a = Some (s\<lparr>tnodes := tnodes s |` (- set (ids (IN a ts)))\<rparr>)"
  proof -
    define X where "X = set (concat (map ids ts))"
    have "a \<notin> X" using 2(3) by (simp add: X_def)
    moreover have "(tnodes s |` (- X))(a := None) = tnodes s |` (- insert a X)" by (auto simp: restrict_map_def fun_eq_iff)
    moreover have "set (concat (map ids (take (length ts) ts))) = X" "set (ids (IN a ts)) = insert a X" by (simp_all add: X_def)
    ultimately show ?thesis using n by (simp only: delete_node_def) simp
  qed
  ultimately show ?case using n by (subst destroy_subtree.simps) simp
qed

theorem tree_clear_rep:
  assumes "index_inv V t es"
  shows "\<exists>t'. tree_clear t = Some t' \<and> index_inv W t' []"
proof (cases "es = []")
  case True
  then show ?thesis using assms by (subst tree_clear_def) (simp add: index_inv_def, subst destroy_subtree.simps, simp)
next
  case False
  then obtain T where T: "tree_of V t T" using assms by (auto simp: index_inv_def)
  then have "destroy_subtree t (root t) = Some (t\<lparr>tnodes := tnodes t |` (- set (ids T))\<rparr>)"
    using destroy_subtree_rep [of t None T] by (simp add: tree_of_def)
  moreover have "tnodes t |` (- set (ids T)) = Map.empty" using T by (auto simp: tree_of_def restrict_map_def fun_eq_iff)
  ultimately show ?thesis by (simp add: tree_clear_def index_inv_def)
qed

end
