(* ===== verification/Vma_Interface.thy ===== *)
theory Vma_Interface
  imports Vma_Gap
begin

text \<open>
  The contract of an index of memory areas with its clients: the invariant \<open>inv V t es\<close> relates the
  index \<open>t\<close> to the list \<open>es\<close> of the indexed areas in address order, and each operation is described
  by what it does to that list. What a client may conclude is proved once here.
\<close>

lemma find_covers_iff:
  assumes "ordered V es"
  shows "find (\<lambda>e. covers (area_of V e) x) es = Some e \<longleftrightarrow> e \<in> set es \<and> covers (area_of V e) x"
proof
  assume e: "e \<in> set es \<and> covers (area_of V e) x"
  then obtain A B where es: "es = A @ e # B" by (metis split_list)
  then have "\<forall>f\<in>set A. \<not> covers (area_of V f) x" using covering_unique [of V A e B x] assms e by blast
  then show "find (\<lambda>e. covers (area_of V e) x) es = Some e" using find_skip [of A] e unfolding es by simp
qed (auto dest: find_covers_Some)

lemma set_ins_area [simp]: "set (ins_area V e es) = insert e (set es)"
proof -
  let ?P = "\<lambda>f. adr V f < adr V e"
  have "set (takeWhile ?P es) \<union> set (dropWhile ?P es) = set es" by (metis set_append takeWhile_dropWhile_id)
  then show ?thesis by (auto simp: ins_area_def)
qed

lemma length_ins_area [simp]: "length (ins_area V e es) = length es + 1"
proof -
  let ?P = "\<lambda>f. adr V f < adr V e"
  have "length (takeWhile ?P es) + length (dropWhile ?P es) = length es" by (metis length_append takeWhile_dropWhile_id)
  then show ?thesis by (simp add: ins_area_def)
qed

locale vma_index =
  fixes inv :: "vma_mem \<Rightarrow> 't \<Rightarrow> nat list \<Rightarrow> bool"
    and ins :: "vma_mem \<Rightarrow> nat option \<Rightarrow> 't \<Rightarrow> ('t \<times> bool) option"
    and era :: "vma_mem \<Rightarrow> nat option \<Rightarrow> nat \<Rightarrow> 't \<Rightarrow> 't option"
    and look :: "vma_mem \<Rightarrow> 't \<Rightarrow> nat \<Rightarrow> nat option option"
    and clr :: "'t \<Rightarrow> 't option"
  assumes inv_ordered: "inv V t es \<Longrightarrow> ordered V es"
    and ins_free: "inv V t es \<Longrightarrow> V e = Some v \<Longrightarrow> valid_range v \<Longrightarrow> \<forall>f\<in>set es. \<not> overlaps_vma (area_of V f) v \<Longrightarrow>
      \<exists>t'. ins V (Some e) t = Some (t', True) \<and> inv V t' (ins_area V e es)"
    and ins_taken: "inv V t es \<Longrightarrow> V e = Some v \<Longrightarrow> valid_range v \<Longrightarrow> f \<in> set es \<Longrightarrow> overlaps_vma (area_of V f) v \<Longrightarrow>
      ins V (Some e) t = Some (t, False)"
    and era_present: "inv V t es \<Longrightarrow> e \<in> set es \<Longrightarrow> \<forall>x\<in>set es - {e}. W x = V x \<Longrightarrow>
      \<exists>t'. era W (Some e) (adr V e) t = Some t' \<and> inv W t' (remove1 e es)"
    and era_absent: "inv V t es \<Longrightarrow> e \<notin> set es \<Longrightarrow> era V (Some e) k t = Some t"
    and look_up: "inv V t es \<Longrightarrow> look V t x = Some (find (\<lambda>e. covers (area_of V e) x) es)"
    and clr_empty: "inv V t es \<Longrightarrow> \<exists>t'. clr t = Some t' \<and> inv W t' []"
begin

lemma inv_distinct: "inv V t es \<Longrightarrow> distinct es"
  using inv_ordered ordered_distinct by blast

lemma look_iff: "inv V t es \<Longrightarrow> look V t x = Some (Some e) \<longleftrightarrow> e \<in> set es \<and> covers (area_of V e) x"
  using look_up find_covers_iff [OF inv_ordered] by simp

lemma look_none: "inv V t es \<Longrightarrow> look V t x = Some None \<longleftrightarrow> (\<forall>e\<in>set es. \<not> covers (area_of V e) x)"
  using look_up by (auto simp: find_None_iff)

text \<open>The addresses of an inserted area lead to it, all others to where they led.\<close>

lemma look_after_ins:
  assumes "inv V t es" "V e = Some v" "valid_range v" "ins V (Some e) t = Some (t', True)"
  shows "look V t' x = (if covers v x then Some (Some e) else look V t x)"
proof -
  have free: "\<forall>f\<in>set es. \<not> overlaps_vma (area_of V f) v" using ins_taken [OF assms(1-3)] assms(4) by auto
  then have I': "inv V t' (ins_area V e es)" using ins_free [OF assms(1-3)] assms(4) by auto
  have v: "area_of V e = v" using assms(2) by (simp add: area_of_def)
  have o: "ordered V (ins_area V e es)" using I' by (rule inv_ordered)
  show ?thesis
  proof (cases "covers v x")
    case True
    then show ?thesis using look_iff [OF I', of x e] v by simp
  next
    case False
    have "look V t' x = Some (Some f) \<longleftrightarrow> look V t x = Some (Some f)" for f
      using look_iff [OF I', of x f] look_iff [OF assms(1), of x f] False v by auto
    moreover have "look V t' x = Some (find (\<lambda>e. covers (area_of V e) x) (ins_area V e es))"
      "look V t x = Some (find (\<lambda>e. covers (area_of V e) x) es)" using look_up I' assms(1) by blast+
    ultimately show ?thesis using False by (metis not_None_eq option.inject)
  qed
qed

lemma look_after_era:
  assumes "inv V t es" "e \<in> set es" "era V (Some e) (adr V e) t = Some t'"
  shows "look V t' x = (if covers (area_of V e) x then Some None else look V t x)"
proof -
  have I': "inv V t' (remove1 e es)" using era_present [OF assms(1,2), of V] assms(3) by auto
  have s: "set (remove1 e es) = set es - {e}" using inv_distinct [OF assms(1)] by simp
  show ?thesis
  proof (cases "covers (area_of V e) x")
    case True
    obtain A B where es: "es = A @ e # B" using assms(2) by (metis split_list)
    have "\<not> covers (area_of V f) x" if "f \<in> set es - {e}" for f
      using covering_unique [of V A e B x f] inv_ordered [OF assms(1)] True that es by auto
    then show ?thesis using True look_none [OF I'] s by simp
  next
    case False
    have "look V t' x = Some (Some f) \<longleftrightarrow> look V t x = Some (Some f)" for f
      using look_iff [OF I', of x f] look_iff [OF assms(1), of x f] False s by auto
    moreover have "look V t' x = Some (find (\<lambda>e. covers (area_of V e) x) (remove1 e es))"
      "look V t x = Some (find (\<lambda>e. covers (area_of V e) x) es)" using look_up I' assms(1) by blast+
    ultimately show ?thesis using False by (metis not_None_eq option.inject)
  qed
qed

text \<open>An area that was inserted can be taken out again.\<close>

lemma ins_era:
  assumes "inv V t es" "V e = Some v" "valid_range v" "e \<notin> set es" "ins V (Some e) t = Some (t', True)"
  shows "\<exists>t''. era V (Some e) (addr v) t' = Some t'' \<and> inv V t'' es"
proof -
  have free: "\<forall>f\<in>set es. \<not> overlaps_vma (area_of V f) v" using ins_taken [OF assms(1-3)] assms(5) by auto
  then have I': "inv V t' (ins_area V e es)" using ins_free [OF assms(1-3)] assms(5) by auto
  have "adr V e = addr v" using assms(2) by (simp add: area_of_def)
  then show ?thesis using era_present [OF I', of e V] ins_remove [OF inv_ordered [OF assms(1)] assms(4)] by simp
qed

text \<open>Every ordered list of areas has an index.\<close>

lemma index_exists:
  assumes "inv V t0 []" "ordered V es"
  shows "\<exists>t. inv V t es"
  using assms(2)
proof (induction es rule: rev_induct)
  case Nil
  then show ?case using assms(1) by blast
next
  case (snoc e es)
  then obtain t where t: "inv V t es" by (auto simp: ordered_append)
  obtain v where v: "V e = Some v" "valid_range v" "area_of V e = v" using snoc.prems by (auto simp: ordered_append ordered_Cons area_of_def)
  have lt: "fin V f \<le> adr V e \<and> adr V f < adr V e" if "f \<in> set es" for f
    using snoc.prems that ordered_less [of V es f] by (fastforce simp: ordered_append)
  then have "\<forall>f\<in>set es. \<not> overlaps_vma (area_of V f) v" using v(3) by (fastforce simp: overlaps_vma_def overlaps_def)
  moreover have "ins_area V e es = es @ [e]" using ins_area_split [of es V e "[]"] lt by simp
  ultimately show ?case using ins_free [OF t v(1,2)] by auto
qed

end

interpretation vx: vma_index index_inv tree_insert tree_erase_at tree_find tree_clear
proof (unfold_locales, goal_cases)
  case 1
  then show ?case by (simp add: index_inv_def)
next
  case (2 V t es e v)
  then show ?case using tree_insert_rep [OF 2(1-3)] by (auto split: if_splits)
next
  case (3 V t es e v f)
  then show ?case using tree_insert_rep [OF 3(1-3)] by (auto split: if_splits)
next
  case (4 V t es e W)
  then show ?case by (rule tree_erase_at_rep)
next
  case (5 V t es e k)
  then show ?case by (rule tree_erase_at_absent)
next
  case (6 V t es x)
  then show ?case by (rule tree_find_rep)
next
  case (7 V t es W)
  then show ?case by (rule tree_clear_rep)
qed

lemma index_inv_init: "index_inv V VmaMapleTree_init []"
  by (simp add: index_inv_def VmaMapleTree_init_def)

lemmas tree_index_exists = vx.index_exists [OF index_inv_init]

end
