(* ===== verification/Vma_Theorems.thy ===== *)
theory Vma_Theorems
  imports Vma_Interface
begin

text \<open>
  The properties of the index of memory areas: sequences of operations, each operation against the list
  of areas in address order, the search for free ranges, the traversals, and the number of nodes.
\<close>

subsection \<open>Sequences of operations\<close>

datatype index_op = Insert "nat option" | Erase "nat option" | Clear

definition index_step :: "vma_mem \<Rightarrow> index_op \<Rightarrow> VmaMapleTree \<Rightarrow> VmaMapleTree option" where
  "index_step V oper t = (case oper of
      Insert p \<Rightarrow> map_option fst (tree_insert V p t)
    | Erase p \<Rightarrow> tree_erase V p t
    | Clear \<Rightarrow> tree_clear t)"

fun index_run :: "vma_mem \<Rightarrow> index_op list \<Rightarrow> VmaMapleTree \<Rightarrow> VmaMapleTree option" where
  "index_run V [] t = Some t"
| "index_run V (oper # ops) t = do { t' \<leftarrow> index_step V oper t; index_run V ops t' }"

definition spec_step :: "vma_mem \<Rightarrow> index_op \<Rightarrow> nat list \<Rightarrow> nat list" where
  "spec_step V oper es = (case oper of
      Insert (Some e) \<Rightarrow> (if valid_range (area_of V e) \<and> (\<forall>f\<in>set es. \<not> overlaps_vma (area_of V f) (area_of V e))
                         then ins_area V e es else es)
    | Erase (Some e) \<Rightarrow> remove1 e es
    | Clear \<Rightarrow> []
    | _ \<Rightarrow> es)"

definition op_known :: "vma_mem \<Rightarrow> index_op \<Rightarrow> bool" where
  "op_known V oper \<longleftrightarrow> (case oper of Insert (Some e) \<Rightarrow> V e \<noteq> None | Erase (Some e) \<Rightarrow> V e \<noteq> None | _ \<Rightarrow> True)"

lemma tree_insert_rejects:
  "tree_insert V None t = Some (t, False)"
  "V e = Some v \<Longrightarrow> \<not> valid_range v \<Longrightarrow> tree_insert V (Some e) t = Some (t, False)"
  by (simp_all add: tree_insert_def)

lemma index_step_refines:
  assumes I: "index_inv V t es" and k: "op_known V oper"
  shows "\<exists>t'. index_step V oper t = Some t' \<and> index_inv V t' (spec_step V oper es)"
proof (cases oper)
  case (Insert p)
  show ?thesis
  proof (cases p)
    case (Some e)
    then obtain v where v: "V e = Some v" "area_of V e = v" using Insert k by (auto simp: op_known_def area_of_def)
    show ?thesis
    proof (cases "valid_range v")
      case True
      then show ?thesis using tree_insert_rep [OF I v(1) True] Insert Some v(2) I
        by (auto simp: index_step_def spec_step_def split: if_splits)
    next
      case False
      then show ?thesis using Insert Some v I by (simp add: index_step_def spec_step_def tree_insert_rejects)
    qed
  qed (use Insert I in \<open>simp add: index_step_def spec_step_def tree_insert_rejects\<close>)
next
  case (Erase p)
  show ?thesis
  proof (cases p)
    case (Some e)
    then obtain v where v: "V e = Some v" "adr V e = addr v" using Erase k by (auto simp: op_known_def area_of_def)
    show ?thesis
    proof (cases "e \<in> set es")
      case True
      then show ?thesis using tree_erase_at_rep [OF I True, of V] Erase Some v by (simp add: index_step_def spec_step_def tree_erase_def)
    next
      case False
      then show ?thesis using tree_erase_at_absent [OF I False] Erase Some v I
        by (simp add: index_step_def spec_step_def tree_erase_def remove1_idem)
    qed
  qed (use Erase I in \<open>simp add: index_step_def spec_step_def tree_erase_def tree_erase_at_def\<close>)
next
  case Clear
  then show ?thesis using tree_clear_rep [OF I, of V] by (simp add: index_step_def spec_step_def)
qed

lemma index_run_refines:
  "index_inv V t es \<Longrightarrow> \<forall>oper\<in>set ops. op_known V oper \<Longrightarrow>
    \<exists>t'. index_run V ops t = Some t' \<and> index_inv V t' (foldl (\<lambda>es oper. spec_step V oper es) es ops)"
proof (induction ops arbitrary: t es)
  case (Cons oper ops)
  then obtain t' where "index_step V oper t = Some t'" "index_inv V t' (spec_step V oper es)"
    using index_step_refines [of V t es oper] by auto
  with Cons show ?case by simp
qed simp

text \<open>C16. Whatever sequence of insertions, removals and clears is applied to a new index of memory areas,
  no operation faults (no null or dangling node, no access outside an array, no leaked node), every
  pointer loop ends, and the index holds exactly the areas that the same sequence leaves in a list kept
  in address order.
\<close>

theorem index_refines_list:
  assumes "\<forall>oper\<in>set ops. op_known V oper"
  shows "\<exists>t. index_run V ops VmaMapleTree_init = Some t \<and> index_inv V t (foldl (\<lambda>es oper. spec_step V oper es) [] ops)"
  using index_run_refines [OF index_inv_init assms] .

definition ex_area :: "nat \<Rightarrow> nat \<Rightarrow> VmArea" where
  "ex_area a l = default_vma\<lparr>used := 1, addr := a, len := l\<rparr>"

definition ex_mem :: vma_mem where
  "ex_mem = [1 \<mapsto> ex_area 0x1000 0x1000, 2 \<mapsto> ex_area 0x2000 0x2000, 3 \<mapsto> ex_area 0x6000 0x1000, 4 \<mapsto> ex_area 0x3000 0x1000]"

lemma ex_mem_simps [simp]:
  "ex_mem (Suc 0) = Some (ex_area 0x1000 0x1000)" "ex_mem 2 = Some (ex_area 0x2000 0x2000)"
  "ex_mem 3 = Some (ex_area 0x6000 0x1000)" "ex_mem 4 = Some (ex_area 0x3000 0x1000)"
  "area_of ex_mem (Suc 0) = ex_area 0x1000 0x1000" "area_of ex_mem 2 = ex_area 0x2000 0x2000"
  "area_of ex_mem 3 = ex_area 0x6000 0x1000" "area_of ex_mem 4 = ex_area 0x3000 0x1000"
  by (simp_all add: ex_mem_def area_of_def)

lemma ex_area_simps [simp]:
  "addr (ex_area a l) = a" "len (ex_area a l) = l" "used (ex_area a l) = 1"
  "a + l < 2 ^ 64 \<Longrightarrow> end_addr (ex_area a l) = a + l" "a + l < 2 ^ 64 \<Longrightarrow> 0 < l \<Longrightarrow> valid_range (ex_area a l)"
  by (simp_all add: ex_area_def end_addr_def u64_add_def valid_range_def)

lemma ex_ordered: "ordered ex_mem [1, 2, 3]"
  by (simp add: ordered_def)

theorem index_refines_list_witness:
  "\<exists>t. index_run ex_mem [Insert (Some 3), Insert (Some 1), Insert (Some 2), Insert (Some 4), Erase (Some 3)] VmaMapleTree_init = Some t
     \<and> index_inv ex_mem t [1, 2]"
proof -
  have "foldl (\<lambda>es oper. spec_step ex_mem oper es) [] [Insert (Some 3), Insert (Some 1), Insert (Some 2), Insert (Some 4), Erase (Some 3)] = [1, 2]"
    by (simp add: spec_step_def ins_area_def overlaps_vma_iff)
  then show ?thesis
    using index_refines_list [of "[Insert (Some 3), Insert (Some 1), Insert (Some 2), Insert (Some 4), Erase (Some 3)]" ex_mem]
    by (simp add: op_known_def)
qed


subsection \<open>Single operations\<close>

text \<open>C17. Inserting an area of positive length into the index puts it at its place in the address order,
  and leads exactly its own addresses to it, if it meets no indexed area; otherwise the insertion is
  refused and nothing changes.
\<close>

theorem tree_insert_correct:
  assumes I: "index_inv V t es" and v: "V e = Some v" "valid_range v"
  shows "if \<exists>f\<in>set es. overlaps_vma (area_of V f) v then tree_insert V (Some e) t = Some (t, False)
    else \<exists>t'. tree_insert V (Some e) t = Some (t', True) \<and> index_inv V t' (ins_area V e es)
      \<and> (\<forall>x. tree_find V t' x = (if covers v x then Some (Some e) else tree_find V t x))"
  using tree_insert_rep [OF I v] vx.look_after_ins [OF I v] by (auto split: if_splits)

theorem tree_insert_correct_witness:
  "\<exists>t t'. index_inv ex_mem t [1, 3] \<and> tree_insert ex_mem (Some 2) t = Some (t', True) \<and> tree_find ex_mem t' 0x3fff = Some (Some 2)"
proof -
  have "ordered ex_mem [1, 3]" by (simp add: ordered_def)
  then obtain t where t: "index_inv ex_mem t [1, 3]" using tree_index_exists by blast
  obtain t' where "tree_insert ex_mem (Some 2) t = Some (t', True)"
    "\<forall>x. tree_find ex_mem t' x = (if covers (ex_area 0x2000 0x2000) x then Some (Some 2) else tree_find ex_mem t x)"
    using tree_insert_correct [OF t, of 2 "ex_area 0x2000 0x2000"] by (auto simp: overlaps_vma_iff)
  moreover have "covers (ex_area 0x2000 0x2000) 0x3fff" by (simp add: covers_def)
  ultimately show ?thesis using t by metis
qed

text \<open>C18. Erasing an indexed area removes it and nothing else, and frees exactly its own addresses. It works
  even when the area was changed in place before, as long as the key given is its former start address
  and the other areas are as they were.
\<close>

theorem tree_erase_at_correct:
  assumes I: "index_inv V t es" and e: "e \<in> set es" and W: "\<forall>x\<in>set es - {e}. W x = V x"
  shows "\<exists>t'. tree_erase_at W (Some e) (adr V e) t = Some t' \<and> index_inv W t' (remove1 e es)
    \<and> (\<forall>x. tree_find W t' x = (if covers (area_of V e) x then Some None else tree_find V t x))"
proof -
  obtain t' where t': "tree_erase_at W (Some e) (adr V e) t = Some t'" "index_inv W t' (remove1 e es)"
    using tree_erase_at_rep [OF I e W] by blast
  obtain t'' where t'': "tree_erase_at V (Some e) (adr V e) t = Some t''" "index_inv V t'' (remove1 e es)"
    using tree_erase_at_rep [OF I e, of V] by blast
  have s: "set (remove1 e es) = set es - {e}" using vx.inv_distinct [OF I] by simp
  have "find (\<lambda>f. covers (area_of W f) x) (remove1 e es) = find (\<lambda>f. covers (area_of V f) x) (remove1 e es)" for x
    by (rule find_cong) (use W s in \<open>auto simp: area_of_def\<close>)
  then have "tree_find W t' x = tree_find V t'' x" for x using tree_find_rep [OF t'(2)] tree_find_rep [OF t''(2)] by simp
  then show ?thesis using t' vx.look_after_era [OF I e t''(1)] by auto
qed

theorem tree_erase_at_correct_witness:
  "\<exists>t t'. index_inv ex_mem t [1, 2, 3] \<and> tree_erase_at (ex_mem(2 \<mapsto> ex_area 0 0)) (Some 2) 0x2000 t = Some t'
     \<and> tree_find (ex_mem(2 \<mapsto> ex_area 0 0)) t' 0x2000 = Some None"
proof -
  obtain t where t: "index_inv ex_mem t [1, 2, 3]" using tree_index_exists [OF ex_ordered] by blast
  obtain t' where "tree_erase_at (ex_mem(2 \<mapsto> ex_area 0 0)) (Some 2) 0x2000 t = Some t'"
    "\<forall>x. tree_find (ex_mem(2 \<mapsto> ex_area 0 0)) t' x = (if covers (ex_area 0x2000 0x2000) x then Some None else tree_find ex_mem t x)"
    using tree_erase_at_correct [OF t, of 2 "ex_mem(2 \<mapsto> ex_area 0 0)"] by auto
  moreover have "covers (ex_area 0x2000 0x2000) 0x2000" by (simp add: covers_def)
  ultimately show ?thesis using t by metis
qed

text \<open>C19. The queries on the index answer like the corresponding scans of the list of areas in address
  order: the area that covers an address, the first one that starts at or after an address, the last
  one that starts before it, the neighbours of an indexed area, and whether a range meets any area.
\<close>

theorem tree_queries_correct:
  assumes "index_inv V t es"
  shows "tree_find V t x = Some (find (\<lambda>e. covers (area_of V e) x) es)
    \<and> lower_bound V t x = Some (find (\<lambda>e. x \<le> adr V e) es)
    \<and> prev_by_start V t x = Some (olast None (takeWhile (\<lambda>e. adr V e < x) es))
    \<and> has_conflict V t x y None = Some (x < y \<and> (\<exists>e\<in>set es. overlaps (area_of V e) x y))
    \<and> (\<forall>A e B. es = A @ e # B \<longrightarrow> tree_next V t (Some e) = Some (ohd B None) \<and> tree_prev V t (Some e) = Some (olast None A))"
  using assms by (intro conjI allI impI)
    (simp_all add: tree_find_rep lower_bound_rep prev_by_start_rep has_conflict_rep tree_next_rep tree_prev_rep)

theorem tree_queries_correct_witness:
  "\<exists>t. index_inv ex_mem t [1, 2, 3] \<and> tree_find ex_mem t 0x2fff = Some (Some 2) \<and> lower_bound ex_mem t 0x4000 = Some (Some 3)
    \<and> prev_by_start ex_mem t 0x2000 = Some (Some 1) \<and> tree_next ex_mem t (Some 2) = Some (Some 3)
    \<and> has_conflict ex_mem t 0x4000 0x6000 None = Some False \<and> has_conflict ex_mem t 0x4000 0x6001 None = Some True"
proof -
  obtain t where t: "index_inv ex_mem t [1, 2, 3]" using tree_index_exists [OF ex_ordered] by blast
  note q = tree_queries_correct [OF t]
  have "tree_next ex_mem t (Some 2) = Some (Some 3)"
    using q [THEN conjunct2, THEN conjunct2, THEN conjunct2, THEN conjunct2, THEN spec, of "[1]", THEN spec, of 2, THEN spec, of "[3]"] by simp
  moreover have "tree_find ex_mem t 0x2fff = Some (Some 2)" "lower_bound ex_mem t 0x4000 = Some (Some 3)"
    "prev_by_start ex_mem t 0x2000 = Some (Some 1)" "has_conflict ex_mem t 0x4000 0x6000 None = Some False"
    "has_conflict ex_mem t 0x4000 0x6001 None = Some True"
    using q [of "0x2fff"] q [of "0x4000" "0x6000"] q [of "0x4000" "0x6001"] q [of "0x2000"]
    by (simp_all add: covers_def overlaps_def olast_def)
  ultimately show ?thesis using t by blast
qed

text \<open>C20. \<open>find_gap\<close> returns the lowest aligned address at or above the hint and the lower limit where a
  range of the wanted size ends within the upper limit and meets no area, and 0 exactly when there is
  none, rounding near the end of the 64-bit address space included. The alignment is 0 or a power
  of two.
\<close>

theorem find_gap_correct:
  assumes "index_inv V t es" "al = 0 \<or> al dvd 2 ^ 64"
    and "0 < min_addr" "start_hint < 2 ^ 64" "max_addr < 2 ^ 64" "0 < need"
  shows "\<exists>r. find_gap V t start_hint min_addr max_addr need al = Some r
    \<and> (r \<noteq> 0 \<longrightarrow> gap_at V es (max start_hint min_addr) max_addr need al r)
    \<and> (\<forall>g. gap_at V es (max start_hint min_addr) max_addr need al g \<longrightarrow> r \<noteq> 0 \<and> r \<le> g)"
  using find_gap_rep [OF assms] by (fastforce simp: answer_def split: if_splits)

theorem find_gap_correct_witness:
  "\<exists>t. index_inv ex_mem t [1, 2, 3] \<and> find_gap ex_mem t 0 0x1000 0x10000 0x1800 0x1000 = Some 0x4000"
proof -
  obtain t where t: "index_inv ex_mem t [1, 2, 3]" using tree_index_exists [OF ex_ordered] by blast
  obtain r where r: "find_gap ex_mem t 0 0x1000 0x10000 0x1800 0x1000 = Some r"
    "r \<noteq> 0 \<longrightarrow> gap_at ex_mem [1, 2, 3] 0x1000 0x10000 0x1800 0x1000 r"
    "\<forall>g. gap_at ex_mem [1, 2, 3] 0x1000 0x10000 0x1800 0x1000 g \<longrightarrow> r \<noteq> 0 \<and> r \<le> g"
    using find_gap_correct [OF t, where al = "0x1000" and min_addr = "0x1000" and start_hint = "0" and max_addr = "0x10000" and need = "0x1800"]
    by auto
  have "gap_at ex_mem [1, 2, 3] 0x1000 0x10000 0x1800 0x1000 0x4000" by (simp add: gap_at_def)
  then have "r \<noteq> 0" "r \<le> 0x4000" using r(3) by blast+
  moreover have "0x4000 \<le> r" using r(2) \<open>r \<noteq> 0\<close> by (auto simp: gap_at_def dvd_def)
  ultimately show ?thesis using t r(1) by auto
qed

text \<open>C23. The conflict test with an area to be ignored is wrong when the ignored area is the first one at or
  after the start: it then reports no conflict although a further area lies in the range.
\<close>

theorem has_conflict_ignore_misses:
  assumes "index_inv V t (A @ [i, f] @ B)" "\<forall>a\<in>set A. fin V a \<le> start" "start \<le> adr V i" "adr V f < stop"
  shows "has_conflict V t start stop (Some i) = Some False \<and> overlaps (area_of V f) start stop"
proof -
  have o: "ordered V (A @ [i, f] @ B)" using assms(1) by (simp add: index_inv_def)
  have lt: "adr V x < fin V x" if "x \<in> set (A @ [i, f] @ B)" for x using ordered_less [OF o that] .
  have f: "fin V i \<le> adr V f" "valid_range (area_of V f)" using o by (simp_all add: ordered_append ordered_Cons)
  have B: "fin V f \<le> adr V b" if "b \<in> set B" for b using o that by (simp add: ordered_append ordered_Cons)
  have st: "start < stop" "start < adr V f" using assms(3,4) f(1) lt [of i] by simp_all
  have A: "\<not> start \<le> adr V a" if "a \<in> set A" for a using assms(2) that lt [of a] by fastforce
  have "find (\<lambda>e. start \<le> adr V e) (A @ [i, f] @ B) = Some i" using find_skip [of A "\<lambda>e. start \<le> adr V e"] A assms(3) by simp
  moreover have "\<not> covers (area_of V e) start" if "e \<in> set (A @ [i, f] @ B)" "e \<noteq> i" for e
    using that assms(2) st(2) B lt [of f] by (fastforce simp: covers_def)
  ultimately show ?thesis using has_conflict_ignore [OF assms(1) st(1), of i] f(2) st lt [of f] assms(4)
    by (auto simp: overlaps_def)
qed

theorem has_conflict_ignore_misses_witness:
  "\<exists>t. index_inv ex_mem t [1, 2, 3] \<and> has_conflict ex_mem t 0x1000 0x3000 (Some 1) = Some False
     \<and> overlaps (area_of ex_mem 2) 0x1000 0x3000"
proof -
  obtain t where t: "index_inv ex_mem t ([] @ [1, 2] @ [3])" using tree_index_exists [OF ex_ordered] by auto
  then show ?thesis using has_conflict_ignore_misses [OF t, where start = "0x1000" and stop = "0x3000"] by auto
qed

text \<open>C21. The traversals visit the areas in address order, each once: \<open>for_each\<close> all of them,
  \<open>for_each_in_range\<close> exactly those that meet the range; both stop when the visitor says so.
\<close>

theorem traversals_correct:
  assumes "index_inv V t es"
  shows "tree_for_each fn t s = visit fn es s
    \<and> for_each_in_range fn V t start stop s =
      (if start < stop then visit fn (filter (\<lambda>e. overlaps (area_of V e) start stop) es) s else Some (s, True))"
  by (rule conjI [OF tree_for_each_rep [OF assms] for_each_in_range_rep [OF assms]])

theorem traversals_correct_witness:
  "\<exists>t. index_inv ex_mem t [1, 2, 3] \<and> for_each_in_range (\<lambda>e s. Some (s @ [e], True)) ex_mem t 0x1800 0x3000 [] = Some ([1, 2], True)"
proof -
  obtain t where t: "index_inv ex_mem t [1, 2, 3]" using tree_index_exists [OF ex_ordered] by blast
  then show ?thesis
    using traversals_correct [OF t, where fn = "\<lambda>e s. Some (s @ [e], True)" and start = "0x1800" and stop = "0x3000" and s = "[]"]
    by (auto simp: overlaps_def intro!: exI [of _ t])
qed

subsection \<open>Size\<close>

lemma wft_size: "wft T \<Longrightarrow> length (ids T) + 1 \<le> 2 * length (flat T)"
proof (induction T rule: ids.induct)
  case (1 a es)
  then show ?case by (cases es) auto
next
  case (2 a ts)
  have "length (concat (map ids us)) + length us \<le> 2 * length (concat (map flat us))" if "set us \<subseteq> set ts" for us
    using that
  proof (induction us)
    case (Cons u us)
    then have "length (ids u) + 1 \<le> 2 * length (flat u)" using "2.IH" [of u] "2.prems" by auto
    with Cons show ?case by simp
  qed simp
  from this [of ts] "2.prems" show ?case by simp
qed

lemma srep_counts: "srep h q T \<Longrightarrow> wft T \<Longrightarrow> \<forall>p\<in>set (ids T). \<forall>n. h p = Some n \<longrightarrow> 1 \<le> ncount n \<and> ncount n \<le> 12"
proof (induction h q T rule: srep.induct)
  case (1 h p a es)
  then show ?case by (cases es) (auto simp: lnode_def)
next
  case (2 h p a ts)
  then show ?case by (auto simp: inode_def)
qed

lemma index_inv_nodes:
  assumes "index_inv V t es"
  shows "card (dom (tnodes t)) \<le> 2 * length es \<and> tsize t = int (length es) \<and> (\<forall>p n. tnodes t p = Some n \<longrightarrow> 1 \<le> ncount n \<and> ncount n \<le> 12)"
proof (cases "es = []")
  case False
  then obtain T where T: "tree_of V t T" "flat T = es" using assms by (auto simp: index_inv_def)
  then have w: "wft T" "srep (tnodes t) None T" "dom (tnodes t) = set (ids T)" "distinct (ids T)" by (simp_all add: tree_of_def)
  have "card (dom (tnodes t)) = length (ids T)" using w(3,4) by (simp add: distinct_card)
  moreover have "1 \<le> ncount n \<and> ncount n \<le> 12" if "tnodes t p = Some n" for p n
    using srep_counts [OF w(2,1)] that w(3) by blast
  ultimately show ?thesis using wft_size [OF w(1)] T(2) assms by (auto simp: index_inv_def)
qed (use assms in \<open>simp add: index_inv_def\<close>)

text \<open>C22. Whatever sequence of insertions, removals and clears is applied to a new index, the nodes it holds
  on the heap afterwards are at most twice as many as the areas the same sequence leaves in a list (so
  none when no area is left), each holds between 1 and 12 entries, and the counter is the number of these
  areas.
\<close>

theorem index_run_nodes:
  assumes "\<forall>oper\<in>set ops. op_known V oper"
  shows "\<exists>t. index_run V ops VmaMapleTree_init = Some t \<and>
    (let n = length (foldl (\<lambda>es oper. spec_step V oper es) [] ops)
     in card (dom (tnodes t)) \<le> 2 * n \<and> finite (dom (tnodes t)) \<and> tsize t = int n \<and>
        (\<forall>p node. tnodes t p = Some node \<longrightarrow> 1 \<le> ncount node \<and> ncount node \<le> 12))"
proof -
  obtain t where t: "index_run V ops VmaMapleTree_init = Some t"
    "index_inv V t (foldl (\<lambda>es oper. spec_step V oper es) [] ops)"
    using index_run_refines [OF index_inv_init assms] by blast
  have "finite (dom (tnodes t))"
    using t(2) by (auto simp: index_inv_def tree_of_def split: if_splits)
  then show ?thesis using t index_inv_nodes [OF t(2)] by (simp add: Let_def)
qed

theorem index_run_nodes_witness:
  "\<exists>t. index_run ex_mem [Insert (Some 3), Insert (Some 1), Insert (Some 2), Insert (Some 4), Erase (Some 3)] VmaMapleTree_init = Some t
     \<and> card (dom (tnodes t)) \<le> 4 \<and> tsize t = 2"
proof -
  have "foldl (\<lambda>es oper. spec_step ex_mem oper es) [] [Insert (Some 3), Insert (Some 1), Insert (Some 2), Insert (Some 4), Erase (Some 3)] = [1, 2]"
    by (simp add: spec_step_def ins_area_def overlaps_vma_iff)
  then show ?thesis
    using index_run_nodes [of "[Insert (Some 3), Insert (Some 1), Insert (Some 2), Insert (Some 4), Erase (Some 3)]" ex_mem]
    by (auto simp: op_known_def Let_def)
qed

end
