(* ===== verification/Spec2Isabelle.thy ===== *)
theory Spec2Isabelle
  imports Buddy_Theorems Pmm_Init Pipe_Theorems Timer_Theorems Vma_Theorems
begin

text \<open>
  F7LY is a C++ kernel for RISC-V and LoongArch. This library models the data structures at its core,
  under \<open>src/kernel\<close>, and proves what the rest of the kernel relies on: the page allocator and the
  physical memory manager on top of it, the index of the virtual memory areas of a process, pipes,
  and clocks, timers and capabilities with the system calls that set and read them.

  \<^bold>\<open>Conventions.\<close> The operations are functions on explicit states (a \<open>record\<close> per class or per group of
  globals) with the names of the source; a name that clashes carries its class as a prefix
  (\<open>pmm_free_pages\<close>, \<open>pipe_read\<close>, \<open>tree_insert\<close>). A panic and undefined behaviour (an access out of the
  bounds of an array, a null or dangling dereference, a signed overflow) are \<^const>\<open>None\<close> of the type
  \<open>option\<close>; an error the caller sees (\<open>-1\<close>, a null pointer, an errno) is an ordinary value. Unsigned
  quantities are words where the code works on bits and natural numbers with explicit wrap-around
  (\<^const>\<open>u64_add\<close>, \<^const>\<open>u64_sub\<close>, \<^const>\<open>to_s32\<close>) elsewhere. An operation that holds its lock
  throughout is one atomic step; where the code releases the lock, what others do in the meantime is
  an argument (a list of changes, or a function on the state) over which the theorems quantify; what a
  theorem needs of it is one of its hypotheses. Calls into parts that are not
  modelled (signal queues, wake-ups of tasks, inter-processor kicks) are recorded as events; copies
  from and to user memory are parameters.

  \<^bold>\<open>Theories.\<close>

  \<^item> \<open>Prelude\<close>: machine types, fixed-width arithmetic, bounds-checked arrays, counted loops.

  \<^item> \<open>Buddy\<close>, \<open>Buddy_Correct\<close>, \<open>Buddy_Spec\<close>, \<open>Buddy_Theorems\<close> (\<open>mem/buddysystem.cc\<close>): the implicit tree of
    node states, all of \<open>Alloc\<close>, \<open>Free\<close>, \<open>query_page\<close>, \<open>Initialize\<close>, and the free pages and live blocks it
    stands for. Allocation is sound and complete, a release gives back exactly its block, and no
    sequence of calls panics, loses a page or lets the counter of free pages drift. The shifts of the
    source are in \<open>int\<close>: the invariant bounds the region by \<open>2 ^ 29\<close> pages (two terabytes), and
    \<open>Initialize\<close> of a larger one, up to \<open>2 ^ 31\<close> pages, is shown to overflow.
    \<open>Page_Interface\<close> is the contract with clients: the locale \<open>page_allocator\<close>, interpreted on the model
    as \<open>pages\<close>.

  \<^item> \<open>Pmm\<close>, \<open>Pmm_Correct\<close>, \<open>Pmm_Theorems\<close> (\<open>mem/physical_memory_manager.cc\<close>): reference-counted pages over
    the buddy allocator. The invariant ties each count to the tree; retaining and freeing pages
    that lie in no block of several pages refines plain counters; the batches equal loops of the single
    calls; contiguous blocks round trip; every state reachable by calls that return satisfies the
    invariant (a step relation and rule induction), and the counts keep their 16-bit type from any state.
    \<open>Pmm_Layout\<close>, \<open>Pmm_Init\<close>: the boot. The chosen interval is the largest one that avoids every reserved
    range, metadata, pages, heap and shared memory do not overlap, and \<open>init\<close> establishes the
    invariant, so that the properties of the running manager start from the firmware's tables. The
    input is assumed to describe RAM below \<open>2 ^ 47\<close> in regions of at most four terabytes
    (\<^const>\<open>boot_ok\<close>); the layout loops run the sixteen rounds of the source, and the theorem
    \<open>calculate_pmm_layout_oscillates\<close> shows that sixteen, like any number, is not always enough.

  \<^item> \<open>Vm_Area\<close>, \<open>Vma_Tree\<close> (\<open>proc/vm_area.hh\<close>, \<open>proc/vma_maple_tree.cc\<close>): memory areas and their index, a
    tree of linked leaves with parent pointers over an explicit heap of nodes. Loops that follow
    pointers are \<open>partial_function (option)\<close>; that they return is part of what is proved.
    \<open>Vma_Rep\<close> relates the heap to a ghost tree, \<open>Vma_Refresh\<close>, \<open>Vma_Query\<close>, \<open>Vma_Split\<close>, \<open>Vma_Insert\<close>,
    \<open>Vma_Insert_Leaf\<close>, \<open>Vma_Erase\<close> and \<open>Vma_Gap\<close> treat the operations one by one, \<open>Vma_Interface\<close> is the
    contract (the locale \<open>vma_index\<close>, interpreted as \<open>vx\<close>), and \<open>Vma_Theorems\<close> states that the index behaves as
    an ordered list of areas, with the size of the tree bounded by the number of areas.

  \<^item> \<open>Pipe\<close>, \<open>Pipe_Correct\<close>, \<open>Pipe_Spec\<close>, \<open>Pipe_Theorems\<close> (\<open>proc/pipe.cc\<close>): the ring buffer, the waiters, blocking
    and non-blocking transfers and resizing. Whatever other threads do while a call sleeps, it stays
    in bounds and keeps the order of the bytes; no wake-up is lost. \<open>Fifo_Interface\<close> is the contract
    (\<open>partial_fifo\<close>, interpreted as \<open>pipe_fifo\<close>). The loops recurse on the list of what happens while
    they sleep, so they end with it.

  \<^item> \<open>Time\<close>, \<open>Task\<close>, \<open>Capability\<close>, \<open>Posix_Timers\<close>, \<open>Timer_Syscalls\<close> (\<open>tm/time.hh\<close>, \<open>tm/timer_manager.cc\<close>,
    \<open>proc/capability.cc\<close>, \<open>proc/posix_timers.cc\<close> and the timer calls of \<open>sys/syscall_handler.cc\<close>), with
    \<open>Time_Theorems\<close>, \<open>Timer_Correct\<close>, \<open>Timer_Slots\<close> and \<open>Timer_Theorems\<close>: unit conversions and clocks, interval
    timers, the 32 timer slots with their counters of armed timers. No sequence of interrupts, calls
    and exits that satisfies \<^const>\<open>op_ok\<close> breaks the invariant; the counters let the interrupt skip only
    scans without effect; what was set is read back; the loop that advances a periodic timer ends. To
    wake a sleeping task the expiry of a timer gives up the lock of that task: what happens then is
    \<^const>\<open>env_after_remove\<close>, and \<^const>\<open>window_ok\<close> is what the safety of sequences assumes of it.

  \<^bold>\<open>Interaction.\<close> The physical memory manager is proved from the specification lemmas of the buddy allocator, and its
  boot against \<open>Initialize\<close>. Timers use the clocks, the capability rules and the fields of a task in
  \<open>Task\<close>. Areas refer to pages only by number.

  \<^bold>\<open>Where the code falls short.\<close> Some properties show behaviour that is not meant: a resized pipe on which
  the byte-wise write stores out of bounds, a conflict test that misses an overlap behind the ignored
  area, times from user space that overflow, a page count that is truncated to \<open>int\<close>, a timer that is
  disarmed twice when its task clears it during the expiry, so that another task's alarm is lost, and the
  layout iteration above. Each is stated as a theorem with a concrete instance.

  \<^bold>\<open>Not modelled.\<close> Address spaces with their object and file references (\<open>proc/vma_space.cc\<close>,
  \<open>proc/vma_metadata_utils.cc\<close>, \<open>proc/process_memory_manager.cc\<close>, \<open>proc/vm_object.cc\<close>, \<open>proc/file_page_cache.cc\<close>):
  their operations change page tables, files and areas together, and neither page tables
  (\<open>mem/virtual_memory_manager.cc\<close>) nor file systems (\<open>fs\<close>) are modelled. Processes, scheduling, signals,
  futexes and traps (\<open>proc\<close>, \<open>trap\<close>, \<open>hal\<close>, \<open>boot\<close>): context switches and delivery are assembly and
  hardware state. The kernel heap and the slab lists (\<open>mem/heap_memory_manager.cc\<close>, \<open>mem/slab.cc\<close>,
  \<open>libs\<close>): untyped free lists inside the pages they manage. Devices, the device tree parser, networking
  and shared memory segments (\<open>devs\<close>, \<open>net\<close>, \<open>shm\<close>): register access and ports of other projects. The
  hardware counter, the linker symbols and the parser's answers are inputs of the model; allocation of
  tree nodes and of pipe buffers does not fail.
\<close>

end
